(* ===== verification/Prelude.thy ===== *)
theory Prelude
  imports Main "HOL-Library.Word" "HOL-Library.Monad_Syntax"
begin

unbundle bit_operations_syntax

text \<open>
  Shared vocabulary of the development: the machine types of the C sources, the
  fault convention, array accesses, and the ring buffers that three components
  (the service message queue, the packet queue of the socket framing and the
  wavefront queue of the flow graph) implement with the same head and tail
  arithmetic.

  Fault convention: an operation whose C code can run into undefined behaviour, a
  failing \<open>assert\<close>, a null dereference or an endless loop has a result of type
  \<open>'a option\<close>, and \<open>None\<close> is that outcome.  A theorem that such an operation
  equals \<open>Some r\<close> therefore says that the code returns, and returns \<open>r\<close>.  Errors
  the code reports to its caller (return codes, \<open>luaL_error\<close>) are ordinary values.
\<close>

type_synonym u8 = "8 word"
type_synonym u16 = "16 word"
type_synonym u32 = "32 word"
type_synonym u64 = "64 word"

text \<open>Collections of rewrite and introduction rules shared by the component proofs.\<close>

named_theorems c_simps "evaluation of the C access and check primitives"
named_theorems ring_simps "contents of a ring buffer after an update"

subsection \<open>C primitives\<close>

text \<open>\<open>assert(b)\<close>.\<close>

definition c_assert :: "bool \<Rightarrow> unit option" where
  "c_assert b = (if b then Some () else None)"

text \<open>The result of a signed \<open>int\<close> computation whose value is not negative: overflow is
  undefined behaviour.\<close>

definition INT_MAX :: nat where
  "INT_MAX = 2147483647"

definition c_int :: "nat \<Rightarrow> nat option" where
  "c_int n = (if n \<le> INT_MAX then Some n else None)"

text \<open>The result of any other signed \<open>int\<close> computation.\<close>

definition c_sint :: "int \<Rightarrow> int option" where
  "c_sint i = (if - 2147483648 \<le> i \<and> i < 2147483648 then Some i else None)"

text \<open>Array read and write at an index; outside the array both are undefined.\<close>

definition arr_get :: "'a list \<Rightarrow> nat \<Rightarrow> 'a option" where
  "arr_get xs i = (if i < length xs then Some (xs ! i) else None)"

definition arr_set :: "'a list \<Rightarrow> nat \<Rightarrow> 'a \<Rightarrow> 'a list option" where
  "arr_set xs i v = (if i < length xs then Some (xs[i := v]) else None)"

text \<open>The conversion of a 64 bit Lua integer to the C type \<open>int\<close> keeps the low 32 bits,
  read in two's complement.\<close>

definition to_int32 :: "int \<Rightarrow> int" where
  "to_int32 x = (x + 2147483648) mod 4294967296 - 2147483648"

lemma c_assert_True [simp, c_simps]: "c_assert True = Some ()"
  and c_assert_False [simp, c_simps]: "c_assert False = None"
  by (simp_all add: c_assert_def)

lemma c_assert_Some [simp]: "c_assert b = Some u \<longleftrightarrow> b"
  by (simp add: c_assert_def)

lemma c_int_Some [simp]: "c_int n = Some m \<longleftrightarrow> n = m \<and> n \<le> INT_MAX"
  by (auto simp: c_int_def)

lemma c_int_code [code]: "c_int n = (if int n \<le> 2147483647 then Some n else None)"
  by (simp add: c_int_def INT_MAX_def)

lemma c_int_ok [c_simps]: "n \<le> INT_MAX \<Longrightarrow> c_int n = Some n"
  by simp

lemma c_sint_Some [simp]: "c_sint i = Some j \<longleftrightarrow> i = j \<and> - 2147483648 \<le> i \<and> i < 2147483648"
  by (auto simp: c_sint_def)

lemma c_sint_ok [c_simps]: "- 2147483648 \<le> i \<Longrightarrow> i < 2147483648 \<Longrightarrow> c_sint i = Some i"
  by simp

lemma c_sint_None: "i < - 2147483648 \<or> 2147483648 \<le> i \<Longrightarrow> c_sint i = None"
  by (auto simp: c_sint_def)

lemma arr_get_Some [simp]: "arr_get xs i = Some v \<longleftrightarrow> i < length xs \<and> xs ! i = v"
  by (auto simp: arr_get_def)

lemma arr_set_Some [simp]: "arr_set xs i v = Some ys \<longleftrightarrow> i < length xs \<and> ys = xs[i := v]"
  by (auto simp: arr_set_def)

lemma arr_get_ok [c_simps]: "i < length xs \<Longrightarrow> arr_get xs i = Some (xs ! i)"
  by simp

lemma arr_set_ok [c_simps]: "i < length xs \<Longrightarrow> arr_set xs i v = Some (xs[i := v])"
  by simp

lemma to_int32_id: "- 2147483648 \<le> x \<Longrightarrow> x < 2147483648 \<Longrightarrow> to_int32 x = x"
  by (simp add: to_int32_def mod_pos_pos_trivial)

lemma to_int32_range: "- 2147483648 \<le> to_int32 x \<and> to_int32 x < 2147483648"
proof -
  have "0 \<le> (x + 2147483648) mod 4294967296" and "(x + 2147483648) mod 4294967296 < 4294967296"
    by simp_all
  then show ?thesis unfolding to_int32_def by linarith
qed

lemma option_eqI: "(\<And>x. a = Some x \<longleftrightarrow> b = Some x) \<Longrightarrow> a = b"
  by (cases a; cases b) auto

lemma nth_list_update_if: "xs[i := v] ! j = (if j = i \<and> i < length xs then v else xs ! j)"
  by (cases "i < length xs") (auto simp: list_update_beyond)

subsection \<open>Weakest liberal preconditions\<close>

text \<open>\<open>wlp m Q\<close>: if \<open>m\<close> returns, its result satisfies \<open>Q\<close>.  The rules take a computation of the
  option monad apart, one bind, test or case distinction at a time.\<close>

definition wlp :: "'a option \<Rightarrow> ('a \<Rightarrow> bool) \<Rightarrow> bool" where
  "wlp m Q \<longleftrightarrow> (\<forall>a. m = Some a \<longrightarrow> Q a)"

named_theorems wlp_intro "rules that take a computation apart"

lemma wlp_Some [wlp_intro]: "Q a \<Longrightarrow> wlp (Some a) Q"
  and wlp_None [wlp_intro]: "wlp None Q"
  by (simp_all add: wlp_def)

lemma wlp_bind [wlp_intro]: "wlp m (\<lambda>a. wlp (f a) Q) \<Longrightarrow> wlp (m \<bind> f) Q"
  by (auto simp: wlp_def bind_eq_Some_conv)

lemma wlp_assert [wlp_intro]: "(b \<Longrightarrow> Q ()) \<Longrightarrow> wlp (c_assert b) Q"
  by (simp add: wlp_def)

lemma wlp_if [wlp_intro]:
  "(b \<Longrightarrow> wlp m Q) \<Longrightarrow> (\<not> b \<Longrightarrow> wlp n Q) \<Longrightarrow> wlp (if b then m else n) Q"
  by simp

lemma wlp_option [wlp_intro]:
  "(x = None \<Longrightarrow> wlp m Q) \<Longrightarrow> (\<And>a. x = Some a \<Longrightarrow> wlp (f a) Q) \<Longrightarrow>
   wlp (case x of None \<Rightarrow> m | Some a \<Rightarrow> f a) Q"
  by (cases x) auto

lemma wlp_sum [wlp_intro]:
  "(\<And>a. x = Inl a \<Longrightarrow> wlp (f a) Q) \<Longrightarrow> (\<And>b. x = Inr b \<Longrightarrow> wlp (g b) Q) \<Longrightarrow>
   wlp (case x of Inl a \<Rightarrow> f a | Inr b \<Rightarrow> g b) Q"
  by (cases x) auto

lemma wlp_prod [wlp_intro]: "(\<And>a b. x = (a, b) \<Longrightarrow> wlp (f a b) Q) \<Longrightarrow> wlp (case x of (a, b) \<Rightarrow> f a b) Q"
  by (cases x) auto

lemma wlp_Let [wlp_intro]: "wlp (f x) Q \<Longrightarrow> wlp (Let x f) Q"
  by simp

lemma wlp_Some_pair: "P a b \<Longrightarrow> wlp (Some (a, b)) (\<lambda>(r, w). P r w)"
  and wlp_Some_triple: "R a b c \<Longrightarrow> wlp (Some (a, b, c)) (\<lambda>(r, s, w). R r s w)"
  and wlp_case_pair: "wlp (f a b) Q \<Longrightarrow> wlp (case (a, b) of (a, b) \<Rightarrow> f a b) Q"
  by (simp_all add: wlp_def)

lemma wlp_case_Some: "wlp (f a) Q \<Longrightarrow> wlp (case Some a of None \<Rightarrow> m | Some a \<Rightarrow> f a) Q"
  and wlp_case_None: "wlp m Q \<Longrightarrow> wlp (case None of None \<Rightarrow> m | Some a \<Rightarrow> f a) Q"
  by simp_all

lemmas wlp_rules = wlp_case_pair wlp_case_Some wlp_case_None wlp_Some_pair wlp_Some wlp_None wlp_bind
  wlp_assert wlp_if wlp_option wlp_sum wlp_prod wlp_Let

lemma wlp_mono: "wlp m P \<Longrightarrow> (\<And>a. P a \<Longrightarrow> Q a) \<Longrightarrow> wlp m Q"
  by (simp add: wlp_def)

lemma wlp_any: "(\<And>a. m = Some a \<Longrightarrow> Q a) \<Longrightarrow> wlp m Q"
  by (simp add: wlp_def)

lemma wlp_pair: "wlp m (\<lambda>(r, w). P r w) \<Longrightarrow> (\<And>r w. P r w \<Longrightarrow> Q (r, w)) \<Longrightarrow> wlp m Q"
  by (auto simp: wlp_def)

lemma wlpD: "wlp m Q \<Longrightarrow> m = Some a \<Longrightarrow> Q a"
  by (simp add: wlp_def)

subsection \<open>Masks and shifts\<close>

lemma unat_and_mask: "unat (x AND mask k) = unat x mod 2 ^ k" for x :: "'a::len word"
proof -
  have "unat (take_bit k x) = take_bit k (unat x)" by (rule unsigned_take_bit_eq)
  then show ?thesis by (simp add: take_bit_eq_mask flip: take_bit_eq_mod)
qed

lemma unat_drop_bit: "unat (drop_bit k x) = unat x div 2 ^ k" for x :: "'a::len word"
proof -
  have "unat (drop_bit k x) = drop_bit k (unat x)" by (rule unat_drop_bit_eq)
  then show ?thesis by (simp only: drop_bit_eq_div [of k "unat x"])
qed

lemma or_mask_eq:
  "(x OR mask k) = (y OR mask k) \<longleftrightarrow> drop_bit k x = drop_bit k y" for x y :: "'a::len word"
proof
  assume *: "(x OR mask k) = (y OR mask k)"
  show "drop_bit k x = drop_bit k y"
  proof (rule bit_word_eqI)
    fix n
    from * have "bit (x OR mask k) (k + n) = bit (y OR mask k) (k + n)" by simp
    then show "bit (drop_bit k x) n = bit (drop_bit k y) n" by (auto simp: bit_simps)
  qed
next
  assume *: "drop_bit k x = drop_bit k y"
  show "(x OR mask k) = (y OR mask k)"
  proof (rule bit_word_eqI)
    fix n assume n: "n < LENGTH('a)"
    have "bit (drop_bit k x) (n - k) = bit (drop_bit k y) (n - k)" using * by simp
    with n show "bit (x OR mask k) n = bit (y OR mask k) n"
      by (cases "n < k") (simp_all add: bit_simps)
  qed
qed

subsection \<open>Ring buffers\<close>

text \<open>
  A ring is an array of \<open>cap\<close> slots with a read index \<open>head\<close> and a write index
  \<open>tail\<close>; it is empty when they are equal.  \<open>ring_len\<close> and \<open>ring_contents\<close> are the
  abstraction: the number of stored elements and the elements in the order in which
  they will be read.
\<close>

definition ring_len :: "nat \<Rightarrow> nat \<Rightarrow> nat \<Rightarrow> nat" where
  "ring_len cap h t = (if h \<le> t then t - h else t + cap - h)"

definition ring_contents :: "nat \<Rightarrow> nat \<Rightarrow> nat \<Rightarrow> 'a list \<Rightarrow> 'a list" where
  "ring_contents cap h t buf = map (\<lambda>i. buf ! ((h + i) mod cap)) [0..<ring_len cap h t]"

definition ring_ok :: "nat \<Rightarrow> nat \<Rightarrow> nat \<Rightarrow> 'a list \<Rightarrow> bool" where
  "ring_ok cap h t buf \<longleftrightarrow> h < cap \<and> t < cap \<and> cap \<le> length buf"

text \<open>The successor of an index: \<open>if (++i >= cap) i = 0\<close>.\<close>

definition ring_next :: "nat \<Rightarrow> nat \<Rightarrow> nat" where
  "ring_next cap i = (if i + 1 \<ge> cap then 0 else i + 1)"

lemma ring_next_less [simp]: "0 < cap \<Longrightarrow> ring_next cap i < cap"
  by (simp add: ring_next_def)

lemma ring_next_mod: "i < cap \<Longrightarrow> ring_next cap i = (i + 1) mod cap"
  by (cases "i + 1 = cap") (simp_all add: ring_next_def)

lemma length_ring_contents [simp]: "length (ring_contents cap h t buf) = ring_len cap h t"
  by (simp add: ring_contents_def)

lemma ring_len_less: "h < cap \<Longrightarrow> t < cap \<Longrightarrow> ring_len cap h t < cap"
  by (auto simp: ring_len_def)

lemma ring_len_eq_0 [simp]: "h < cap \<Longrightarrow> ring_len cap h t = 0 \<longleftrightarrow> h = t"
  by (auto simp: ring_len_def)

lemma ring_empty [simp]: "ring_contents cap h h buf = []"
  by (simp add: ring_contents_def ring_len_def)

lemma ring_contents_Nil_iff: "h < cap \<Longrightarrow> ring_contents cap h t buf = [] \<longleftrightarrow> h = t"
  by (simp flip: length_0_conv)

lemma ring_len_push:
  assumes "h < cap" "t < cap" "ring_next cap t \<noteq> h"
  shows "ring_len cap h (ring_next cap t) = Suc (ring_len cap h t)"
  using assms by (auto simp: ring_len_def ring_next_def split: if_splits)

lemma ring_len_full:
  assumes "h < cap" "t < cap" "ring_next cap t = h"
  shows "Suc (ring_len cap h t) = cap"
  using assms by (auto simp: ring_len_def ring_next_def split: if_splits)

lemma ring_len_pop:
  assumes "h < cap" "t < cap" "h \<noteq> t"
  shows "ring_len cap h t = Suc (ring_len cap (ring_next cap h) t)"
  using assms by (auto simp: ring_len_def ring_next_def split: if_splits)

lemma ring_tail_index:
  "h < cap \<Longrightarrow> t < cap \<Longrightarrow> (h + ring_len cap h t) mod cap = t"
  by (auto simp: ring_len_def)

lemma ring_index_neq_tail:
  assumes "h < cap" "t < cap" "i < ring_len cap h t"
  shows "(h + i) mod cap \<noteq> t"
proof (cases "h + i < cap")
  case True
  with assms show ?thesis by (auto simp: ring_len_def split: if_splits)
next
  case False
  with assms have "(h + i) mod cap = h + i - cap"
    using ring_len_less [OF assms(1,2)] by (simp add: mod_if)
  with False assms show ?thesis by (auto simp: ring_len_def split: if_splits)
qed

text \<open>Writing the slot at \<open>tail\<close> keeps the contents; advancing \<open>tail\<close> then appends it.\<close>

lemma ring_contents_write:
  assumes "ring_ok cap h t buf"
  shows "ring_contents cap h t (buf[t := v]) = ring_contents cap h t buf"
  using assms by (auto simp: ring_contents_def ring_ok_def dest: ring_index_neq_tail)

lemma ring_contents_push [ring_simps]:
  assumes ok: "ring_ok cap h t buf" and room: "ring_next cap t \<noteq> h"
  shows "ring_contents cap h (ring_next cap t) (buf[t := v]) = ring_contents cap h t buf @ [v]"
proof -
  from ok have b: "h < cap" "t < cap" "t < length buf" by (auto simp: ring_ok_def)
  have "ring_contents cap h (ring_next cap t) (buf[t := v])
      = ring_contents cap h t (buf[t := v]) @ [buf[t := v] ! ((h + ring_len cap h t) mod cap)]"
    using ring_len_push [OF b(1,2) room] by (simp add: ring_contents_def)
  then show ?thesis
    using ring_contents_write [OF ok] ring_tail_index [OF b(1,2)] b(3) by simp
qed

lemma ring_contents_pop [ring_simps]:
  assumes ok: "ring_ok cap h t buf" and ne: "h \<noteq> t"
  shows "ring_contents cap h t buf = buf ! h # ring_contents cap (ring_next cap h) t buf"
proof -
  from ok have b: "h < cap" "t < cap" by (auto simp: ring_ok_def)
  have *: "(h + Suc i) mod cap = (ring_next cap h + i) mod cap" for i
    using ring_next_mod [OF b(1)] by (simp add: mod_simps)
  have "ring_contents cap h t buf
      = map (\<lambda>i. buf ! ((h + i) mod cap)) (0 # map Suc [0..<ring_len cap (ring_next cap h) t])"
    using ring_len_pop [OF b ne] by (simp add: ring_contents_def upt_conv_Cons map_Suc_upt del: upt_Suc)
  also have "\<dots> = buf ! h # ring_contents cap (ring_next cap h) t buf"
    using b(1) * by (simp add: ring_contents_def)
  finally show ?thesis .
qed

text \<open>A full rotation: after the write that makes \<open>tail\<close> meet \<open>head\<close>, reading all \<open>cap\<close>
  slots from \<open>head\<close> gives the contents followed by the element just written.\<close>

lemma ring_rotation:
  assumes ok: "ring_ok cap h t buf" and full: "ring_next cap t = h"
  shows "map (\<lambda>i. buf[t := v] ! ((h + i) mod cap)) [0..<cap] = ring_contents cap h t buf @ [v]"
proof -
  from ok have b: "h < cap" "t < cap" "t < length buf" by (auto simp: ring_ok_def)
  have "[0..<cap] = [0..<ring_len cap h t] @ [ring_len cap h t]"
    using ring_len_full [OF b(1,2) full] by (metis upt_Suc_append zero_le)
  then have "map (\<lambda>i. buf[t := v] ! ((h + i) mod cap)) [0..<cap]
      = ring_contents cap h t (buf[t := v]) @ [buf[t := v] ! ((h + ring_len cap h t) mod cap)]"
    by (simp add: ring_contents_def)
  then show ?thesis
    using ring_contents_write [OF ok] ring_tail_index [OF b(1,2)] b(3) by simp
qed

lemma ring_contents_flat:
  assumes "n \<le> cap" "n < cap \<or> n = 0" "cap \<le> length buf"
  shows "ring_contents cap 0 n buf = take n buf"
  using assms by (intro nth_equalityI) (auto simp: ring_contents_def ring_len_def)

subsection \<open>The contract of a queue\<close>

text \<open>Pushing a list of elements; popping until the queue reports that it is empty, at most
  \<open>n\<close> times.\<close>

fun push_all :: "('q \<Rightarrow> 'a \<Rightarrow> 'q option) \<Rightarrow> 'q \<Rightarrow> 'a list \<Rightarrow> 'q option" where
  "push_all push q [] = Some q"
| "push_all push q (x # xs) = do { q' \<leftarrow> push q x; push_all push q' xs }"

fun pop_all :: "('q \<Rightarrow> ('a option \<times> 'q) option) \<Rightarrow> nat \<Rightarrow> 'q \<Rightarrow> ('a list \<times> 'q) option" where
  "pop_all pop 0 q = None"
| "pop_all pop (Suc n) q = do {
     (r, q') \<leftarrow> pop q;
     (case r of
        None \<Rightarrow> Some ([], q')
      | Some x \<Rightarrow> do { (xs, q'') \<leftarrow> pop_all pop n q'; Some (x # xs, q'') }) }"

text \<open>Any sequence of pushes and pops, with the results of the pops; the same on a list; and the
  condition that no push finds the list full.\<close>

datatype 'a queue_op = Qpush 'a | Qpop

fun run_queue :: "('q \<Rightarrow> 'a \<Rightarrow> 'q option) \<Rightarrow> ('q \<Rightarrow> ('a option \<times> 'q) option) \<Rightarrow> 'a queue_op list \<Rightarrow> 'q \<Rightarrow>
    ('a option list \<times> 'q) option" where
  "run_queue push pop [] q = Some ([], q)"
| "run_queue push pop (Qpush x # ops) q = do { q \<leftarrow> push q x; run_queue push pop ops q }"
| "run_queue push pop (Qpop # ops) q = do {
     (r, q) \<leftarrow> pop q;
     (rs, q) \<leftarrow> run_queue push pop ops q;
     Some (r # rs, q) }"

fun queue_spec :: "'a queue_op list \<Rightarrow> 'a list \<Rightarrow> 'a option list \<times> 'a list" where
  "queue_spec [] xs = ([], xs)"
| "queue_spec (Qpush x # ops) xs = queue_spec ops (xs @ [x])"
| "queue_spec (Qpop # ops) [] = (let (rs, ys) = queue_spec ops [] in (None # rs, ys))"
| "queue_spec (Qpop # ops) (x # xs) = (let (rs, ys) = queue_spec ops xs in (Some x # rs, ys))"

fun queue_fits :: "nat \<Rightarrow> 'a queue_op list \<Rightarrow> 'a list \<Rightarrow> bool" where
  "queue_fits n [] xs \<longleftrightarrow> True"
| "queue_fits n (Qpush x # ops) xs \<longleftrightarrow> length xs < n \<and> queue_fits n ops (xs @ [x])"
| "queue_fits n (Qpop # ops) xs \<longleftrightarrow> queue_fits n ops (tl xs)"

text \<open>
  What the clients of a ring rely on: while it holds fewer elements than its limit, a push
  succeeds and appends; a pop returns the oldest element.  Every ring buffer of the
  program is an interpretation.
\<close>

locale fifo =
  fixes invar :: "'q \<Rightarrow> bool"
    and limit :: "'q \<Rightarrow> nat"
    and contents :: "'q \<Rightarrow> 'a list"
    and push :: "'q \<Rightarrow> 'a \<Rightarrow> 'q option"
    and pop :: "'q \<Rightarrow> ('a option \<times> 'q) option"
  assumes push_spec: "invar q \<Longrightarrow> length (contents q) < limit q \<Longrightarrow>
      \<exists>q'. push q x = Some q' \<and> invar q' \<and> contents q' = contents q @ [x] \<and> limit q' = limit q"
    and pop_empty: "invar q \<Longrightarrow> contents q = [] \<Longrightarrow>
      \<exists>q'. pop q = Some (None, q') \<and> invar q' \<and> contents q' = [] \<and> limit q' = limit q"
    and pop_nonempty: "invar q \<Longrightarrow> contents q = x # xs \<Longrightarrow>
      \<exists>q'. pop q = Some (Some x, q') \<and> invar q' \<and> contents q' = xs \<and> limit q' = limit q"
begin

lemma push_all_contents:
  assumes "invar q" "length (contents q) + length xs \<le> limit q"
  shows "\<exists>q'. push_all push q xs = Some q' \<and> invar q' \<and> contents q' = contents q @ xs"
  using assms
proof (induction xs arbitrary: q)
  case Nil
  then show ?case by simp
next
  case (Cons x xs)
  from push_spec [OF Cons.prems(1), of x] Cons.prems(2) obtain q' where
    q': "push q x = Some q'" "invar q'" "contents q' = contents q @ [x]" "limit q' = limit q"
    by auto
  with Cons.IH [of q'] Cons.prems(2) show ?case by auto
qed

lemma pop_all_contents:
  assumes "invar q" "length (contents q) < n"
  shows "\<exists>q'. pop_all pop n q = Some (contents q, q') \<and> invar q' \<and> contents q' = []"
  using assms
proof (induction n arbitrary: q)
  case 0
  then show ?case by simp
next
  case (Suc n)
  show ?case
  proof (cases "contents q")
    case Nil
    from pop_empty [OF Suc.prems(1) this] Nil show ?thesis by auto
  next
    case (Cons x xs)
    from pop_nonempty [OF Suc.prems(1) Cons] obtain q' where
      q': "pop q = Some (Some x, q')" "invar q'" "contents q' = xs" by blast
    from Suc.IH [OF q'(2)] Suc.prems(2) Cons q'(3) obtain q'' where
      "pop_all pop n q' = Some (xs, q'')" "invar q''" "contents q'' = []" by auto
    with q' Cons show ?thesis by auto
  qed
qed

text \<open>First in, first out: what is pushed comes out after what was there, in order.\<close>

lemma push_all_pop_all:
  assumes "invar q" "length (contents q) + length xs \<le> limit q"
    "length (contents q) + length xs < n"
  shows "\<exists>q' q''. push_all push q xs = Some q' \<and> pop_all pop n q' = Some (contents q @ xs, q'')"
  using push_all_contents [OF assms(1,2)] pop_all_contents [of _ n] assms(3) by force

text \<open>Pushes and pops in any order have the results that they have on a list.\<close>

lemma run_queue_refines:
  assumes "invar q" "queue_fits (limit q) ops (contents q)"
  shows "\<exists>q'. run_queue push pop ops q = Some (fst (queue_spec ops (contents q)), q') \<and> invar q' \<and>
    contents q' = snd (queue_spec ops (contents q)) \<and> limit q' = limit q"
  using assms
proof (induction ops arbitrary: q)
  case Nil
  then show ?case by simp
next
  case (Cons op ops)
  show ?case
  proof (cases op)
    case (Qpush x)
    with push_spec [OF Cons.prems(1), of x] Cons.prems(2) obtain q1 where
      q1: "push q x = Some q1" "invar q1" "contents q1 = contents q @ [x]" "limit q1 = limit q" by auto
    with Cons.IH [OF q1(2)] Cons.prems(2) Qpush show ?thesis by simp
  next
    case Qpop
    show ?thesis
    proof (cases "contents q")
      case Nil
      from pop_empty [OF Cons.prems(1) this] obtain q1 where
        q1: "pop q = Some (None, q1)" "invar q1" "contents q1 = []" "limit q1 = limit q" by auto
      with Cons.IH [OF q1(2)] Cons.prems(2) Qpop Nil show ?thesis by (auto simp: case_prod_unfold Let_def)
    next
      case (Cons x xs)
      from pop_nonempty [OF Cons.prems(1) this] obtain q1 where
        q1: "pop q = Some (Some x, q1)" "invar q1" "contents q1 = xs" "limit q1 = limit q" by auto
      with Cons.IH [OF q1(2)] Cons.prems(2) Qpop Cons show ?thesis by (auto simp: case_prod_unfold Let_def)
    qed
  qed
qed

end

subsection \<open>Data refinement over sequences of operations\<close>

text \<open>A concrete operation may fault; it is applied in sequence, and \<open>ops_ok\<close> says that each
  operation of the sequence meets its precondition in the state it is applied to.\<close>

fun run_ops :: "('o \<Rightarrow> 'c \<Rightarrow> 'c option) \<Rightarrow> 'o list \<Rightarrow> 'c \<Rightarrow> 'c option" where
  "run_ops step [] s = Some s"
| "run_ops step (op # ops) s = do { s \<leftarrow> step op s; run_ops step ops s }"

fun ops_ok :: "('o \<Rightarrow> 'c \<Rightarrow> bool) \<Rightarrow> ('o \<Rightarrow> 'c \<Rightarrow> 'c option) \<Rightarrow> 'o list \<Rightarrow> 'c \<Rightarrow> bool" where
  "ops_ok ok step [] s \<longleftrightarrow> True"
| "ops_ok ok step (op # ops) s \<longleftrightarrow> ok op s \<and>
     (case step op s of Some s' \<Rightarrow> ops_ok ok step ops s' | None \<Rightarrow> True)"

inductive spec_run :: "('o \<Rightarrow> 'a \<Rightarrow> 'a \<Rightarrow> bool) \<Rightarrow> 'o list \<Rightarrow> 'a \<Rightarrow> 'a \<Rightarrow> bool" for spec where
  nil: "spec_run spec [] a a"
| cons: "spec op a a' \<Longrightarrow> spec_run spec ops a' a'' \<Longrightarrow> spec_run spec (op # ops) a a''"

inductive_cases spec_run_consE: "spec_run spec (op # ops) a a''"

locale data_refinement =
  fixes invar :: "'c \<Rightarrow> bool"
    and ok :: "'o \<Rightarrow> 'c \<Rightarrow> bool"
    and step :: "'o \<Rightarrow> 'c \<Rightarrow> 'c option"
    and abs :: "'c \<Rightarrow> 'a"
    and spec :: "'o \<Rightarrow> 'a \<Rightarrow> 'a \<Rightarrow> bool"
  assumes step_refines: "invar s \<Longrightarrow> ok op s \<Longrightarrow>
    \<exists>s'. step op s = Some s' \<and> invar s' \<and> spec op (abs s) (abs s')"
begin

lemma run_refines:
  assumes "invar s" "ops_ok ok step ops s"
  shows "\<exists>s'. run_ops step ops s = Some s' \<and> invar s' \<and> spec_run spec ops (abs s) (abs s')"
  using assms
proof (induction ops arbitrary: s)
  case Nil
  then show ?case by (auto intro: spec_run.nil)
next
  case (Cons op ops)
  from step_refines [of s op] Cons.prems obtain s' where
    s': "step op s = Some s'" "invar s'" "spec op (abs s) (abs s')" by auto
  with Cons.IH [of s'] Cons.prems(2) show ?case by (auto intro: spec_run.cons)
qed

lemma run_invariant:
  assumes "invar s" "ops_ok ok step ops s" "run_ops step ops s = Some s'"
  shows "invar s'"
  using run_refines [OF assms(1,2)] assms(3) by auto

end

end
