(* ===== verification/Mq.thy ===== *)
theory Mq
  imports Prelude
begin

text \<open>
  The message queues of the scheduler, \<open>3rd/skynet/skynet-src/skynet_mq.c\<close>.  Every
  service has a queue, a growing ring buffer; a queue that holds messages is linked
  into one global list, from which the worker threads take queues to dispatch.

  A queue lives at an address in the store \<open>mqs\<close>; \<open>mq_next\<close> is the intrusive link of
  the global list, whose ends are \<open>gq_head\<close> and \<open>gq_tail\<close> (the C global \<open>Q\<close>).  Each
  operation runs under its spin lock and is one atomic step here.  The store record is
  open (\<open>'z mq_world_scheme\<close>) because the later components extend it.
\<close>

subsection \<open>Data\<close>

type_synonym qid = nat

text \<open>
  A message carries a pointer to its payload, \<open>None\<close> for \<open>NULL\<close>.  A slot of a queue's
  buffer is \<open>None\<close> while \<open>skynet_malloc\<close>'s memory is not initialised; reading it is a
  fault.
\<close>

record skynet_message =
  msg_source :: u32
  msg_session :: int
  msg_data :: "nat option"
  msg_sz :: u64

definition DEFAULT_QUEUE_SIZE :: nat where "DEFAULT_QUEUE_SIZE = 64"
definition MQ_IN_GLOBAL :: nat where "MQ_IN_GLOBAL = 1"
definition MQ_OVERLOAD :: nat where "MQ_OVERLOAD = 1024"

record message_queue =
  mq_handle :: u32
  mq_cap :: nat
  mq_head :: nat
  mq_tail :: nat
  mq_release :: nat
  mq_in_global :: nat
  mq_overload :: nat
  mq_overload_threshold :: nat
  mq_queue :: "skynet_message option list"
  mq_next :: "qid option"

record mq_world =
  mqs :: "qid \<Rightarrow> message_queue option"
  gq_head :: "qid option"
  gq_tail :: "qid option"

definition set_mq :: "'z mq_world_scheme \<Rightarrow> qid \<Rightarrow> message_queue \<Rightarrow> 'z mq_world_scheme" where
  "set_mq w p q = w\<lparr>mqs := (mqs w)(p := Some q)\<rparr>"

subsection \<open>The global list\<close>

definition skynet_mq_init :: "'z mq_world_scheme \<Rightarrow> 'z mq_world_scheme" where
  "skynet_mq_init w = w\<lparr>gq_head := None, gq_tail := None\<rparr>"

definition skynet_globalmq_push :: "'z mq_world_scheme \<Rightarrow> qid \<Rightarrow> 'z mq_world_scheme option" where
  "skynet_globalmq_push w p = do {
     q \<leftarrow> mqs w p;
     c_assert (mq_next q = None);
     (case gq_tail w of
        Some t \<Rightarrow> do {
          tq \<leftarrow> mqs w t;
          Some ((set_mq w t (tq\<lparr>mq_next := Some p\<rparr>))\<lparr>gq_tail := Some p\<rparr>) }
      | None \<Rightarrow> Some (w\<lparr>gq_head := Some p, gq_tail := Some p\<rparr>)) }"

definition skynet_globalmq_pop ::
    "'z mq_world_scheme \<Rightarrow> (qid option \<times> 'z mq_world_scheme) option" where
  "skynet_globalmq_pop w =
     (case gq_head w of
        None \<Rightarrow> Some (None, w)
      | Some p \<Rightarrow> do {
          q \<leftarrow> mqs w p;
          w1 \<leftarrow> (if mq_next q = None
                 then do { c_assert (Some p = gq_tail w);
                           Some (w\<lparr>gq_head := None, gq_tail := None\<rparr>) }
                 else Some (w\<lparr>gq_head := mq_next q\<rparr>));
          Some (Some p, set_mq w1 p (q\<lparr>mq_next := None\<rparr>)) })"

subsection \<open>One queue\<close>

text \<open>The address \<open>p\<close> is the one \<open>skynet_malloc\<close> returns.\<close>

definition skynet_mq_create ::
    "'z mq_world_scheme \<Rightarrow> qid \<Rightarrow> u32 \<Rightarrow> 'z mq_world_scheme" where
  "skynet_mq_create w p hdl = set_mq w p
     \<lparr>mq_handle = hdl, mq_cap = DEFAULT_QUEUE_SIZE, mq_head = 0, mq_tail = 0,
      mq_release = 0, mq_in_global = MQ_IN_GLOBAL, mq_overload = 0,
      mq_overload_threshold = MQ_OVERLOAD,
      mq_queue = replicate DEFAULT_QUEUE_SIZE None, mq_next = None\<rparr>"

definition mq_release_mem :: "'z mq_world_scheme \<Rightarrow> qid \<Rightarrow> 'z mq_world_scheme option" where
  "mq_release_mem w p = do {
     q \<leftarrow> mqs w p;
     c_assert (mq_next q = None);
     Some (w\<lparr>mqs := (mqs w)(p := None)\<rparr>) }"

definition skynet_mq_handle :: "message_queue \<Rightarrow> u32" where
  "skynet_mq_handle q = mq_handle q"

definition skynet_mq_length :: "message_queue \<Rightarrow> nat" where
  "skynet_mq_length q =
     (if mq_head q \<le> mq_tail q then mq_tail q - mq_head q
      else mq_tail q + mq_cap q - mq_head q)"

definition skynet_mq_overload :: "message_queue \<Rightarrow> nat \<times> message_queue" where
  "skynet_mq_overload q =
     (if mq_overload q \<noteq> 0 then (mq_overload q, q\<lparr>mq_overload := 0\<rparr>) else (0, q))"

text \<open>The loop \<open>while (length > q->overload_threshold)\<close>.\<close>

partial_function (option) overload_loop :: "nat \<Rightarrow> message_queue \<Rightarrow> message_queue option" where
  "overload_loop len q =
     (if len > mq_overload_threshold q
      then do {
        th \<leftarrow> c_int (mq_overload_threshold q * 2);
        overload_loop len (q\<lparr>mq_overload := len, mq_overload_threshold := th\<rparr>) }
      else Some q)"

declare overload_loop.simps [code]

text \<open>\<open>skynet_mq_pop\<close>: the message, or \<open>None\<close> where the C function returns 1.  The signed
  \<open>length = tail - head\<close> is negative exactly when \<open>tail < head\<close>.\<close>

definition mq_ring_pop ::
    "message_queue \<Rightarrow> (skynet_message option \<times> message_queue) option" where
  "mq_ring_pop q =
     (if mq_head q \<noteq> mq_tail q
      then do {
        slot \<leftarrow> arr_get (mq_queue q) (mq_head q);
        m \<leftarrow> slot;
        let q = q\<lparr>mq_head := mq_head q + 1\<rparr>;
        let q = (if mq_head q \<ge> mq_cap q then q\<lparr>mq_head := 0\<rparr> else q);
        let len = (if mq_tail q < mq_head q then mq_tail q + mq_cap q - mq_head q
                   else mq_tail q - mq_head q);
        q \<leftarrow> overload_loop len q;
        Some (Some m, q) }
      else Some (None, q\<lparr>mq_overload_threshold := MQ_OVERLOAD, mq_in_global := 0\<rparr>))"

definition skynet_mq_pop ::
    "'z mq_world_scheme \<Rightarrow> qid \<Rightarrow> (skynet_message option \<times> 'z mq_world_scheme) option" where
  "skynet_mq_pop w p = do {
     q \<leftarrow> mqs w p;
     (r, q') \<leftarrow> mq_ring_pop q;
     Some (r, set_mq w p q') }"

definition expand_queue :: "message_queue \<Rightarrow> message_queue option" where
  "expand_queue q = do {
     cap2 \<leftarrow> c_int (mq_cap q * 2);
     let new_queue = map (\<lambda>i. mq_queue q ! ((mq_head q + i) mod mq_cap q)) [0..<mq_cap q];
     Some (q\<lparr>mq_head := 0, mq_tail := mq_cap q, mq_cap := cap2,
             mq_queue := new_queue @ replicate (mq_cap q) None\<rparr>) }"

text \<open>The buffer part of \<open>skynet_mq_push\<close>.\<close>

definition mq_ring_push :: "message_queue \<Rightarrow> skynet_message \<Rightarrow> message_queue option" where
  "mq_ring_push q m = do {
     buf \<leftarrow> arr_set (mq_queue q) (mq_tail q) (Some m);
     let q = q\<lparr>mq_queue := buf, mq_tail := mq_tail q + 1\<rparr>;
     let q = (if mq_tail q \<ge> mq_cap q then q\<lparr>mq_tail := 0\<rparr> else q);
     (if mq_head q = mq_tail q then expand_queue q else Some q) }"

definition skynet_mq_push ::
    "'z mq_world_scheme \<Rightarrow> qid \<Rightarrow> skynet_message \<Rightarrow> 'z mq_world_scheme option" where
  "skynet_mq_push w p m = do {
     q \<leftarrow> mqs w p;
     q \<leftarrow> mq_ring_push q m;
     (if mq_in_global q = 0
      then skynet_globalmq_push (set_mq w p (q\<lparr>mq_in_global := MQ_IN_GLOBAL\<rparr>)) p
      else Some (set_mq w p q)) }"

definition skynet_mq_mark_release :: "'z mq_world_scheme \<Rightarrow> qid \<Rightarrow> 'z mq_world_scheme option" where
  "skynet_mq_mark_release w p = do {
     q \<leftarrow> mqs w p;
     c_assert (mq_release q = 0);
     let w = set_mq w p (q\<lparr>mq_release := 1\<rparr>);
     (if mq_in_global q \<noteq> MQ_IN_GLOBAL then skynet_globalmq_push w p else Some w) }"

text \<open>The callback \<open>drop_func\<close> may itself send messages, so it acts on the whole world.\<close>

partial_function (option) drop_queue_loop ::
    "(skynet_message \<Rightarrow> 'z mq_world_scheme \<Rightarrow> 'z mq_world_scheme option) \<Rightarrow>
     'z mq_world_scheme \<Rightarrow> qid \<Rightarrow> 'z mq_world_scheme option" where
  "drop_queue_loop drop_func w p = do {
     (r, w) \<leftarrow> skynet_mq_pop w p;
     (case r of
        None \<Rightarrow> Some w
      | Some m \<Rightarrow> do { w \<leftarrow> drop_func m w; drop_queue_loop drop_func w p }) }"

declare drop_queue_loop.simps [code]

definition drop_queue where
  "drop_queue drop_func w p = do {
     w \<leftarrow> drop_queue_loop drop_func w p;
     mq_release_mem w p }"

definition skynet_mq_release ::
    "(skynet_message \<Rightarrow> 'z mq_world_scheme \<Rightarrow> 'z mq_world_scheme option) \<Rightarrow>
     'z mq_world_scheme \<Rightarrow> qid \<Rightarrow> 'z mq_world_scheme option" where
  "skynet_mq_release drop_func w p = do {
     q \<leftarrow> mqs w p;
     (if mq_release q \<noteq> 0 then drop_queue drop_func w p else skynet_globalmq_push w p) }"

subsection \<open>The ring buffer is a queue\<close>

definition mq_slots :: "message_queue \<Rightarrow> skynet_message option list" where
  "mq_slots q = ring_contents (mq_cap q) (mq_head q) (mq_tail q) (mq_queue q)"

definition mq_contents :: "message_queue \<Rightarrow> skynet_message list" where
  "mq_contents q = map the (mq_slots q)"

text \<open>A capacity is \<open>DEFAULT_QUEUE_SIZE\<close> doubled a number of times, and at most \<open>2 ^ 30\<close>.\<close>

definition cap_ok :: "nat \<Rightarrow> bool" where
  "cap_ok n \<longleftrightarrow> (\<exists>k \<le> 30. n = 2 ^ k)"

lemma cap_ok_le: "cap_ok n \<Longrightarrow> n \<le> 2 ^ 30"
  unfolding cap_ok_def using power_increasing [of _ 30 "2::nat"] by auto

lemma cap_ok_double:
  assumes "cap_ok n" "n * 2 \<le> INT_MAX"
  shows "cap_ok (n * 2)"
proof -
  from assms(1) obtain k where k: "k \<le> 30" "n = 2 ^ k" by (auto simp: cap_ok_def)
  have "k \<noteq> 30" using assms(2) k(2) by (auto simp: INT_MAX_def)
  with k have "Suc k \<le> 30" "n * 2 = 2 ^ Suc k" by auto
  then show ?thesis unfolding cap_ok_def by blast
qed

lemma cap_ok_default: "cap_ok DEFAULT_QUEUE_SIZE" "cap_ok 64"
proof -
  show "cap_ok 64" unfolding cap_ok_def by (rule exI [of _ 6]) simp
  then show "cap_ok DEFAULT_QUEUE_SIZE" by (simp add: DEFAULT_QUEUE_SIZE_def)
qed

text \<open>Well-formedness: indices inside the buffer, no uninitialised slot between them, and a
  capacity at which the \<open>int\<close> arithmetic of the code does not overflow.\<close>

definition mq_wf :: "message_queue \<Rightarrow> bool" where
  "mq_wf q \<longleftrightarrow> ring_ok (mq_cap q) (mq_head q) (mq_tail q) (mq_queue q) \<and>
     length (mq_queue q) = mq_cap q \<and> cap_ok (mq_cap q) \<and>
     0 < mq_overload_threshold q \<and> None \<notin> set (mq_slots q)"

text \<open>The number of messages up to which the buffer may still double.\<close>

definition mq_limit :: "message_queue \<Rightarrow> nat" where
  "mq_limit q = 2 ^ 29"

lemma skynet_mq_length_ring: "skynet_mq_length q = ring_len (mq_cap q) (mq_head q) (mq_tail q)"
  by (simp add: skynet_mq_length_def ring_len_def)

lemma length_mq_contents: "length (mq_contents q) = skynet_mq_length q"
  by (simp add: mq_contents_def mq_slots_def skynet_mq_length_ring)

lemma mq_length_less: "mq_wf q \<Longrightarrow> skynet_mq_length q < mq_cap q"
  by (simp add: mq_wf_def ring_ok_def skynet_mq_length_ring ring_len_less)

lemma mq_empty_iff: "mq_wf q \<Longrightarrow> mq_contents q = [] \<longleftrightarrow> mq_head q = mq_tail q"
  by (simp add: mq_wf_def ring_ok_def mq_contents_def mq_slots_def ring_contents_Nil_iff)

text \<open>The overload loop stops: the threshold doubles, without overflow, until it reaches the
  length; nothing but the two overload fields changes.\<close>

lemma overload_loop_returns:
  assumes "0 < mq_overload_threshold q" "len \<le> 2 ^ 30"
  shows "\<exists>ov th. overload_loop len q = Some (q\<lparr>mq_overload := ov, mq_overload_threshold := th\<rparr>) \<and>
           len \<le> th \<and> mq_overload_threshold q \<le> th \<and>
           ov = (if len \<le> mq_overload_threshold q then mq_overload q else len)"
  using assms(1)
proof (induction "len - mq_overload_threshold q" arbitrary: q rule: less_induct)
  case less
  show ?case
  proof (cases "len \<le> mq_overload_threshold q")
    case True
    then show ?thesis
      by (intro exI [of _ "mq_overload q"] exI [of _ "mq_overload_threshold q"])
        (simp add: overload_loop.simps)
  next
    case False
    let ?q = "q\<lparr>mq_overload := len, mq_overload_threshold := mq_overload_threshold q * 2\<rparr>"
    have "overload_loop len q = overload_loop len ?q"
      using False assms(2) by (subst overload_loop.simps) (simp add: c_int_def INT_MAX_def)
    moreover have "len - mq_overload_threshold ?q < len - mq_overload_threshold q"
      using False less.prems by simp
    from less.hyps [OF this] less.prems obtain ov th where
      "overload_loop len ?q = Some (?q\<lparr>mq_overload := ov, mq_overload_threshold := th\<rparr>)"
      "len \<le> th" "mq_overload_threshold ?q \<le> th" "ov = len"
      by force
    ultimately show ?thesis using False by auto
  qed
qed

text \<open>The fields a queue operation on the buffer never touches.\<close>

definition same_link :: "message_queue \<Rightarrow> message_queue \<Rightarrow> bool" where
  "same_link q q' \<longleftrightarrow> mq_handle q' = mq_handle q \<and> mq_next q' = mq_next q \<and>
     mq_release q' = mq_release q"

text \<open>A push appends, or runs into the overflow of the capacity when the buffer is full.\<close>

lemma mq_ring_push_cases:
  assumes wf: "mq_wf q"
  shows "(mq_ring_push q m = None \<and> INT_MAX < mq_cap q * 2 \<and> Suc (skynet_mq_length q) = mq_cap q) \<or>
         (\<exists>q'. mq_ring_push q m = Some q' \<and> mq_wf q' \<and> mq_contents q' = mq_contents q @ [m] \<and>
           same_link q q' \<and> mq_in_global q' = mq_in_global q)"
proof -
  let ?cap = "mq_cap q" and ?h = "mq_head q" and ?t = "mq_tail q" and ?b = "mq_queue q"
  let ?q = "q\<lparr>mq_queue := ?b[?t := Some m], mq_tail := ring_next ?cap ?t\<rparr>"
  from wf have ok: "ring_ok ?cap ?h ?t ?b" and len: "length ?b = ?cap" and cap: "cap_ok ?cap"
    and th: "0 < mq_overload_threshold q" and init: "None \<notin> set (mq_slots q)"
    by (simp_all add: mq_wf_def)
  then have b: "?h < ?cap" "?t < ?cap" by (simp_all add: ring_ok_def)
  have eq: "mq_ring_push q m = (if ?h = ring_next ?cap ?t then expand_queue ?q else Some ?q)"
    using b len by (simp add: mq_ring_push_def c_simps ring_next_def Let_def)
  show ?thesis
  proof (cases "?h = ring_next ?cap ?t")
    case False
    with ring_contents_push [OF ok, of "Some m"] have "mq_slots ?q = mq_slots q @ [Some m]"
      by (simp add: mq_slots_def)
    with False eq b len cap th init show ?thesis
      by (simp add: mq_wf_def ring_ok_def mq_contents_def same_link_def)
  next
    case True
    have full: "Suc (length (mq_slots q)) = ?cap"
      using ring_len_full [OF b] True by (simp add: mq_slots_def)
    let ?r = "map (\<lambda>i. ?b[?t := Some m] ! ((?h + i) mod ?cap)) [0..<?cap]"
    let ?e = "?q\<lparr>mq_head := 0, mq_tail := ?cap, mq_cap := ?cap * 2,
                mq_queue := ?r @ replicate ?cap None\<rparr>"
    show ?thesis
    proof (cases "?cap * 2 \<le> INT_MAX")
      case False
      with True eq full show ?thesis
        by (simp add: expand_queue_def c_int_def mq_slots_def skynet_mq_length_ring)
    next
      case small: True
      have "expand_queue ?q = Some ?e"
        using small by (simp add: expand_queue_def c_int_def)
      moreover have "?r = mq_slots q @ [Some m]"
        using ring_rotation [OF ok] True by (simp add: mq_slots_def)
      moreover have "mq_slots ?e = ?r"
        using b by (simp add: mq_slots_def ring_contents_flat)
      ultimately show ?thesis
        using True eq b th init full cap_ok_double [OF cap small]
        by (simp add: mq_wf_def ring_ok_def mq_contents_def same_link_def)
    qed
  qed
qed

lemma mq_ring_push_spec:
  assumes wf: "mq_wf q" and room: "skynet_mq_length q < mq_limit q"
  shows "\<exists>q'. mq_ring_push q m = Some q' \<and> mq_wf q' \<and> mq_contents q' = mq_contents q @ [m] \<and>
           same_link q q' \<and> mq_in_global q' = mq_in_global q"
  using mq_ring_push_cases [OF wf, of m] room by (auto simp: mq_limit_def INT_MAX_def)

lemma mq_ring_pop_empty:
  assumes "mq_wf q" "mq_contents q = []"
  shows "mq_ring_pop q = Some (None, q\<lparr>mq_overload_threshold := MQ_OVERLOAD, mq_in_global := 0\<rparr>)"
  using assms by (simp add: mq_ring_pop_def mq_empty_iff)

lemma mq_ring_pop_nonempty:
  assumes wf: "mq_wf q" and ne: "mq_contents q = m # ms"
  shows "\<exists>q'. mq_ring_pop q = Some (Some m, q') \<and> mq_wf q' \<and> mq_contents q' = ms \<and>
           same_link q q' \<and> mq_in_global q' = mq_in_global q"
proof -
  let ?cap = "mq_cap q" and ?h = "mq_head q" and ?t = "mq_tail q" and ?b = "mq_queue q"
  let ?q = "q\<lparr>mq_head := ring_next ?cap ?h\<rparr>"
  from wf have ok: "ring_ok ?cap ?h ?t ?b" and cap: "?cap \<le> 2 ^ 30"
    and init: "None \<notin> set (mq_slots q)" using cap_ok_le [of ?cap] by (simp_all add: mq_wf_def)
  then have b: "?h < ?cap" "?t < ?cap" "?h < length ?b" by (simp_all add: ring_ok_def)
  from wf ne have neq: "?h \<noteq> ?t" using mq_empty_iff by force
  have slots: "mq_slots q = ?b ! ?h # mq_slots ?q"
    using ring_contents_pop [OF ok neq] by (simp add: mq_slots_def)
  with ne init have m: "?b ! ?h = Some m" and ms: "mq_contents ?q = ms"
    by (auto simp: mq_contents_def)
  have wfq: "mq_wf ?q" using wf b slots by (auto simp: mq_wf_def ring_ok_def)
  let ?len = "skynet_mq_length ?q"
  have "?len \<le> 2 ^ 30" using mq_length_less [OF wfq] cap by simp
  with wfq obtain ov th where loop: "overload_loop ?len ?q =
      Some (?q\<lparr>mq_overload := ov, mq_overload_threshold := th\<rparr>)" "0 < th"
    using overload_loop_returns [of ?q ?len] by (force simp: mq_wf_def)
  have "mq_ring_pop q = do { q \<leftarrow> overload_loop ?len ?q; Some (Some m, q) }"
    using neq b m by (auto simp: mq_ring_pop_def c_simps ring_next_def skynet_mq_length_def Let_def)
  with loop wfq ms show ?thesis
    by (auto simp: mq_wf_def mq_contents_def mq_slots_def same_link_def)
qed

interpretation mq: fifo mq_wf mq_limit mq_contents mq_ring_push mq_ring_pop
proof
  fix q :: message_queue and m ms
  show "mq_wf q \<Longrightarrow> length (mq_contents q) < mq_limit q \<Longrightarrow>
      \<exists>q'. mq_ring_push q m = Some q' \<and> mq_wf q' \<and> mq_contents q' = mq_contents q @ [m] \<and>
        mq_limit q' = mq_limit q"
    using mq_ring_push_spec by (fastforce simp: length_mq_contents mq_limit_def)
  show "mq_wf q \<Longrightarrow> mq_contents q = [] \<Longrightarrow>
      \<exists>q'. mq_ring_pop q = Some (None, q') \<and> mq_wf q' \<and> mq_contents q' = [] \<and> mq_limit q' = mq_limit q"
    by (simp add: mq_limit_def mq_ring_pop_empty mq_wf_def mq_contents_def mq_slots_def MQ_OVERLOAD_def)
  show "mq_wf q \<Longrightarrow> mq_contents q = m # ms \<Longrightarrow>
      \<exists>q'. mq_ring_pop q = Some (Some m, q') \<and> mq_wf q' \<and> mq_contents q' = ms \<and> mq_limit q' = mq_limit q"
    unfolding mq_limit_def using mq_ring_pop_nonempty by blast
qed

subsection \<open>The global list as a sequence\<close>

text \<open>\<open>gq_chain M ptr ps\<close>: following the links from \<open>ptr\<close> visits the queues \<open>ps\<close> and ends.\<close>

fun gq_chain :: "(qid \<Rightarrow> message_queue option) \<Rightarrow> qid option \<Rightarrow> qid list \<Rightarrow> bool" where
  "gq_chain M ptr [] = (ptr = None)"
| "gq_chain M ptr (p # ps) = (ptr = Some p \<and> (\<exists>q. M p = Some q \<and> gq_chain M (mq_next q) ps))"

text \<open>The abstraction relation of the global list: the chain from \<open>head\<close> is \<open>ps\<close>, \<open>tail\<close> is its
  last element, and a queue outside it has no successor.\<close>

definition gq_abs :: "'z mq_world_scheme \<Rightarrow> qid list \<Rightarrow> bool" where
  "gq_abs w ps \<longleftrightarrow> gq_chain (mqs w) (gq_head w) ps \<and> distinct ps \<and>
     gq_tail w = (if ps = [] then None else Some (last ps)) \<and>
     (\<forall>p q. mqs w p = Some q \<longrightarrow> p \<notin> set ps \<longrightarrow> mq_next q = None)"

lemma gq_chain_cong:
  "(\<And>p. p \<in> set ps \<Longrightarrow> map_option mq_next (M' p) = map_option mq_next (M p)) \<Longrightarrow>
   gq_chain M' ptr ps \<longleftrightarrow> gq_chain M ptr ps"
proof (induction ps arbitrary: ptr)
  case Nil
  then show ?case by simp
next
  case (Cons p ps)
  have "map_option mq_next (M' p) = map_option mq_next (M p)" using Cons.prems by simp
  moreover have "gq_chain M' x ps \<longleftrightarrow> gq_chain M x ps" for x
    using Cons.prems by (intro Cons.IH) simp
  ultimately show ?case by (cases "M p"; cases "M' p") auto
qed

lemma gq_chain_upd_other [simp]:
  "p \<notin> set ps \<Longrightarrow> gq_chain (M(p := x)) ptr ps \<longleftrightarrow> gq_chain M ptr ps"
  by (rule gq_chain_cong) auto

lemma gq_chain_snoc:
  assumes "gq_chain M ptr ps" "distinct (ps @ [p])" "M p = Some q" "mq_next q = None"
    "ps \<noteq> []" "M (last ps) = Some tq"
  shows "gq_chain (M(last ps \<mapsto> tq\<lparr>mq_next := Some p\<rparr>)) ptr (ps @ [p])"
  using assms
proof (induction ps arbitrary: ptr)
  case Nil
  then show ?case by simp
next
  case (Cons x xs)
  show ?case
  proof (cases "xs = []")
    case True
    with Cons.prems show ?thesis by auto
  next
    case False
    from Cons.prems(1) obtain xq where "ptr = Some x" "M x = Some xq" "gq_chain M (mq_next xq) xs"
      by auto
    with Cons False show ?thesis by auto
  qed
qed

lemma gq_chain_dom: "gq_chain M ptr ps \<Longrightarrow> p \<in> set ps \<Longrightarrow> \<exists>q. M p = Some q"
  by (induction ps arbitrary: ptr) auto

lemma gq_abs_dom: "gq_abs w ps \<Longrightarrow> p \<in> set ps \<Longrightarrow> \<exists>q. mqs w p = Some q"
  unfolding gq_abs_def using gq_chain_dom by blast

lemma gq_abs_set_mq:
  assumes "gq_abs w ps" "mqs w p = Some q" "mq_next q' = mq_next q"
  shows "gq_abs (set_mq w p q') ps"
  using assms gq_chain_cong [of ps "(mqs w)(p := Some q')" "mqs w"]
  by (auto simp: gq_abs_def set_mq_def)

lemma gq_abs_fresh:
  assumes "gq_abs w ps" "mqs w p = None" "mq_next q = None"
  shows "gq_abs (set_mq w p q) ps"
proof -
  have "p \<notin> set ps" using gq_abs_dom [OF assms(1), of p] assms(2) by auto
  with assms show ?thesis by (auto simp: gq_abs_def set_mq_def)
qed

lemma gq_abs_free:
  assumes "gq_abs w ps" "p \<notin> set ps"
  shows "gq_abs (w\<lparr>mqs := (mqs w)(p := None)\<rparr>) ps"
  using assms by (auto simp: gq_abs_def)

text \<open>The list operations change nothing of a queue but its link.\<close>

definition same_queues :: "'z mq_world_scheme \<Rightarrow> 'z mq_world_scheme \<Rightarrow> bool" where
  "same_queues w w' \<longleftrightarrow> (\<forall>r. map_option (mq_next_update (\<lambda>_. None)) (mqs w' r) =
     map_option (mq_next_update (\<lambda>_. None)) (mqs w r))"

lemma same_queuesI:
  "(\<And>r. map_option (mq_next_update (\<lambda>_. None)) (mqs w' r) =
     map_option (mq_next_update (\<lambda>_. None)) (mqs w r)) \<Longrightarrow> same_queues w w'"
  by (simp add: same_queues_def)

lemma same_queues_dom: "same_queues w w' \<Longrightarrow> dom (mqs w') = dom (mqs w)"
  unfolding same_queues_def dom_def by (metis map_option_is_None)

lemma same_queuesE:
  assumes "same_queues w w'" "mqs w' p = Some q'"
  obtains q where "mqs w p = Some q" "q' = q\<lparr>mq_next := mq_next q'\<rparr>"
proof -
  from assms have "map_option (mq_next_update (\<lambda>_. None)) (mqs w p) =
      Some (q'\<lparr>mq_next := None\<rparr>)" unfolding same_queues_def by (metis option.map(2))
  then obtain q where q: "mqs w p = Some q" "q\<lparr>mq_next := None\<rparr> = q'\<lparr>mq_next := None\<rparr>" by auto
  from q(2) have "(q\<lparr>mq_next := None\<rparr>)\<lparr>mq_next := mq_next q'\<rparr>
      = (q'\<lparr>mq_next := None\<rparr>)\<lparr>mq_next := mq_next q'\<rparr>" by (rule arg_cong)
  then have "q' = q\<lparr>mq_next := mq_next q'\<rparr>" by simp
  with q(1) that show thesis by blast
qed

text \<open>\<open>skynet_globalmq_push\<close> appends a queue that is not linked yet; its assertion holds.\<close>

lemma globalmq_push_spec:
  assumes abs: "gq_abs w ps" and q: "mqs w p = Some q" and new: "p \<notin> set ps"
  shows "\<exists>w'. skynet_globalmq_push w p = Some w' \<and> gq_abs w' (ps @ [p]) \<and> same_queues w w'"
proof -
  from abs q new have nn: "mq_next q = None" by (simp add: gq_abs_def)
  show ?thesis
  proof (cases "ps = []")
    case True
    with abs q nn show ?thesis
      by (auto simp: skynet_globalmq_push_def gq_abs_def same_queues_def)
  next
    case False
    let ?l = "last ps"
    from False abs obtain tq where tq: "mqs w ?l = Some tq" using gq_abs_dom last_in_set by metis
    let ?w = "(set_mq w ?l (tq\<lparr>mq_next := Some p\<rparr>))\<lparr>gq_tail := Some p\<rparr>"
    from False abs have t: "gq_tail w = Some ?l" by (simp add: gq_abs_def)
    with q nn tq have "skynet_globalmq_push w p = Some ?w" by (simp add: skynet_globalmq_push_def)
    moreover have "?l \<noteq> p" using False new last_in_set by metis
    with abs False new q tq nn have "gq_abs ?w (ps @ [p])"
      using gq_chain_snoc [of "mqs w" "gq_head w" ps p q tq]
      by (auto simp: gq_abs_def set_mq_def)
    ultimately show ?thesis using tq by (auto simp: set_mq_def same_queues_def)
  qed
qed

lemma globalmq_pop_empty:
  "gq_abs w [] \<Longrightarrow> skynet_globalmq_pop w = Some (None, w)"
  by (simp add: gq_abs_def skynet_globalmq_pop_def)

lemma globalmq_pop_cons:
  assumes abs: "gq_abs w (p # ps)"
  shows "\<exists>w'. skynet_globalmq_pop w = Some (Some p, w') \<and> gq_abs w' ps \<and> same_queues w w'"
proof -
  from abs obtain q where q: "mqs w p = Some q" and hd: "gq_head w = Some p"
    and ch: "gq_chain (mqs w) (mq_next q) ps" by (auto simp: gq_abs_def)
  from abs have "p \<notin> set ps" by (simp add: gq_abs_def)
  then have ch': "gq_chain ((mqs w)(p \<mapsto> q\<lparr>mq_next := None\<rparr>)) (mq_next q) ps"
    using ch by simp
  show ?thesis
  proof (cases ps)
    case Nil
    with abs q hd ch show ?thesis
      by (auto simp: gq_abs_def skynet_globalmq_pop_def set_mq_def same_queues_def)
  next
    case (Cons p2 ps2)
    with ch have "mq_next q = Some p2" by simp
    with abs q hd ch' Cons show ?thesis
      by (auto simp: gq_abs_def skynet_globalmq_pop_def set_mq_def same_queues_def)
  qed
qed

subsection \<open>Scheduling of the queues\<close>

text \<open>
  The system of all queues: a state is the store together with the set of queues that a
  thread holds, that is, the queues a worker has taken from the global list and those
  of services under construction.  The rules are the locked operations the server
  performs on queues, interleaved in any order.  Their guards are what
  \<open>skynet_server.c\<close> guarantees by its reference counts: nobody pushes to a queue that
  is marked for release, and a worker that dispatches holds a reference to the service,
  so the queue it drains is not marked.
\<close>

inductive sched_step :: "mq_world \<times> qid set \<Rightarrow> mq_world \<times> qid set \<Rightarrow> bool" where
  create: "mqs w p = None \<Longrightarrow> sched_step (w, H) (skynet_mq_create w p h, insert p H)"
| put: "p \<in> H \<Longrightarrow> skynet_globalmq_push w p = Some w' \<Longrightarrow> sched_step (w, H) (w', H - {p})"
| take: "skynet_globalmq_pop w = Some (Some p, w') \<Longrightarrow> sched_step (w, H) (w', insert p H)"
| send: "mqs w p = Some q \<Longrightarrow> mq_release q = 0 \<Longrightarrow> skynet_mq_length q < mq_limit q \<Longrightarrow>
     skynet_mq_push w p m = Some w' \<Longrightarrow> sched_step (w, H) (w', H)"
| recv: "p \<in> H \<Longrightarrow> skynet_mq_pop w p = Some (Some m, w') \<Longrightarrow> sched_step (w, H) (w', H)"
| idle: "p \<in> H \<Longrightarrow> mqs w p = Some q \<Longrightarrow> mq_release q = 0 \<Longrightarrow>
     skynet_mq_pop w p = Some (None, w') \<Longrightarrow> sched_step (w, H) (w', H - {p})"
| mark: "mqs w p = Some q \<Longrightarrow> mq_release q = 0 \<Longrightarrow> skynet_mq_mark_release w p = Some w' \<Longrightarrow>
     sched_step (w, H) (w', H)"
| free: "p \<in> H \<Longrightarrow> mqs w p = Some q \<Longrightarrow> mq_release q \<noteq> 0 \<Longrightarrow>
     skynet_mq_pop w p = Some (None, w1) \<Longrightarrow> mq_release_mem w1 p = Some w' \<Longrightarrow>
     sched_step (w, H) (w', H - {p})"

definition mq_world_init :: mq_world where
  "mq_world_init = skynet_mq_init \<lparr>mqs = (\<lambda>_. None), gq_head = None, gq_tail = None\<rparr>"

inductive sched_reachable :: "mq_world \<times> qid set \<Rightarrow> bool" where
  start: "sched_reachable (mq_world_init, {})"
| step: "sched_reachable s \<Longrightarrow> sched_step s s' \<Longrightarrow> sched_reachable s'"

text \<open>What holds of one queue, given whether it is scheduled (linked or held).\<close>

definition queue_inv :: "bool \<Rightarrow> message_queue \<Rightarrow> bool" where
  "queue_inv sched q \<longleftrightarrow> mq_wf q \<and> mq_in_global q \<in> {0, 1} \<and>
     (if mq_release q = 0
      then (mq_in_global q = 1 \<longleftrightarrow> sched) \<and> (mq_in_global q = 0 \<longrightarrow> mq_contents q = [])
      else sched)"

definition sched_inv_at :: "qid list \<Rightarrow> 'z mq_world_scheme \<times> qid set \<Rightarrow> bool" where
  "sched_inv_at ps s \<longleftrightarrow> (case s of (w, H) \<Rightarrow>
     gq_abs w ps \<and> H \<inter> set ps = {} \<and> H \<subseteq> dom (mqs w) \<and>
     (\<forall>p q. mqs w p = Some q \<longrightarrow> queue_inv (p \<in> H \<union> set ps) q))"

definition sched_inv :: "'z mq_world_scheme \<times> qid set \<Rightarrow> bool" where
  "sched_inv s \<longleftrightarrow> (\<exists>ps. sched_inv_at ps s)"

lemma mq_wf_next [simp]: "mq_wf (q\<lparr>mq_next := n\<rparr>) = mq_wf q"
  and mq_contents_next [simp]: "mq_contents (q\<lparr>mq_next := n\<rparr>) = mq_contents q"
  by (simp_all add: mq_wf_def mq_contents_def mq_slots_def)

lemma queue_inv_next [simp]: "queue_inv b (q\<lparr>mq_next := n\<rparr>) = queue_inv b q"
  by (simp add: queue_inv_def)

lemma same_queues_inv:
  "same_queues w w' \<Longrightarrow> (\<And>q. mqs w p = Some q \<Longrightarrow> queue_inv b q) \<Longrightarrow>
   mqs w' p = Some q' \<Longrightarrow> queue_inv b q'"
  by (metis same_queuesE queue_inv_next)

lemma sched_inv_atD:
  assumes "sched_inv_at ps (w, H)"
  shows "gq_abs w ps" "H \<inter> set ps = {}" "p \<in> H \<Longrightarrow> \<exists>q. mqs w p = Some q"
    "mqs w p = Some q \<Longrightarrow> queue_inv (p \<in> H \<union> set ps) q"
  using assms by (auto simp: sched_inv_at_def)

text \<open>The list operations move a queue between the list and the held set.\<close>

lemma sched_put:
  assumes inv: "sched_inv_at ps (w, H)" and p: "p \<in> H"
  shows "\<exists>w'. skynet_globalmq_push w p = Some w' \<and> sched_inv_at (ps @ [p]) (w', H - {p})"
proof -
  from sched_inv_atD [OF inv] p obtain q where "mqs w p = Some q" "p \<notin> set ps" by blast
  with globalmq_push_spec [OF sched_inv_atD(1) [OF inv]] obtain w' where
    w': "skynet_globalmq_push w p = Some w'" "gq_abs w' (ps @ [p])" "same_queues w w'" by blast
  have "queue_inv (r \<in> H - {p} \<union> set (ps @ [p])) q'" if "mqs w' r = Some q'" for r q'
  proof -
    have "(r \<in> H - {p} \<union> set (ps @ [p])) = (r \<in> H \<union> set ps)" using p by auto
    with same_queues_inv [OF w'(3) sched_inv_atD(4) [OF inv] that] show ?thesis by simp
  qed
  moreover have "H - {p} \<subseteq> dom (mqs w')"
    using inv same_queues_dom [OF w'(3)] by (auto simp: sched_inv_at_def)
  ultimately show ?thesis using w' inv by (auto simp: sched_inv_at_def)
qed

lemma sched_take:
  assumes inv: "sched_inv_at ps (w, H)" and pop: "skynet_globalmq_pop w = Some (Some p, w')"
  shows "\<exists>ps'. ps = p # ps' \<and> sched_inv_at ps' (w', insert p H)"
proof (cases ps)
  case Nil
  with sched_inv_atD(1) [OF inv] pop show ?thesis by (simp add: globalmq_pop_empty)
next
  case (Cons p' ps')
  with globalmq_pop_cons sched_inv_atD(1) [OF inv] pop have
    w': "p' = p" "gq_abs w' ps'" "same_queues w w'" by fastforce+
  have "queue_inv (r \<in> insert p H \<union> set ps') q'" if "mqs w' r = Some q'" for r q'
  proof -
    have "(r \<in> insert p H \<union> set ps') = (r \<in> H \<union> set ps)" using Cons w' by auto
    with same_queues_inv [OF w'(3) sched_inv_atD(4) [OF inv] that] show ?thesis by simp
  qed
  moreover have "insert p H \<subseteq> dom (mqs w')"
  proof -
    have "mqs w p \<noteq> None" using gq_abs_dom [OF sched_inv_atD(1) [OF inv], of p] Cons w' by auto
    then show ?thesis
      using inv same_queues_dom [OF w'(3)] by (auto simp: sched_inv_at_def)
  qed
  ultimately have "sched_inv_at ps' (w', insert p H)"
    using inv Cons w' sched_inv_atD(1) [OF inv]
    by (auto simp: sched_inv_at_def gq_abs_def)
  with Cons w' show ?thesis by simp
qed

text \<open>An update of one queue that keeps its link and its part of the invariant.\<close>

lemma sched_update:
  assumes "sched_inv_at ps (w, H)" "mqs w p = Some q" "mq_next q' = mq_next q"
    "queue_inv (p \<in> H' \<union> set ps) q'" "H' \<subseteq> H" "H - H' \<subseteq> {p}"
  shows "sched_inv_at ps (set_mq w p q', H')"
proof -
  have "queue_inv (r \<in> H' \<union> set ps) q2" if "mqs (set_mq w p q') r = Some q2" for r q2
  proof (cases "r = p")
    case True
    with that assms(4) show ?thesis by (simp add: set_mq_def)
  next
    case False
    with assms(5,6) have "r \<in> H' \<longleftrightarrow> r \<in> H" by auto
    with False that sched_inv_atD(4) [OF assms(1)] show ?thesis by (simp add: set_mq_def)
  qed
  with assms gq_abs_set_mq [OF sched_inv_atD(1) [OF assms(1)] assms(2,3)] show ?thesis
    by (auto simp: sched_inv_at_def set_mq_def)
qed

text \<open>An unscheduled queue is updated and linked.\<close>

lemma sched_link:
  assumes inv: "sched_inv_at ps (w, H)" and q: "mqs w p = Some q" and out: "p \<notin> H" "p \<notin> set ps"
    and q': "mq_next q' = mq_next q" "queue_inv True q'"
  shows "\<exists>w'. skynet_globalmq_push (set_mq w p q') p = Some w' \<and> sched_inv_at (ps @ [p]) (w', H)"
proof -
  let ?w = "set_mq w p q'"
  have abs: "gq_abs ?w ps" using gq_abs_set_mq [OF sched_inv_atD(1) [OF inv] q q'(1)] .
  from globalmq_push_spec [OF abs _ out(2)] obtain w' where
    w': "skynet_globalmq_push ?w p = Some w'" "gq_abs w' (ps @ [p])" "same_queues ?w w'"
    by (auto simp: set_mq_def)
  have new: "queue_inv (r \<in> H \<union> set (ps @ [p])) q2" if "mqs ?w r = Some q2" for r q2
    using that q'(2) sched_inv_atD(4) [OF inv, of r q2] by (cases "r = p") (auto simp: set_mq_def)
  have "queue_inv (r \<in> H \<union> set (ps @ [p])) q2" if "mqs w' r = Some q2" for r q2
    using same_queues_inv [OF w'(3) new that] .
  moreover have "H \<subseteq> dom (mqs w')"
    using inv same_queues_dom [OF w'(3)] by (auto simp: sched_inv_at_def set_mq_def)
  ultimately show ?thesis using w' inv out by (auto simp: sched_inv_at_def)
qed

text \<open>The queue operations, under the invariant, return and keep it.\<close>

lemma sched_send_any:
  assumes inv: "sched_inv_at ps (w, H)" and q: "mqs w p = Some q" "mq_release q = 0"
    and push: "mq_ring_push q m = Some q'"
  shows "\<exists>w' ps'. skynet_mq_push w p m = Some w' \<and> sched_inv_at ps' (w', H)"
proof -
  note qi = sched_inv_atD(4) [OF inv q(1)]
  then have wf: "mq_wf q" by (simp add: queue_inv_def)
  from mq_ring_push_cases [OF wf, of m] push have
    q': "mq_ring_push q m = Some q'" "mq_wf q'" "same_link q q'"
      "mq_in_global q' = mq_in_global q" by auto
  let ?q = "q'\<lparr>mq_in_global := MQ_IN_GLOBAL\<rparr>" and ?w = "set_mq w p (q'\<lparr>mq_in_global := MQ_IN_GLOBAL\<rparr>)"
  show ?thesis
  proof (cases "mq_in_global q = 0")
    case False
    with qi q q' have "sched_inv_at ps (set_mq w p q', H)"
      by (intro sched_update [OF inv q(1)]) (auto simp: queue_inv_def same_link_def)
    with False q q' show ?thesis by (auto simp: skynet_mq_push_def)
  next
    case True
    with qi q have out: "p \<notin> H" "p \<notin> set ps" by (auto simp: queue_inv_def)
    from q q' have "queue_inv True ?q"
      by (auto simp: queue_inv_def same_link_def MQ_IN_GLOBAL_def mq_wf_def mq_slots_def)
    with sched_link [OF inv q(1) out, of ?q] q' obtain w' where
      w': "skynet_globalmq_push ?w p = Some w'" "sched_inv_at (ps @ [p]) (w', H)"
      by (auto simp: same_link_def)
    with True q q' w' show ?thesis by (auto simp: skynet_mq_push_def)
  qed
qed

lemma sched_send:
  assumes inv: "sched_inv_at ps (w, H)" and q: "mqs w p = Some q" "mq_release q = 0" "skynet_mq_length q < mq_limit q"
  shows "\<exists>w' ps'. skynet_mq_push w p m = Some w' \<and> sched_inv_at ps' (w', H)"
proof -
  from sched_inv_atD(4) [OF inv q(1)] have "mq_wf q" by (simp add: queue_inv_def)
  from mq_ring_push_spec [OF this q(3)] obtain q' where "mq_ring_push q m = Some q'" by blast
  from sched_send_any [OF inv q(1,2) this] show ?thesis .
qed

lemma sched_recv:
  assumes inv: "sched_inv_at ps (w, H)" and p: "p \<in> H"
    and pop: "skynet_mq_pop w p = Some (Some m, w')"
  shows "sched_inv_at ps (w', H)"
proof -
  from sched_inv_atD(3) [OF inv p] obtain q where q: "mqs w p = Some q" ..
  note qi = sched_inv_atD(4) [OF inv q]
  then have wf: "mq_wf q" by (simp add: queue_inv_def)
  have "mq_contents q \<noteq> []"
    using pop q mq_ring_pop_empty [OF wf] by (auto simp: skynet_mq_pop_def)
  then obtain m' ms where "mq_contents q = m' # ms" by (cases "mq_contents q") auto
  from mq_ring_pop_nonempty [OF wf this] obtain q' where
    q': "mq_ring_pop q = Some (Some m', q')" "mq_wf q'" "same_link q q'"
      "mq_in_global q' = mq_in_global q" by blast
  from q' q pop have w': "w' = set_mq w p q'" by (simp add: skynet_mq_pop_def)
  show ?thesis unfolding w'
    using qi q' p by (intro sched_update [OF inv q]) (auto simp: queue_inv_def same_link_def)
qed

lemma sched_pop_none:
  assumes inv: "sched_inv_at ps (w, H)" and q: "mqs w p = Some q"
    and pop: "skynet_mq_pop w p = Some (None, w')"
  shows "mq_contents q = [] \<and>
    w' = set_mq w p (q\<lparr>mq_overload_threshold := MQ_OVERLOAD, mq_in_global := 0\<rparr>)"
proof -
  from sched_inv_atD(4) [OF inv q] have wf: "mq_wf q" by (simp add: queue_inv_def)
  have "mq_contents q = []"
  proof (cases "mq_contents q")
    case (Cons m ms)
    from mq_ring_pop_nonempty [OF wf this] pop q show ?thesis by (auto simp: skynet_mq_pop_def)
  qed simp
  with mq_ring_pop_empty [OF wf] pop q show ?thesis by (simp add: skynet_mq_pop_def)
qed

lemma sched_idle:
  assumes inv: "sched_inv_at ps (w, H)" and p: "p \<in> H" and q: "mqs w p = Some q"
    and rel: "mq_release q = 0" and pop: "skynet_mq_pop w p = Some (None, w')"
  shows "sched_inv_at ps (w', H - {p})"
proof -
  note n = sched_pop_none [OF inv q pop]
  from sched_inv_atD(2) [OF inv] p have "p \<notin> set ps" by auto
  with sched_inv_atD(4) [OF inv q] rel n show ?thesis
    by (auto intro!: sched_update [OF inv q]
        simp: queue_inv_def mq_wf_def mq_contents_def mq_slots_def MQ_OVERLOAD_def)
qed

lemma sched_free:
  assumes inv: "sched_inv_at ps (w, H)" and p: "p \<in> H" and q: "mqs w p = Some q"
    and pop: "skynet_mq_pop w p = Some (None, w1)"
  shows "\<exists>w'. mq_release_mem w1 p = Some w' \<and> sched_inv_at ps (w', H - {p})"
proof -
  note n = sched_pop_none [OF inv q pop]
  from sched_inv_atD(2) [OF inv] p have out: "p \<notin> set ps" by auto
  with sched_inv_atD(1) [OF inv] q have "mq_next q = None" by (simp add: gq_abs_def)
  with n have mem: "mq_release_mem w1 p = Some (w\<lparr>mqs := (mqs w)(p := None)\<rparr>)"
    by (simp add: mq_release_mem_def set_mq_def)
  moreover have "sched_inv_at ps (w\<lparr>mqs := (mqs w)(p := None)\<rparr>, H - {p})"
    using inv gq_abs_free [OF sched_inv_atD(1) [OF inv] out]
    by (auto simp: sched_inv_at_def)
  ultimately show ?thesis by simp
qed

lemma sched_mark:
  assumes inv: "sched_inv_at ps (w, H)" and q: "mqs w p = Some q" "mq_release q = 0"
  shows "\<exists>w' ps'. skynet_mq_mark_release w p = Some w' \<and> sched_inv_at ps' (w', H)"
proof -
  note qi = sched_inv_atD(4) [OF inv q(1)]
  let ?q = "q\<lparr>mq_release := 1\<rparr>" and ?w = "set_mq w p (q\<lparr>mq_release := 1\<rparr>)"
  have wf: "mq_wf ?q" using qi by (simp add: queue_inv_def mq_wf_def mq_slots_def)
  show ?thesis
  proof (cases "mq_in_global q = MQ_IN_GLOBAL")
    case True
    with qi q wf have "sched_inv_at ps (?w, H)"
      by (intro sched_update [OF inv q(1)]) (auto simp: queue_inv_def MQ_IN_GLOBAL_def)
    with True q show ?thesis by (auto simp: skynet_mq_mark_release_def)
  next
    case False
    with qi q have out: "p \<notin> H" "p \<notin> set ps" and g: "mq_in_global q = 0"
      by (auto simp: queue_inv_def MQ_IN_GLOBAL_def)
    from wf g have "queue_inv True ?q" by (simp add: queue_inv_def)
    with sched_link [OF inv q(1) out, of ?q] obtain w' where
      w': "skynet_globalmq_push ?w p = Some w'" "sched_inv_at (ps @ [p]) (w', H)" by auto
    with False q w' show ?thesis by (auto simp: skynet_mq_mark_release_def)
  qed
qed

lemma sched_create:
  assumes inv: "sched_inv_at ps (w, H)" and new: "mqs w p = None"
  shows "sched_inv_at ps (skynet_mq_create w p h, insert p H)"
proof -
  let ?q = "\<lparr>mq_handle = h, mq_cap = DEFAULT_QUEUE_SIZE, mq_head = 0, mq_tail = 0,
      mq_release = 0, mq_in_global = MQ_IN_GLOBAL, mq_overload = 0,
      mq_overload_threshold = MQ_OVERLOAD,
      mq_queue = replicate DEFAULT_QUEUE_SIZE None, mq_next = None\<rparr>"
  have "queue_inv True ?q"
    by (simp add: queue_inv_def mq_wf_def mq_slots_def ring_ok_def cap_ok_default DEFAULT_QUEUE_SIZE_def
        MQ_OVERLOAD_def MQ_IN_GLOBAL_def)
  moreover have "p \<notin> set ps" using gq_abs_dom [OF sched_inv_atD(1) [OF inv], of p] new by auto
  moreover have "p \<notin> H" using inv new by (auto simp: sched_inv_at_def)
  ultimately show ?thesis
    using inv gq_abs_fresh [OF sched_inv_atD(1) [OF inv] new, of ?q]
    by (auto simp: sched_inv_at_def skynet_mq_create_def set_mq_def)
qed

lemma sched_step_inv: "sched_step s s' \<Longrightarrow> sched_inv s \<Longrightarrow> sched_inv s'"
proof (induction rule: sched_step.induct)
  case (create w p H h)
  then show ?case unfolding sched_inv_def using sched_create by blast
next
  case (put p H w w')
  then show ?case unfolding sched_inv_def using sched_put by (metis option.inject)
next
  case (take w p w' H)
  then show ?case unfolding sched_inv_def using sched_take by blast
next
  case (send w p q m w' H)
  then show ?case unfolding sched_inv_def using sched_send by (metis option.inject)
next
  case (recv p H w m w')
  then show ?case unfolding sched_inv_def using sched_recv by blast
next
  case (idle p H w q w')
  then show ?case unfolding sched_inv_def using sched_idle by blast
next
  case (mark w p q w' H)
  then show ?case unfolding sched_inv_def using sched_mark by (metis option.inject)
next
  case (free p H w q w1 w')
  then show ?case unfolding sched_inv_def using sched_free by (metis option.inject)
qed

lemma sched_inv_init: "sched_inv (mq_world_init, {})"
  by (auto simp: sched_inv_def sched_inv_at_def mq_world_init_def skynet_mq_init_def gq_abs_def
      intro: exI [of _ "[]"])

lemma sched_reachable_inv: "sched_reachable s \<Longrightarrow> sched_inv s"
  by (induction rule: sched_reachable.induct) (auto intro: sched_inv_init sched_step_inv)

subsection \<open>Properties\<close>

text \<open>C1: in every reachable state of the scheduler a queue that holds a message is linked
  in the global list or held by a thread: no message is stranded in a queue that no
  worker will look at, and the list never holds a queue twice.\<close>

theorem no_stranded_message:
  assumes "sched_reachable (w, H)" "mqs w p = Some q" "skynet_mq_length q \<noteq> 0"
  shows "\<exists>ps. gq_abs w ps \<and> distinct ps \<and> (p \<in> H \<or> p \<in> set ps)"
proof -
  from sched_reachable_inv [OF assms(1)] obtain ps where inv: "sched_inv_at ps (w, H)"
    by (auto simp: sched_inv_def)
  from assms(3) have "mq_contents q \<noteq> []" using length_mq_contents [of q] by auto
  with sched_inv_atD(4) [OF inv assms(2)] have "p \<in> H \<or> p \<in> set ps"
    by (auto simp: queue_inv_def split: if_splits)
  with sched_inv_atD(1) [OF inv] show ?thesis by (auto simp: gq_abs_def)
qed

text \<open>C16: in every reachable state the assertions and memory accesses of the queue operations
  hold: sending to a live queue, popping a message, marking a live queue for release,
  relinking a held queue and taking the next queue all return.\<close>

theorem sched_operations_return:
  assumes "sched_reachable (w, H)" "mqs w p = Some q"
  shows "(\<exists>r. skynet_globalmq_pop w = Some r) \<and> (\<exists>r. skynet_mq_pop w p = Some r) \<and>
    (p \<in> H \<longrightarrow> (\<exists>w'. skynet_globalmq_push w p = Some w')) \<and>
    (mq_release q = 0 \<longrightarrow> (\<exists>w'. skynet_mq_mark_release w p = Some w')) \<and>
    (mq_release q = 0 \<longrightarrow> skynet_mq_length q < mq_limit q \<longrightarrow>
       (\<exists>w'. skynet_mq_push w p m = Some w'))"
proof -
  from sched_reachable_inv [OF assms(1)] obtain ps where inv: "sched_inv_at ps (w, H)"
    by (auto simp: sched_inv_def)
  from sched_inv_atD(4) [OF inv assms(2)] have wf: "mq_wf q" by (simp add: queue_inv_def)
  have "\<exists>r. skynet_globalmq_pop w = Some r"
    using globalmq_pop_empty globalmq_pop_cons sched_inv_atD(1) [OF inv] by (cases ps) blast+
  moreover have "\<exists>r. skynet_mq_pop w p = Some r"
    using assms(2) mq_ring_pop_empty [OF wf] mq_ring_pop_nonempty [OF wf]
    by (cases "mq_contents q") (auto simp: skynet_mq_pop_def)
  moreover have "p \<in> H \<longrightarrow> (\<exists>w'. skynet_globalmq_push w p = Some w')"
    using sched_put [OF inv] by blast
  moreover have "mq_release q = 0 \<longrightarrow> (\<exists>w'. skynet_mq_mark_release w p = Some w')"
    using sched_mark [OF inv assms(2)] by blast
  moreover have "mq_release q = 0 \<longrightarrow> skynet_mq_length q < mq_limit q \<longrightarrow>
       (\<exists>w'. skynet_mq_push w p m = Some w')"
    using sched_send [OF inv assms(2)] by blast
  ultimately show ?thesis by blast
qed

text \<open>C25: \<open>skynet_mq_push\<close> and \<open>skynet_mq_pop\<close> implement an unbounded first-in first-out
  queue: pushing any list of messages onto a well-formed queue, whatever growth of the
  buffer that causes, and then popping until the queue reports that it is empty, gives
  the old contents followed by the new messages.\<close>

theorem mq_fifo:
  assumes "mq_wf q" "skynet_mq_length q + length ms \<le> 2 ^ 29"
    "skynet_mq_length q + length ms < n"
  shows "\<exists>q' q''. push_all mq_ring_push q ms = Some q' \<and>
    pop_all mq_ring_pop n q' = Some (mq_contents q @ ms, q'')"
  using assms mq.push_all_pop_all [of q ms n] by (simp add: length_mq_contents mq_limit_def)

text \<open>A freshly created queue and the same queue after one message, for the witnesses.\<close>

definition mq_example_world :: mq_world where
  "mq_example_world = skynet_mq_create mq_world_init 7 1"

definition mq_example_queue :: message_queue where
  "mq_example_queue = the (mqs mq_example_world 7)"

definition mq_example_msg :: skynet_message where
  "mq_example_msg = \<lparr>msg_source = 2, msg_session = 5, msg_data = None, msg_sz = 0\<rparr>"

definition mq_example_pushed :: mq_world where
  "mq_example_pushed = the (skynet_mq_push mq_example_world 7 mq_example_msg)"

lemmas mq_example_defs = mq_example_queue_def mq_example_world_def skynet_mq_create_def
  mq_world_init_def skynet_mq_init_def set_mq_def DEFAULT_QUEUE_SIZE_def MQ_OVERLOAD_def
  MQ_IN_GLOBAL_def

lemma mq_example_queue: "mqs mq_example_world 7 = Some mq_example_queue" "mq_wf mq_example_queue"
  "mq_contents mq_example_queue = []" "mq_release mq_example_queue = 0"
  "skynet_mq_length mq_example_queue = 0"
  by (simp_all add: mq_example_defs mq_wf_def mq_contents_def mq_slots_def ring_ok_def
      cap_ok_default skynet_mq_length_def)

lemma mq_example_reachable: "sched_reachable (mq_example_world, {7})"
proof -
  have "sched_step (mq_world_init, {}) (mq_example_world, {7})"
    unfolding mq_example_world_def
    by (rule create) (simp add: mq_world_init_def skynet_mq_init_def)
  then show ?thesis by (rule sched_reachable.step [OF start])
qed

lemma mq_example_push: "skynet_mq_push mq_example_world 7 mq_example_msg = Some mq_example_pushed"
  and mq_example_pushed_length: "\<exists>q. mqs mq_example_pushed 7 = Some q \<and> skynet_mq_length q = 1"
  by (simp_all add: mq_example_pushed_def mq_example_defs skynet_mq_push_def mq_ring_push_def
      arr_set_def skynet_mq_length_def)

lemma mq_example_pushed_reachable: "sched_reachable (mq_example_pushed, {7})"
proof -
  have "sched_step (mq_example_world, {7}) (mq_example_pushed, {7})"
    by (rule send [OF mq_example_queue(1,4) _ mq_example_push])
      (simp add: mq_example_queue mq_limit_def)
  then show ?thesis by (rule sched_reachable.step [OF mq_example_reachable])
qed

theorem no_stranded_message_witness:
  "\<exists>q ps. mqs mq_example_pushed 7 = Some q \<and> skynet_mq_length q \<noteq> 0 \<and>
     gq_abs mq_example_pushed ps \<and> distinct ps"
proof -
  from mq_example_pushed_length obtain q where
    q: "mqs mq_example_pushed 7 = Some q" "skynet_mq_length q \<noteq> 0" by auto
  from no_stranded_message [OF mq_example_pushed_reachable q] q show ?thesis by blast
qed

theorem sched_operations_return_witness:
  "\<exists>w'. skynet_mq_push mq_example_world 7 mq_example_msg = Some w'"
  using sched_operations_return [OF mq_example_reachable mq_example_queue(1)] mq_example_queue
  by (simp add: mq_limit_def)

theorem mq_fifo_witness:
  "\<exists>q' q''. push_all mq_ring_push mq_example_queue [mq_example_msg, mq_example_msg] = Some q' \<and>
     pop_all mq_ring_pop 3 q' = Some ([mq_example_msg, mq_example_msg], q'')"
  using mq_fifo [of mq_example_queue "[mq_example_msg, mq_example_msg]" 3] mq_example_queue by simp

end
