(* ===== verification/Timer.thy ===== *)
theory Timer
  imports Mq "HOL-Library.Multiset"
begin

unbundle bit_operations_syntax

text \<open>
  The hierarchical timing wheel, \<open>3rd/skynet/skynet-src/skynet_timer.c\<close>.  One near wheel
  of 256 slots, one per tick, and four levels of 64 slots; a timer sits in a coarse slot
  until the clock reaches the block that holds it and then moves to a finer one.  Times
  are 32 bit and wrap around.

  A \<open>link_list\<close> is the list of its nodes in link order.  The functions that run under the
  spin lock are state transformers on \<open>timer\<close>; the messages that \<open>dispatch_list\<close> pushes
  to the services are the result of \<open>timer_execute\<close>, in dispatch order.
\<close>

definition TIME_NEAR_SHIFT :: nat where "TIME_NEAR_SHIFT = 8"
definition TIME_NEAR :: nat where "TIME_NEAR = 2 ^ TIME_NEAR_SHIFT"
definition TIME_LEVEL_SHIFT :: nat where "TIME_LEVEL_SHIFT = 6"
definition TIME_LEVEL :: nat where "TIME_LEVEL = 2 ^ TIME_LEVEL_SHIFT"
definition TIME_NEAR_MASK :: u32 where "TIME_NEAR_MASK = of_nat TIME_NEAR - 1"
definition TIME_LEVEL_MASK :: u32 where "TIME_LEVEL_MASK = of_nat TIME_LEVEL - 1"

lemmas time_consts = TIME_NEAR_SHIFT_def TIME_NEAR_def TIME_LEVEL_SHIFT_def TIME_LEVEL_def
  TIME_NEAR_MASK_def TIME_LEVEL_MASK_def

record timer_event =
  te_handle :: u32
  te_session :: int

record timer_node =
  expire :: u32
  event :: timer_event

record timer =
  tm_near :: "timer_node list list"
  tm_t :: "timer_node list list list"
  tm_time :: u32
  tm_starttime :: u32
  tm_current :: u64
  tm_current_point :: u64

definition link_clear :: "'a list \<Rightarrow> 'a list \<times> 'a list" where
  "link_clear l = (l, [])"

definition link :: "'a list \<Rightarrow> 'a \<Rightarrow> 'a list" where
  "link l node = l @ [node]"

definition link_near :: "timer \<Rightarrow> nat \<Rightarrow> timer_node \<Rightarrow> timer" where
  "link_near T i node = T\<lparr>tm_near := (tm_near T)[i := link (tm_near T ! i) node]\<rparr>"

definition link_level :: "timer \<Rightarrow> nat \<Rightarrow> nat \<Rightarrow> timer_node \<Rightarrow> timer" where
  "link_level T l i node = T\<lparr>tm_t := (tm_t T)[l := (tm_t T ! l)[i := link (tm_t T ! l ! i) node]]\<rparr>"

text \<open>The loop of \<open>add_node\<close> that finds the level.\<close>

function add_level :: "u32 \<Rightarrow> u32 \<Rightarrow> nat \<Rightarrow> u32 \<Rightarrow> nat" where
  "add_level time current_time i msk =
     (if i < 3
      then if (time OR (msk - 1)) = (current_time OR (msk - 1)) then i
           else add_level time current_time (i + 1) (push_bit TIME_LEVEL_SHIFT msk)
      else i)"
  by pat_completeness auto
termination
  by (relation "measure (\<lambda>(_, _, i, _). 3 - i)") auto

definition add_node :: "timer \<Rightarrow> timer_node \<Rightarrow> timer" where
  "add_node T node =
     (let time = expire node; current_time = tm_time T in
      if (time OR TIME_NEAR_MASK) = (current_time OR TIME_NEAR_MASK)
      then link_near T (unat (time AND TIME_NEAR_MASK)) node
      else let i = add_level time current_time 0 (push_bit TIME_LEVEL_SHIFT (of_nat TIME_NEAR))
           in link_level T i
                (unat (drop_bit (TIME_NEAR_SHIFT + i * TIME_LEVEL_SHIFT) time AND TIME_LEVEL_MASK))
                node)"

text \<open>\<open>time\<close> is a positive \<open>int\<close>; the sum with the 32 bit clock wraps.\<close>

definition timer_add :: "timer \<Rightarrow> timer_event \<Rightarrow> int \<Rightarrow> timer" where
  "timer_add T ev time = add_node T \<lparr>expire = word_of_int time + tm_time T, event = ev\<rparr>"

definition move_list :: "timer \<Rightarrow> nat \<Rightarrow> nat \<Rightarrow> timer option" where
  "move_list T level idx = do {
     row \<leftarrow> arr_get (tm_t T) level;
     slot \<leftarrow> arr_get row idx;
     let (nodes, empty) = link_clear slot;
     Some (foldl add_node (T\<lparr>tm_t := (tm_t T)[level := row[idx := empty]]\<rparr>) nodes) }"

text \<open>The \<open>while\<close> loop of \<open>timer_shift\<close>; \<open>msk\<close> is an \<open>int\<close> that must not overflow.\<close>

partial_function (option) shift_loop ::
    "timer \<Rightarrow> u32 \<Rightarrow> u32 \<Rightarrow> nat \<Rightarrow> nat \<Rightarrow> timer option" where
  "shift_loop T ct time msk i =
     (if ct AND (of_nat msk - 1) = 0
      then let idx = unat (time AND TIME_LEVEL_MASK) in
           if idx \<noteq> 0 then move_list T i idx
           else do {
             msk \<leftarrow> c_int (msk * 2 ^ TIME_LEVEL_SHIFT);
             shift_loop T ct (drop_bit TIME_LEVEL_SHIFT time) msk (i + 1) }
      else Some T)"

definition timer_shift :: "timer \<Rightarrow> timer option" where
  "timer_shift T =
     (let ct = tm_time T + 1; T = T\<lparr>tm_time := ct\<rparr> in
      if ct = 0 then move_list T 3 0
      else shift_loop T ct (drop_bit TIME_NEAR_SHIFT ct) TIME_NEAR 0)"

text \<open>\<open>dispatch_list\<close>: one message per node, in list order, with the handle it is pushed to.\<close>

definition PTYPE_RESPONSE :: nat where "PTYPE_RESPONSE = 1"
definition MESSAGE_TYPE_SHIFT :: nat where "MESSAGE_TYPE_SHIFT = 56"

definition timer_message :: "int \<Rightarrow> skynet_message" where
  "timer_message ses = \<lparr>msg_source = 0, msg_session = ses, msg_data = None,
     msg_sz = push_bit MESSAGE_TYPE_SHIFT (of_nat PTYPE_RESPONSE)\<rparr>"

definition dispatch_list :: "timer_node list \<Rightarrow> (u32 \<times> skynet_message) list" where
  "dispatch_list nodes =
     map (\<lambda>n. (te_handle (event n), timer_message (te_session (event n)))) nodes"

text \<open>The loop of \<open>timer_execute\<close>, the nodes it dispatches as its result.  The lock is given
  up during the dispatch; with no other thread adding a timer the slot stays empty.\<close>

partial_function (option) execute_loop ::
    "timer \<Rightarrow> nat \<Rightarrow> timer_node list \<Rightarrow> (timer_node list \<times> timer) option" where
  "execute_loop T idx out = do {
     slot \<leftarrow> arr_get (tm_near T) idx;
     (if slot \<noteq> []
      then let (nodes, empty) = link_clear slot
           in execute_loop (T\<lparr>tm_near := (tm_near T)[idx := empty]\<rparr>) idx (out @ nodes)
      else Some (out, T)) }"

definition timer_execute :: "timer \<Rightarrow> (timer_node list \<times> timer) option" where
  "timer_execute T = execute_loop T (unat (tm_time T AND TIME_NEAR_MASK)) []"

definition timer_update :: "timer \<Rightarrow> (timer_node list \<times> timer) option" where
  "timer_update T = do {
     (out1, T) \<leftarrow> timer_execute T;
     T \<leftarrow> timer_shift T;
     (out2, T) \<leftarrow> timer_execute T;
     Some (out1 @ out2, T) }"

definition timer_create_timer :: timer where
  "timer_create_timer = \<lparr>tm_near = replicate TIME_NEAR [], tm_t = replicate 4 (replicate TIME_LEVEL []),
     tm_time = 0, tm_starttime = 0, tm_current = 0, tm_current_point = 0\<rparr>"

text \<open>\<open>skynet_timeout\<close>: a delay that is not positive sends at once (\<open>Inl\<close>, to be pushed to
  \<open>handle\<close> by the server), a positive one arms a timer.\<close>

definition skynet_timeout :: "timer \<Rightarrow> u32 \<Rightarrow> int \<Rightarrow> int \<Rightarrow> (u32 \<times> skynet_message) + timer" where
  "skynet_timeout T hdl time ses =
     (if time \<le> 0 then Inl (hdl, timer_message ses)
      else Inr (timer_add T \<lparr>te_handle = hdl, te_session = ses\<rparr> time))"

text \<open>The clocks of the operating system are arguments: seconds and nanoseconds.\<close>

definition systime :: "int \<Rightarrow> int \<Rightarrow> u32 \<times> u32" where
  "systime sec nsec = (word_of_int sec, word_of_int (nsec div 10000000))"

definition gettime :: "int \<Rightarrow> int \<Rightarrow> u64" where
  "gettime sec nsec = word_of_int sec * 100 + word_of_int (nsec div 10000000)"

text \<open>A run of \<open>timer_update\<close>, one batch of dispatched nodes per tick; the counter of the loop is
  tested by the caller.\<close>

fun timer_updates :: "nat \<Rightarrow> timer \<Rightarrow> (timer_node list list \<times> timer) option" where
  "timer_updates 0 T = Some ([], T)"
| "timer_updates (Suc k) T = do {
     (out, T) \<leftarrow> timer_update T;
     (outs, T) \<leftarrow> timer_updates k T;
     Some (out # outs, T) }"

text \<open>\<open>skynet_updatetime\<close> for the monotonic clock value \<open>cp\<close>: the flag tells that the
  "time diff error" was logged.  The loop counts to the unsigned \<open>diff\<close> with an \<open>int\<close>, which overflows
  when \<open>diff\<close> is greater than \<open>INT_MAX\<close>.\<close>

definition skynet_updatetime :: "timer \<Rightarrow> u64 \<Rightarrow> (bool \<times> timer_node list list \<times> timer) option" where
  "skynet_updatetime TI cp =
     (if cp < tm_current_point TI then Some (True, [], TI\<lparr>tm_current_point := cp\<rparr>)
      else if cp \<noteq> tm_current_point TI
      then let diff = ucast (cp - tm_current_point TI) :: u32 in do {
        i \<leftarrow> c_int (unat diff);
        (outs, TI) \<leftarrow> timer_updates (unat diff)
          (TI\<lparr>tm_current_point := cp, tm_current := tm_current TI + ucast diff\<rparr>);
        Some (False, outs, TI) }
      else Some (False, [], TI))"

definition skynet_starttime :: "timer \<Rightarrow> u32" where
  "skynet_starttime TI = tm_starttime TI"

definition skynet_now :: "timer \<Rightarrow> u64" where
  "skynet_now TI = tm_current TI"

definition skynet_timer_init :: "int \<times> int \<Rightarrow> int \<times> int \<Rightarrow> timer" where
  "skynet_timer_init realtime monotonic =
     (let (start, cs) = systime (fst realtime) (snd realtime)
      in timer_create_timer\<lparr>tm_starttime := start, tm_current := ucast cs,
           tm_current_point := gettime (fst monotonic) (snd monotonic)\<rparr>)"

subsection \<open>Where a timer belongs\<close>

text \<open>
  The 32 bit clock is the residue of a virtual clock \<open>v\<close> that does not wrap; a pending
  node expires at the virtual time \<open>vexp\<close>.  \<open>at_ok\<close> says in which slots a node with
  virtual expiry \<open>E\<close> may be at time \<open>v\<close>: in the near wheel when the two share a block of
  256 ticks, in level \<open>l\<close> when they share a block of \<open>2 ^ (14 + 6 * l)\<close> ticks (any block
  for the last level) and the node's block of \<open>2 ^ (8 + 6 * l)\<close> is still to come.
\<close>

datatype wheel_loc = Near nat | Level nat nat

fun loc_valid :: "wheel_loc \<Rightarrow> bool" where
  "loc_valid (Near i) = (i < 256)"
| "loc_valid (Level l j) = (l < 4 \<and> j < 64)"

fun slot :: "timer \<Rightarrow> wheel_loc \<Rightarrow> timer_node list" where
  "slot T (Near i) = tm_near T ! i"
| "slot T (Level l j) = tm_t T ! l ! j"

definition vexp :: "nat \<Rightarrow> timer \<Rightarrow> timer_node \<Rightarrow> nat" where
  "vexp v T n = v + unat (expire n - tm_time T)"

definition blk :: "nat \<Rightarrow> nat" where
  "blk l = 2 ^ (8 + 6 * l)"

fun at_ok :: "nat \<Rightarrow> nat \<Rightarrow> wheel_loc \<Rightarrow> bool" where
  "at_ok v E (Near i) = (E div blk 0 = v div blk 0 \<and> i = E mod blk 0)"
| "at_ok v E (Level l j) = (v div blk l < E div blk l \<and>
     (l < 3 \<longrightarrow> E div blk (Suc l) = v div blk (Suc l)) \<and> j = E div blk l mod 64)"

definition place :: "nat \<Rightarrow> nat \<Rightarrow> wheel_loc" where
  "place v E =
     (if E div blk 0 = v div blk 0 then Near (E mod blk 0)
      else let l = (if E div blk 1 = v div blk 1 then 0
                    else if E div blk 2 = v div blk 2 then 1
                    else if E div blk 3 = v div blk 3 then 2 else 3)
           in Level l (E div blk l mod 64))"

lemma blk_pos [simp]: "0 < blk l"
  and blk_0: "blk 0 = 256"
  by (simp_all add: blk_def)

lemma blk_Suc: "blk (Suc l) = blk l * 64"
  by (simp add: blk_def power_add)

lemma place_valid: "loc_valid (place v E)"
  by (simp add: place_def Let_def blk_0)

lemma place_ok:
  assumes "v \<le> E"
  shows "at_ok v E (place v E)"
proof -
  have "v div blk l \<le> E div blk l" for l using assms by (rule div_le_mono)
  then have *: "E div blk l \<noteq> v div blk l \<Longrightarrow> v div blk l < E div blk l" for l
    using le_neq_implies_less by metis
  show ?thesis
    using * [of 0] * [of 1] * [of 2] * [of 3]
    by (cases "E div blk 0 = v div blk 0"; cases "E div blk 1 = v div blk 1";
        cases "E div blk 2 = v div blk 2"; cases "E div blk 3 = v div blk 3")
      (simp_all add: place_def numeral_2_eq_2 numeral_3_eq_3)
qed

text \<open>The comparisons of \<open>add_node\<close> on wrapped values decide equality of virtual blocks.\<close>

lemma wrapped_block_eq:
  fixes v E :: nat
  assumes "v \<le> E" "E - v < 2 ^ 31" "k \<le> 26"
  shows "(E mod 2 ^ 32) div 2 ^ k = (v mod 2 ^ 32) div 2 ^ k \<longleftrightarrow> E div 2 ^ k = v div 2 ^ k"
proof -
  let ?M = "2 ^ (32 - k) :: nat"
  have split: "(2::nat) ^ 32 = 2 ^ k * ?M" using assms(3) by (simp flip: power_add)
  have res: "(x mod 2 ^ 32) div 2 ^ k = x div 2 ^ k mod ?M" for x :: nat
    unfolding split by (simp add: mod_mult2_eq)
  have "E div 2 ^ k \<le> v div 2 ^ k + (2 ^ 31 div 2 ^ k) + 1"
  proof -
    have "E div 2 ^ k \<le> (v + 2 ^ 31) div 2 ^ k" using assms(1,2) by (intro div_le_mono) simp
    also have "\<dots> = (v + 2 ^ k * 2 ^ (31 - k)) div 2 ^ k"
      using assms(3) by (simp flip: power_add)
    also have "\<dots> = v div 2 ^ k + 2 ^ (31 - k)" by simp
    also have "(2::nat) ^ (31 - k) = 2 ^ 31 div 2 ^ k" using assms(3) by (simp add: power_diff)
    finally show ?thesis by simp
  qed
  moreover have "(2::nat) ^ 31 div 2 ^ k = 2 ^ (31 - k)" using assms(3) by (simp add: power_diff)
  moreover have "?M = 2 * 2 ^ (31 - k)" using assms(3) by (simp flip: power_Suc add: Suc_diff_le)
  moreover have "(2::nat) \<le> 2 ^ (31 - k)" using assms(3) by (simp add: self_le_power)
  ultimately have lt: "E div 2 ^ k < v div 2 ^ k + ?M" by linarith
  have "v div 2 ^ k \<le> E div 2 ^ k" using assms(1) by (rule div_le_mono)
  with lt have "E div 2 ^ k mod ?M = v div 2 ^ k mod ?M \<longleftrightarrow> E div 2 ^ k = v div 2 ^ k"
    by (metis mod_eq_dvd_iff_nat nat_dvd_not_less add.commute less_diff_conv2
        zero_less_diff linorder_neqE_nat not_less)
  then show ?thesis by (simp only: res)
qed

lemma wrapped_index:
  fixes E :: nat
  assumes "k \<le> 26"
  shows "(E mod 2 ^ 32) div 2 ^ k mod 64 = E div 2 ^ k mod 64"
proof -
  have split: "(2::nat) ^ 32 = 2 ^ k * 2 ^ (32 - k)" using assms by (simp flip: power_add)
  have "(E mod 2 ^ 32) div 2 ^ k = E div 2 ^ k mod 2 ^ (32 - k)"
    unfolding split by (simp add: mod_mult2_eq)
  moreover have "(64::nat) dvd 2 ^ (32 - k)"
    using assms le_imp_power_dvd [of 6 "32 - k" "2::nat"] by simp
  ultimately show ?thesis by (simp only: mod_mod_cancel)
qed

definition clock_ok :: "nat \<Rightarrow> timer \<Rightarrow> bool" where
  "clock_ok v T \<longleftrightarrow> v mod 2 ^ 32 = unat (tm_time T)"

lemma unat_expire:
  assumes "clock_ok v T"
  shows "unat (expire n) = vexp v T n mod 2 ^ 32"
proof -
  have "unat (expire n) = unat (tm_time T + (expire n - tm_time T))" by simp
  also have "\<dots> = (unat (tm_time T) + unat (expire n - tm_time T)) mod 2 ^ 32"
    by (simp only: unat_word_ariths len_num1) simp
  also have "\<dots> = (v + unat (expire n - tm_time T)) mod 2 ^ 32"
    using assms by (simp only: clock_ok_def flip: mod_add_left_eq [of v])
  finally show ?thesis by (simp add: vexp_def)
qed

lemma same_block_iff:
  assumes "clock_ok v T" "unat (expire n - tm_time T) < 2 ^ 31" "k \<le> 26"
  shows "(expire n OR mask k) = (tm_time T OR mask k) \<longleftrightarrow> vexp v T n div 2 ^ k = v div 2 ^ k"
proof -
  have "(expire n OR mask k) = (tm_time T OR mask k) \<longleftrightarrow>
      unat (drop_bit k (expire n)) = unat (drop_bit k (tm_time T))"
    unfolding or_mask_eq by (rule word_unat_eq_iff)
  also have "\<dots> \<longleftrightarrow> (vexp v T n mod 2 ^ 32) div 2 ^ k = (v mod 2 ^ 32) div 2 ^ k"
    using assms(1) unat_expire [OF assms(1)]
    by (simp only: unat_drop_bit clock_ok_def)
  also have "\<dots> \<longleftrightarrow> vexp v T n div 2 ^ k = v div 2 ^ k"
    using assms(2,3) by (intro wrapped_block_eq) (simp_all add: vexp_def)
  finally show ?thesis .
qed

lemma unat_level_index:
  assumes "clock_ok v T" "k \<le> 26"
  shows "unat (drop_bit k (expire n) AND 63) = vexp v T n div 2 ^ k mod 64"
proof -
  have "(63::u32) = mask 6" by (simp add: mask_eq_exp_minus_1)
  then have "unat (drop_bit k (expire n) AND 63) = (unat (expire n) div 2 ^ k) mod 2 ^ 6"
    by (simp only: unat_and_mask unat_drop_bit)
  then show ?thesis
    using wrapped_index [OF assms(2)] unat_expire [OF assms(1)] by simp
qed

lemma unat_near_index:
  assumes "clock_ok v T"
  shows "unat (expire n AND 255) = vexp v T n mod 256"
proof -
  have "(255::u32) = mask 8" by (simp add: mask_eq_exp_minus_1)
  then have "unat (expire n AND 255) = unat (expire n) mod 2 ^ 8"
    by (simp only: unat_and_mask)
  moreover have "(256::nat) dvd 2 ^ 32" by simp
  ultimately show ?thesis
    using unat_expire [OF assms] by (simp add: mod_mod_cancel)
qed

fun put :: "timer \<Rightarrow> wheel_loc \<Rightarrow> timer_node \<Rightarrow> timer" where
  "put T (Near i) n = link_near T i n"
| "put T (Level l j) n = link_level T l j n"

lemma add_level_eq:
  assumes "clock_ok v T" "unat (expire n - tm_time T) < 2 ^ 31"
  shows "add_level (expire n) (tm_time T) 0 16384 =
    (if vexp v T n div blk 1 = v div blk 1 then 0
     else if vexp v T n div blk 2 = v div blk 2 then 1
     else if vexp v T n div blk 3 = v div blk 3 then 2 else 3)"
proof -
  note same = same_block_iff [OF assms]
  have m: "(16383::u32) = mask 14" "(1048575::u32) = mask 20" "(67108863::u32) = mask 26"
    by (simp_all add: mask_eq_exp_minus_1)
  show ?thesis
    using same [of 14] same [of 20] same [of 26]
    by (simp add: add_level.simps TIME_LEVEL_SHIFT_def push_bit_eq_mult m blk_def)
qed

lemma add_node_place:
  assumes "clock_ok v T" "unat (expire n - tm_time T) < 2 ^ 31"
  shows "add_node T n = put T (place v (vexp v T n)) n"
proof -
  note same = same_block_iff [OF assms]
  note level = add_level_eq [OF assms]
  have m: "(255::u32) = mask 8" by (simp add: mask_eq_exp_minus_1)
  have near: "(expire n OR 255) = (tm_time T OR 255) \<longleftrightarrow> vexp v T n div blk 0 = v div blk 0"
    using same [of 8] by (simp add: m blk_def)
  have idx: "l \<le> 3 \<Longrightarrow> unat (drop_bit (8 + l * 6) (expire n) AND 63) = vexp v T n div blk l mod 64" for l
    using unat_level_index [OF assms(1), of "8 + l * 6" n] by (simp add: blk_def mult.commute)
  let ?l = "add_level (expire n) (tm_time T) 0 16384"
  have "add_node T n = (if (expire n OR 255) = (tm_time T OR 255)
      then link_near T (unat (expire n AND 255)) n
      else link_level T ?l (unat (drop_bit (8 + ?l * 6) (expire n) AND 63)) n)"
    unfolding add_node_def Let_def time_consts by (simp add: push_bit_eq_mult)
  also have "\<dots> = (if vexp v T n div blk 0 = v div blk 0 then link_near T (vexp v T n mod blk 0) n
      else link_level T ?l (vexp v T n div blk ?l mod 64) n)"
  proof -
    have "?l \<le> 3" unfolding level by (simp split del: if_split) (simp split: if_split)
    then show ?thesis
      unfolding near unat_near_index [OF assms(1)] blk_0 by (simp only: idx)
  qed
  also have "\<dots> = put T (place v (vexp v T n)) n"
    unfolding level place_def Let_def
    by (cases "vexp v T n div blk 0 = v div blk 0") (simp_all only: simp_thms if_True if_False put.simps)
  finally show ?thesis .
qed

subsection \<open>The invariant of the wheel\<close>

definition wheel_shape :: "timer \<Rightarrow> bool" where
  "wheel_shape T \<longleftrightarrow> length (tm_near T) = 256 \<and> length (tm_t T) = 4 \<and>
     (\<forall>l < 4. length (tm_t T ! l) = 64)"

text \<open>All pending timers.\<close>

definition pending :: "timer \<Rightarrow> timer_node multiset" where
  "pending T = mset (concat (tm_near T)) + mset (concat (concat (tm_t T)))"

text \<open>Every node outside the slots \<open>S\<close> is where it belongs; no delay reaches half the range
  of the clock.\<close>

definition wheel_inv_but :: "wheel_loc set \<Rightarrow> nat \<Rightarrow> timer \<Rightarrow> bool" where
  "wheel_inv_but S v T \<longleftrightarrow> wheel_shape T \<and> clock_ok v T \<and>
     (\<forall>n \<in># pending T. unat (expire n - tm_time T) < 2 ^ 31) \<and>
     (\<forall>b n. loc_valid b \<longrightarrow> b \<notin> S \<longrightarrow> n \<in> set (slot T b) \<longrightarrow> at_ok v (vexp v T n) b)"

abbreviation wheel_inv :: "nat \<Rightarrow> timer \<Rightarrow> bool" where
  "wheel_inv \<equiv> wheel_inv_but {}"

text \<open>No timer is overdue: the near slot of the current tick has been dispatched.\<close>

definition settled :: "timer \<Rightarrow> bool" where
  "settled T \<longleftrightarrow> (\<forall>n \<in># pending T. expire n \<noteq> tm_time T)"

lemma mset_concat_update:
  "i < length xs \<Longrightarrow> mset (concat (xs[i := ys])) + mset (xs ! i) = mset (concat xs) + mset ys"
  by (induction xs arbitrary: i) (auto split: nat.split simp: ac_simps)

lemma mset_concat2_update:
  assumes "i < length xss"
  shows "mset (concat (concat (xss[i := r]))) + mset (concat (xss ! i)) =
    mset (concat (concat xss)) + mset (concat r)"
proof -
  have "concat (concat yss) = concat (map concat yss)" for yss :: "'a list list list"
    by (induction yss) auto
  with assms mset_concat_update [of i "map concat xss" "concat r"] show ?thesis
    by (simp add: map_update)
qed

lemma pending_slot:
  assumes "wheel_shape T"
  shows "n \<in># pending T \<longleftrightarrow> (\<exists>b. loc_valid b \<and> n \<in> set (slot T b))"
proof
  assume "n \<in># pending T"
  then consider xs where "xs \<in> set (tm_near T)" "n \<in> set xs"
    | row xs where "row \<in> set (tm_t T)" "xs \<in> set row" "n \<in> set xs"
    by (auto simp: pending_def)
  then show "\<exists>b. loc_valid b \<and> n \<in> set (slot T b)"
  proof cases
    case 1
    then obtain i where "i < 256" "tm_near T ! i = xs"
      using assms by (auto simp: wheel_shape_def in_set_conv_nth)
    with 1 show ?thesis by (intro exI [of _ "Near i"]) auto
  next
    case 2
    then obtain l j where "l < 4" "tm_t T ! l = row" "j < 64" "row ! j = xs"
      using assms by (metis in_set_conv_nth wheel_shape_def)
    with 2 show ?thesis by (intro exI [of _ "Level l j"]) auto
  qed
next
  assume "\<exists>b. loc_valid b \<and> n \<in> set (slot T b)"
  then obtain b where b: "loc_valid b" "n \<in> set (slot T b)" by blast
  show "n \<in># pending T"
  proof (cases b)
    case (Near i)
    with b assms have "tm_near T ! i \<in> set (tm_near T)" by (simp add: wheel_shape_def)
    with Near b show ?thesis by (auto simp: pending_def)
  next
    case (Level l j)
    with b assms have "tm_t T ! l \<in> set (tm_t T)" "tm_t T ! l ! j \<in> set (tm_t T ! l)"
      by (simp_all add: wheel_shape_def)
    with Level b show ?thesis by (fastforce simp: pending_def)
  qed
qed

lemma put_time [simp]: "tm_time (put T b n) = tm_time T"
  by (cases b) (simp_all add: link_near_def link_level_def)

lemma put_shape: "wheel_shape T \<Longrightarrow> wheel_shape (put T b n)"
  by (cases b) (auto simp: wheel_shape_def link_near_def link_level_def nth_list_update_if)

lemma put_slot:
  "wheel_shape T \<Longrightarrow> loc_valid b \<Longrightarrow> loc_valid b' \<Longrightarrow>
   slot (put T b n) b' = (if b' = b then slot T b @ [n] else slot T b')"
  by (cases b; cases b')
    (auto simp: wheel_shape_def link_near_def link_level_def link_def nth_list_update)

lemma put_pending:
  assumes "wheel_shape T" "loc_valid b"
  shows "pending (put T b n) = add_mset n (pending T)"
proof (cases b)
  case (Near i)
  with assms mset_concat_update [of i "tm_near T" "tm_near T ! i @ [n]"] show ?thesis
    by (simp add: pending_def link_near_def link_def wheel_shape_def)
next
  case (Level l j)
  let ?row = "tm_t T ! l"
  let ?row' = "?row[j := ?row ! j @ [n]]"
  from assms Level have lj: "l < length (tm_t T)" "j < length ?row"
    by (simp_all add: wheel_shape_def)
  have row: "mset (concat ?row') = add_mset n (mset (concat ?row))"
    using mset_concat_update [OF lj(2), of "?row ! j @ [n]"] by simp
  from mset_concat2_update [OF lj(1), of ?row'] row show ?thesis
    using Level by (simp add: pending_def link_level_def link_def)
qed

lemma vexp_put [simp]: "vexp v (put T b n) m = vexp v T m"
  by (simp add: vexp_def)

lemma add_node_inv:
  assumes inv: "wheel_inv_but S v T" and d: "unat (expire n - tm_time T) < 2 ^ 31"
  shows "wheel_inv_but S v (add_node T n) \<and> pending (add_node T n) = add_mset n (pending T) \<and>
    tm_time (add_node T n) = tm_time T"
proof -
  from inv have sh: "wheel_shape T" and ck: "clock_ok v T" by (simp_all add: wheel_inv_but_def)
  let ?b = "place v (vexp v T n)"
  have ok: "at_ok v (vexp v T n) ?b" by (rule place_ok) (simp add: vexp_def)
  note put = put_shape [OF sh] put_pending [OF sh place_valid] put_slot [OF sh place_valid]
  have "wheel_inv_but S v (put T ?b n)"
    using inv d ok by (auto simp: wheel_inv_but_def clock_ok_def put split: if_splits)
  then show ?thesis unfolding add_node_place [OF ck d] by (simp add: put)
qed

lemma foldl_add_node_inv:
  assumes "wheel_inv_but S v T" "\<forall>n \<in> set ns. unat (expire n - tm_time T) < 2 ^ 31"
  shows "wheel_inv_but S v (foldl add_node T ns) \<and>
    pending (foldl add_node T ns) = pending T + mset ns \<and> tm_time (foldl add_node T ns) = tm_time T"
  using assms
proof (induction ns arbitrary: T)
  case Nil
  then show ?case by simp
next
  case (Cons n ns)
  from add_node_inv [OF Cons.prems(1), of n] Cons.prems(2) have
    "wheel_inv_but S v (add_node T n)" "pending (add_node T n) = add_mset n (pending T)"
    "tm_time (add_node T n) = tm_time T" by simp_all
  with Cons.IH [of "add_node T n"] Cons.prems(2) show ?case by simp
qed

text \<open>\<open>move_list\<close> redistributes one slot of a level: afterwards that slot, too, is in order.\<close>

definition clear_level :: "timer \<Rightarrow> nat \<Rightarrow> nat \<Rightarrow> timer" where
  "clear_level T l j = T\<lparr>tm_t := (tm_t T)[l := (tm_t T ! l)[j := []]]\<rparr>"

lemma clear_level_slot:
  "wheel_shape T \<Longrightarrow> loc_valid (Level l j) \<Longrightarrow> loc_valid b \<Longrightarrow>
   slot (clear_level T l j) b = (if b = Level l j then [] else slot T b)"
  by (cases b) (auto simp: clear_level_def wheel_shape_def nth_list_update)

lemma clear_level_pending:
  assumes "wheel_shape T" "loc_valid (Level l j)"
  shows "pending (clear_level T l j) + mset (slot T (Level l j)) = pending T"
proof -
  let ?row = "tm_t T ! l"
  from assms have lj: "l < length (tm_t T)" "j < length ?row" by (simp_all add: wheel_shape_def)
  let ?m = "mset (concat (?row[j := []]))"
  have row: "mset (?row ! j) + ?m = mset (concat ?row)"
    using mset_concat_update [OF lj(2), of "[]"] by (simp add: add.commute)
  have "mset (concat (concat ((tm_t T)[l := ?row[j := []]]))) + mset (?row ! j) + ?m =
      mset (concat (concat (tm_t T))) + ?m"
    unfolding add.assoc row by (rule mset_concat2_update [OF lj(1)])
  then show ?thesis by (simp add: pending_def clear_level_def)
qed

lemma move_list_inv:
  assumes inv: "wheel_inv_but {Level l j} v T" and lj: "loc_valid (Level l j)"
  shows "\<exists>T'. move_list T l j = Some T' \<and> wheel_inv v T' \<and> pending T' = pending T \<and>
    tm_time T' = tm_time T"
proof -
  from inv have sh: "wheel_shape T" by (simp add: wheel_inv_but_def)
  let ?C = "clear_level T l j"
  have "wheel_inv v ?C"
  proof -
    have "wheel_shape ?C" using sh by (auto simp: wheel_shape_def clear_level_def nth_list_update_if)
    moreover have "set_mset (pending ?C) \<subseteq> set_mset (pending T)"
      using clear_level_pending [OF sh lj] by (metis mset_subset_eq_add_left set_mset_mono)
    ultimately show ?thesis
      using inv clear_level_slot [OF sh lj]
      by (auto simp: wheel_inv_but_def clock_ok_def vexp_def clear_level_def split: if_splits)
  qed
  moreover have "n \<in># pending T" if "n \<in> set (slot T (Level l j))" for n
    using that lj pending_slot [OF sh] by blast
  with inv have "\<forall>n \<in> set (slot T (Level l j)). unat (expire n - tm_time ?C) < 2 ^ 31"
    unfolding wheel_inv_but_def clear_level_def by simp
  moreover have "move_list T l j = Some (foldl add_node ?C (slot T (Level l j)))"
    using sh lj by (simp add: move_list_def link_clear_def clear_level_def wheel_shape_def c_simps)
  ultimately show ?thesis
    using foldl_add_node_inv [of "{}" v ?C "slot T (Level l j)"] clear_level_pending [OF sh lj]
    by (simp add: clear_level_def)
qed

subsection \<open>One tick\<close>

text \<open>The slot of level \<open>l\<close> whose block starts at the new time, if any.\<close>

definition due_level :: "nat \<Rightarrow> nat \<Rightarrow> bool" where
  "due_level v l \<longleftrightarrow> l < 4 \<and> blk l dvd v \<and> (l < 3 \<longrightarrow> \<not> blk (Suc l) dvd v)"

definition due_slots :: "nat \<Rightarrow> wheel_loc set" where
  "due_slots v = {Level l (v div blk l mod 64) | l. due_level v l}"

lemma blk_dvd: "l \<le> k \<Longrightarrow> blk k dvd v \<Longrightarrow> blk l dvd v"
  unfolding blk_def by (meson dvd_trans le_imp_power_dvd add_left_mono mult_le_mono2)

lemma due_level_unique:
  assumes "due_level v l" "due_level v l'"
  shows "l = l'"
proof (rule ccontr)
  assume "l \<noteq> l'"
  then consider "Suc l \<le> l'" | "Suc l' \<le> l" by linarith
  then show False
    using assms blk_dvd [of "Suc l" l' v] blk_dvd [of "Suc l'" l v]
    by cases (auto simp: due_level_def)
qed

lemma at_ok_tick:
  assumes ok: "at_ok v E b" and lt: "v < E" and b: "loc_valid b" "b \<notin> due_slots (Suc v)"
  shows "at_ok (Suc v) E b"
proof -
  have mono: "v div k \<le> Suc v div k" "Suc v div k \<le> E div k" for k
    using lt by (simp_all add: div_le_mono)
  have step: "Suc v div k = v div k \<or> k dvd Suc v" for k
    by (auto simp: div_Suc dvd_eq_mod_eq_0)
  show ?thesis
  proof (cases b)
    case (Near i)
    with ok mono [of "blk 0"] show ?thesis by (metis at_ok.simps(1) le_antisym)
  next
    case (Level l j)
    with ok have lvl: "v div blk l < E div blk l" "j = E div blk l mod 64"
      "l < 3 \<Longrightarrow> E div blk (Suc l) = v div blk (Suc l)" by simp_all
    have up: "l < 3 \<Longrightarrow> E div blk (Suc l) = Suc v div blk (Suc l)"
      using lvl(3) mono [of "blk (Suc l)"] by (metis le_antisym)
    have "E div blk l \<noteq> Suc v div blk l"
    proof
      assume eq: "E div blk l = Suc v div blk l"
      with lvl(1) step [of "blk l"] have dvd: "blk l dvd Suc v" by auto
      have "\<not> blk (Suc l) dvd Suc v" if "l < 3"
      proof
        assume "blk (Suc l) dvd Suc v"
        then have "Suc v div blk (Suc l) = Suc (v div blk (Suc l))"
          by (simp add: div_Suc dvd_eq_mod_eq_0)
        with lvl(3) [OF that] up [OF that] show False by simp
      qed
      with dvd b(1) Level have "due_level (Suc v) l" by (simp add: due_level_def)
      with b(2) Level lvl(2) eq show False by (auto simp: due_slots_def)
    qed
    with mono(2) [of "blk l"] lvl(2) up Level show ?thesis by simp
  qed
qed

definition tick :: "timer \<Rightarrow> timer" where
  "tick T = T\<lparr>tm_time := tm_time T + 1\<rparr>"

lemma vexp_tick:
  assumes "expire n \<noteq> tm_time T"
  shows "vexp (Suc v) (tick T) n = vexp v T n" "v < vexp v T n"
    "unat (expire n - tm_time (tick T)) < unat (expire n - tm_time T)"
proof -
  have "expire n - tm_time T \<noteq> 0" using assms by simp
  then have "unat (expire n - tm_time T - 1) = unat (expire n - tm_time T) - 1"
    "0 < unat (expire n - tm_time T)"
    by (simp_all add: unat_minus_one unat_gt_0)
  then show "vexp (Suc v) (tick T) n = vexp v T n" "v < vexp v T n"
    "unat (expire n - tm_time (tick T)) < unat (expire n - tm_time T)"
    by (simp_all add: vexp_def tick_def diff_diff_eq)
qed

lemma clock_tick: "clock_ok v T \<Longrightarrow> clock_ok (Suc v) (tick T)"
  by (simp add: clock_ok_def tick_def unat_word_ariths flip: mod_Suc_eq [of v])

lemma tick_inv:
  assumes inv: "wheel_inv v T" and st: "settled T"
  shows "wheel_inv_but (due_slots (Suc v)) (Suc v) (tick T)" "pending (tick T) = pending T"
proof -
  show pend: "pending (tick T) = pending T" by (simp add: pending_def tick_def)
  from inv have sh: "wheel_shape T" by (simp add: wheel_inv_but_def)
  have "at_ok (Suc v) (vexp (Suc v) (tick T) n) b"
    if b: "loc_valid b" "b \<notin> due_slots (Suc v)" and n: "n \<in> set (slot (tick T) b)" for b n
  proof -
    from n have n': "n \<in> set (slot T b)" by (cases b) (simp_all add: tick_def)
    with b pending_slot [OF sh] st have ne: "expire n \<noteq> tm_time T" by (auto simp: settled_def)
    from inv b n' have "at_ok v (vexp v T n) b" by (simp add: wheel_inv_but_def)
    from at_ok_tick [OF this vexp_tick(2) [OF ne] b] vexp_tick(1) [OF ne] show ?thesis by simp
  qed
  moreover have "unat (expire n - tm_time (tick T)) < 2 ^ 31" if "n \<in># pending T" for n
  proof -
    from st that have "expire n \<noteq> tm_time T" by (simp add: settled_def)
    from vexp_tick(3) [OF this] inv that show ?thesis by (fastforce simp: wheel_inv_but_def)
  qed
  moreover have "wheel_shape (tick T)" using sh by (simp add: wheel_shape_def tick_def)
  ultimately show "wheel_inv_but (due_slots (Suc v)) (Suc v) (tick T)"
    using inv clock_tick pend by (auto simp: wheel_inv_but_def)
qed

text \<open>\<open>timer_shift\<close> finds the due slot and moves it.\<close>

lemma blk_dvd_word:
  fixes ct :: u32
  assumes "v mod 2 ^ 32 = unat ct" "l \<le> 3"
  shows "ct AND (of_nat (blk l) - 1) = 0 \<longleftrightarrow> blk l dvd v"
proof -
  have m: "(of_nat (blk l) - 1 :: u32) = mask (8 + 6 * l)"
    by (simp add: mask_eq_exp_minus_1 blk_def)
  have "ct AND (of_nat (blk l) - 1) = 0 \<longleftrightarrow> unat (ct AND mask (8 + 6 * l)) = 0"
    unfolding m by (simp only: unsigned_eq_0_iff)
  also have "\<dots> \<longleftrightarrow> unat ct mod blk l = 0" unfolding unat_and_mask blk_def ..
  also have "unat ct mod blk l = v mod blk l"
  proof -
    have "blk l dvd 2 ^ 32" using assms(2) unfolding blk_def by (intro le_imp_power_dvd) simp
    then show ?thesis unfolding assms(1) [symmetric] by (rule mod_mod_cancel)
  qed
  finally show ?thesis by (simp only: dvd_eq_mod_eq_0)
qed

lemma level_index_word:
  assumes "v mod 2 ^ 32 = unat ct" "l \<le> 3"
  shows "unat (drop_bit (8 + 6 * l) ct AND TIME_LEVEL_MASK) = v div blk l mod 64"
proof -
  have m: "TIME_LEVEL_MASK = mask 6" by (simp add: time_consts mask_eq_exp_minus_1)
  have "unat (drop_bit (8 + 6 * l) ct AND TIME_LEVEL_MASK) = unat ct div 2 ^ (8 + 6 * l) mod 2 ^ 6"
    unfolding m unat_and_mask unat_drop_bit ..
  then show ?thesis
    using wrapped_index [of "8 + 6 * l" v] assms by (simp add: blk_def)
qed

lemma shift_loop_due:
  assumes ct: "v mod 2 ^ 32 = unat ct" "ct \<noteq> 0" and "l \<le> 3" "l = 0 \<or> blk l dvd v"
  shows "if blk 0 dvd v
    then \<exists>k. due_level v k \<and>
      shift_loop T ct (drop_bit (8 + 6 * l) ct) (blk l) l = move_list T k (v div blk k mod 64)
    else shift_loop T ct (drop_bit (8 + 6 * l) ct) (blk l) l = Some T"
  using assms(3,4)
proof (induction "3 - l" arbitrary: l)
  case (0 l)
  then have l3: "l = 3" "blk 3 dvd v" by auto
  have "v div blk 3 mod 64 \<noteq> 0"
  proof
    assume "v div blk 3 mod 64 = 0"
    with l3(2) have "blk 3 * 64 dvd v"
      by (metis dvd_div_mult_self dvd_eq_mod_eq_0 mult.commute mult_dvd_mono dvd_refl)
    then have "2 ^ 32 dvd v" by (simp add: blk_def)
    with ct(1) have "unat ct = 0" by (simp add: dvd_eq_mod_eq_0)
    with ct(2) show False by (simp add: unsigned_eq_0_iff)
  qed
  then show ?case
    using l3 blk_dvd_word [OF ct(1), of 3] level_index_word [OF ct(1), of 3] blk_dvd [of 0 3 v]
    by (subst shift_loop.simps) (auto simp: due_level_def intro!: exI [of _ 3])
next
  case (Suc n l)
  then have l: "l < 3" by simp
  note word = blk_dvd_word [OF ct(1), of l] level_index_word [OF ct(1), of l]
  show ?case
  proof (cases "blk l dvd v")
    case False
    with Suc.prems have "l = 0" by simp
    with False word show ?thesis by (subst shift_loop.simps) simp
  next
    case True
    then have b0: "blk 0 dvd v" by (rule blk_dvd [rotated]) simp
    have nxt: "v div blk l mod 64 = 0 \<longleftrightarrow> blk (Suc l) dvd v"
      using True by (simp add: blk_Suc dvd_eq_mod_eq_0 [symmetric] dvd_div_iff_mult mult.commute)
    show ?thesis
    proof (cases "blk (Suc l) dvd v")
      case False
      with nxt True l word b0 show ?thesis
        by (subst shift_loop.simps) (auto simp: due_level_def intro!: exI [of _ l])
    next
      case up: True
      have fit: "blk l * 2 ^ TIME_LEVEL_SHIFT = blk (Suc l)" "blk (Suc l) \<le> INT_MAX"
      proof -
        have "blk (Suc l) \<le> blk 3" using l unfolding blk_def by (intro power_increasing) auto
        moreover have "blk 3 = 67108864" by (simp add: blk_def)
        ultimately show "blk l * 2 ^ TIME_LEVEL_SHIFT = blk (Suc l)" "blk (Suc l) \<le> INT_MAX"
          by (simp_all add: TIME_LEVEL_SHIFT_def blk_Suc INT_MAX_def)
      qed
      have "shift_loop T ct (drop_bit (8 + 6 * l) ct) (blk l) l =
          shift_loop T ct (drop_bit (8 + 6 * Suc l) ct) (blk (Suc l)) (Suc l)"
        using True up nxt word l
        by (subst shift_loop.simps)
          (simp add: fit c_int_ok, simp add: TIME_LEVEL_SHIFT_def ac_simps)
      with Suc.hyps(1) [of "Suc l"] Suc.hyps(2) l up b0 show ?thesis by simp
    qed
  qed
qed

lemma timer_shift_inv:
  assumes inv: "wheel_inv v T" and st: "settled T"
  shows "\<exists>T'. timer_shift T = Some T' \<and> wheel_inv (Suc v) T' \<and> pending T' = pending T \<and>
    tm_time T' = tm_time T + 1"
proof -
  let ?v = "Suc v" and ?ct = "tm_time (tick T)"
  note tk = tick_inv [OF inv st]
  have ct: "?v mod 2 ^ 32 = unat ?ct" using tk(1) by (simp add: wheel_inv_but_def clock_ok_def)
  have move: "\<exists>T'. move_list (tick T) k (?v div blk k mod 64) = Some T' \<and> wheel_inv ?v T' \<and>
      pending T' = pending T \<and> tm_time T' = ?ct" if k: "due_level ?v k" for k
  proof -
    have "due_slots ?v = {Level k (?v div blk k mod 64)}"
      using k due_level_unique [OF k] unfolding due_slots_def by blast
    with move_list_inv [of k _ ?v "tick T"] tk k show ?thesis by (simp add: due_level_def)
  qed
  show ?thesis
  proof (cases "?ct = 0")
    case True
    with ct have "2 ^ 32 dvd ?v" by (simp only: dvd_eq_mod_eq_0 unat_0)
    then obtain q where q: "?v = 2 ^ 32 * q" ..
    then have q': "?v = blk 3 * (64 * q)" by (simp add: blk_def)
    have d3: "due_level ?v 3" unfolding due_level_def q' by simp
    have "?v div blk 3 mod 64 = 0" unfolding q' by simp
    with move [OF d3] True show ?thesis by (simp add: timer_shift_def tick_def)
  next
    case False
    have eq: "timer_shift T = shift_loop (tick T) ?ct (drop_bit (8 + 6 * 0) ?ct) (blk 0) 0"
      using False by (simp add: timer_shift_def tick_def Let_def time_consts blk_0)
    show ?thesis
    proof (cases "blk 0 dvd ?v")
      case True
      with shift_loop_due [OF ct False, of 0 "tick T"] move eq show ?thesis
        by (auto simp: tick_def)
    next
      case no: False
      then have "due_slots ?v = {}" using blk_dvd [of 0 _ ?v] by (auto simp: due_slots_def due_level_def)
      with tk eq no shift_loop_due [OF ct False, of 0 "tick T"] show ?thesis
        by (simp add: tick_def)
    qed
  qed
qed

text \<open>\<open>timer_execute\<close> takes out exactly the timers that expire now.\<close>

lemma at_ok_due:
  assumes "v \<le> E" "at_ok v E b"
  shows "b = Near (v mod blk 0) \<longleftrightarrow> E = v"
proof (cases b)
  case (Near i)
  with assms(2) have "E div blk 0 = v div blk 0" "i = E mod blk 0" by simp_all
  then show ?thesis using Near by (metis div_mult_mod_eq wheel_loc.inject(1))
next
  case (Level l j)
  with assms show ?thesis by auto
qed

lemma filter_mset_all: "\<forall>x \<in># M. P x \<Longrightarrow> filter_mset P M = M"
  and filter_mset_none: "\<forall>x \<in># M. \<not> P x \<Longrightarrow> filter_mset P M = {#}"
  by (induction M) auto

lemma timer_execute_inv:
  assumes inv: "wheel_inv v T"
  shows "\<exists>out T'. timer_execute T = Some (out, T') \<and> wheel_inv v T' \<and> settled T' \<and>
    tm_time T' = tm_time T \<and>
    mset out = filter_mset (\<lambda>n. expire n = tm_time T) (pending T) \<and>
    pending T' = filter_mset (\<lambda>n. expire n \<noteq> tm_time T) (pending T)"
proof -
  from inv have sh: "wheel_shape T" and ck: "clock_ok v T" by (simp_all add: wheel_inv_but_def)
  let ?i = "v mod blk 0"
  let ?T = "T\<lparr>tm_near := (tm_near T)[?i := []]\<rparr>" and ?out = "tm_near T ! ?i"
  have i: "?i < length (tm_near T)" using sh by (simp add: wheel_shape_def blk_0)
  have idx: "unat (tm_time T AND TIME_NEAR_MASK) = ?i"
  proof -
    have m: "TIME_NEAR_MASK = mask 8" by (simp add: time_consts mask_eq_exp_minus_1)
    have "unat (tm_time T) mod 2 ^ 8 = v mod 2 ^ 8"
      unfolding ck [unfolded clock_ok_def, symmetric] by (rule mod_mod_cancel) simp
    then show ?thesis unfolding m unat_and_mask by (simp add: blk_0)
  qed
  have exec: "timer_execute T = Some (?out, ?T)"
  proof (cases "?out = []")
    case True
    then have "(tm_near T)[?i := []] = tm_near T" by (metis list_update_id)
    with True i show ?thesis
      unfolding timer_execute_def idx by (subst execute_loop.simps) (simp add: c_simps)
  next
    case False
    with i have "execute_loop T ?i [] = execute_loop ?T ?i ?out"
      by (subst execute_loop.simps) (simp add: c_simps link_clear_def)
    also have "\<dots> = Some (?out, ?T)"
      using i by (subst execute_loop.simps) (simp add: c_simps)
    finally show ?thesis unfolding timer_execute_def idx .
  qed
  have slots: "slot ?T b = (if b = Near ?i then [] else slot T b)" for b
    using i by (cases b) auto
  have due: "expire n = tm_time T \<longleftrightarrow> b = Near ?i" if "loc_valid b" "n \<in> set (slot T b)" for n b
  proof -
    have "expire n = tm_time T \<longleftrightarrow> vexp v T n = v" by (simp add: vexp_def unsigned_eq_0_iff)
    with at_ok_due [of v "vexp v T n" b] that inv show ?thesis
      by (simp add: wheel_inv_but_def vexp_def)
  qed
  have shT: "wheel_shape ?T" using sh by (simp add: wheel_shape_def)
  have split: "pending T = pending ?T + mset ?out"
    using mset_concat_update [OF i, of "[]"] by (simp add: pending_def ac_simps)
  have out: "\<forall>n \<in># mset ?out. expire n = tm_time T"
    using due [of "Near ?i"] by (simp add: blk_0)
  have rest: "\<forall>n \<in># pending ?T. expire n \<noteq> tm_time T"
    using due slots by (auto simp: pending_slot [OF shT] split: if_splits)
  have f1: "filter_mset (\<lambda>n. expire n = tm_time T) (pending T) = mset ?out"
    using out rest unfolding split by (simp add: filter_mset_all filter_mset_none)
  have f2: "filter_mset (\<lambda>n. expire n \<noteq> tm_time T) (pending T) = pending ?T"
    using out rest unfolding split by (simp add: filter_mset_all filter_mset_none)
  have "wheel_inv v ?T"
    using inv shT slots split by (auto simp: wheel_inv_but_def clock_ok_def vexp_def split: if_splits)
  moreover have "settled ?T" using rest by (simp add: settled_def)
  ultimately show ?thesis using exec f1 f2 by auto
qed

text \<open>A whole \<open>timer_update\<close> of a settled wheel dispatches the timers of the new tick.\<close>

lemma timer_update_inv:
  assumes inv: "wheel_inv v T" and st: "settled T"
  shows "\<exists>out T'. timer_update T = Some (out, T') \<and> wheel_inv (Suc v) T' \<and> settled T' \<and>
    tm_time T' = tm_time T + 1 \<and>
    mset out = filter_mset (\<lambda>n. expire n = tm_time T + 1) (pending T) \<and>
    pending T' = filter_mset (\<lambda>n. expire n \<noteq> tm_time T + 1) (pending T)"
proof -
  from timer_execute_inv [OF inv] obtain out1 T1 where 1: "timer_execute T = Some (out1, T1)"
    "wheel_inv v T1" "settled T1" "tm_time T1 = tm_time T"
    "mset out1 = filter_mset (\<lambda>n. expire n = tm_time T) (pending T)"
    "pending T1 = filter_mset (\<lambda>n. expire n \<noteq> tm_time T) (pending T)" by blast
  have "filter_mset (\<lambda>n. expire n = tm_time T) (pending T) = {#}"
    "filter_mset (\<lambda>n. expire n \<noteq> tm_time T) (pending T) = pending T"
    using st by (simp_all add: settled_def filter_mset_all filter_mset_none)
  with 1 have e: "out1 = []" "pending T1 = pending T" by simp_all
  from timer_shift_inv [OF 1(2,3)] obtain T2 where 2: "timer_shift T1 = Some T2"
    "wheel_inv (Suc v) T2" "pending T2 = pending T" "tm_time T2 = tm_time T + 1"
    using e 1(4) by auto
  from timer_execute_inv [OF 2(2)] 1(1) 2 e show ?thesis by (auto simp: timer_update_def)
qed

text \<open>Runs of ticks: batch \<open>i\<close> holds the timers whose delay is \<open>i + 1\<close>.\<close>

definition due_in :: "timer \<Rightarrow> nat \<Rightarrow> timer_node multiset" where
  "due_in T k = filter_mset (\<lambda>n. unat (expire n - tm_time T) = k) (pending T)"

lemma timer_updates_inv:
  assumes "wheel_inv v T" "settled T"
  shows "\<exists>outs T'. timer_updates k T = Some (outs, T') \<and> wheel_inv (v + k) T' \<and> settled T' \<and>
    tm_time T' = tm_time T + of_nat k \<and> length outs = k \<and> (\<forall>i < k. mset (outs ! i) = due_in T (Suc i))"
  using assms
proof (induction k arbitrary: v T)
  case 0
  then show ?case by simp
next
  case (Suc k)
  from timer_update_inv [OF Suc.prems] obtain out T1 where 1: "timer_update T = Some (out, T1)"
    "wheel_inv (Suc v) T1" "settled T1" "tm_time T1 = tm_time T + 1"
    "mset out = filter_mset (\<lambda>n. expire n = tm_time T + 1) (pending T)"
    "pending T1 = filter_mset (\<lambda>n. expire n \<noteq> tm_time T + 1) (pending T)" by blast
  from Suc.IH [OF 1(2,3)] obtain outs T' where 2: "timer_updates k T1 = Some (outs, T')"
    "wheel_inv (Suc v + k) T'" "settled T'" "tm_time T' = tm_time T1 + of_nat k" "length outs = k"
    "\<forall>i < k. mset (outs ! i) = due_in T1 (Suc i)" by blast
  have one: "expire n = tm_time T + 1 \<longleftrightarrow> unat (expire n - tm_time T) = 1" for n
    by (metis add.commute add_diff_cancel_left' diff_add_cancel unat_1 word_unat_eq_iff)
  have "due_in T1 (Suc i) = due_in T (Suc (Suc i))" for i
  proof -
    have "(unat (expire n - tm_time T1) = Suc i \<and> expire n \<noteq> tm_time T + 1) \<longleftrightarrow>
        unat (expire n - tm_time T) = Suc (Suc i)" if "n \<in># pending T" for n
    proof -
      from that Suc.prems(2) have "expire n - tm_time T \<noteq> 0" by (simp add: settled_def)
      then have "unat (expire n - tm_time T - 1) = unat (expire n - tm_time T) - 1"
        "0 < unat (expire n - tm_time T)" by (simp_all add: unat_minus_one unat_gt_0)
      then show ?thesis using one [of n] by (auto simp: 1(4) diff_diff_eq)
    qed
    then show ?thesis
      unfolding due_in_def 1(6) filter_filter_mset by (intro filter_mset_cong) auto
  qed
  moreover have "mset out = due_in T (Suc 0)"
    unfolding 1(5) due_in_def using one by (intro filter_mset_cong) auto
  ultimately have "\<forall>i < Suc k. mset ((out # outs) ! i) = due_in T (Suc i)"
    using 2(6) by (auto simp: less_Suc_eq_0_disj)
  with 1 2 show ?case by (simp add: add.assoc)
qed

lemma timer_add_inv:
  assumes "wheel_inv v T" "settled T" "0 < d" "d \<le> int INT_MAX"
  shows "wheel_inv v (timer_add T ev d)" "settled (timer_add T ev d)"
    "tm_time (timer_add T ev d) = tm_time T"
    "pending (timer_add T ev d) = add_mset \<lparr>expire = word_of_int d + tm_time T, event = ev\<rparr> (pending T)"
proof -
  let ?n = "\<lparr>expire = word_of_int d + tm_time T, event = ev\<rparr>"
  have "unat (word_of_int d :: u32) = nat d"
    using assms(3,4) by (simp add: INT_MAX_def unsigned_of_int take_bit_int_eq_self)
  then have d: "unat (expire ?n - tm_time T) = nat d" by simp
  then have "unat (expire ?n - tm_time T) < 2 ^ 31" using assms(4) by (simp add: INT_MAX_def)
  from add_node_inv [OF assms(1) this] show
    "wheel_inv v (timer_add T ev d)" "tm_time (timer_add T ev d) = tm_time T"
    "pending (timer_add T ev d) = add_mset ?n (pending T)"
    by (simp_all add: timer_add_def)
  moreover have "expire ?n \<noteq> tm_time T" using d assms(3) by auto
  ultimately show "settled (timer_add T ev d)" using assms(2) by (simp add: settled_def)
qed

subsection \<open>Reachable timers\<close>

text \<open>What the program does to its timer: initialise it, arm timers, follow the clock.\<close>

inductive timer_reachable :: "timer \<Rightarrow> bool" where
  init: "timer_reachable (skynet_timer_init realtime monotonic)"
| timeout: "timer_reachable T \<Longrightarrow> time \<le> int INT_MAX \<Longrightarrow> skynet_timeout T h time ses = Inr T' \<Longrightarrow>
    timer_reachable T'"
| updatetime: "timer_reachable T \<Longrightarrow> skynet_updatetime T cp = Some (log, outs, T') \<Longrightarrow>
    timer_reachable T'"

lemma wheel_init: "wheel_inv 0 (skynet_timer_init r m) \<and> settled (skynet_timer_init r m)"
proof -
  have "slot timer_create_timer b = []" if "loc_valid b" for b
    using that by (cases b) (simp_all add: timer_create_timer_def time_consts)
  moreover have "slot (skynet_timer_init r m) b = slot timer_create_timer b" for b
    by (cases b) (simp_all add: skynet_timer_init_def Let_def split_beta)
  moreover have "wheel_shape (skynet_timer_init r m)" "tm_time (skynet_timer_init r m) = 0"
    by (simp_all add: skynet_timer_init_def wheel_shape_def timer_create_timer_def time_consts
        Let_def split_beta nth_replicate)
  moreover from this(1) calculation(1,2) have "pending (skynet_timer_init r m) = {#}"
    using pending_slot by (metis multiset_nonemptyE set_empty empty_iff)
  ultimately show ?thesis by (simp add: wheel_inv_but_def clock_ok_def settled_def)
qed

lemma wheel_inv_fields:
  "wheel_inv v (T\<lparr>tm_current_point := a, tm_current := b\<rparr>) = wheel_inv v T"
  "wheel_inv v (T\<lparr>tm_current_point := a\<rparr>) = wheel_inv v T"
  "settled (T\<lparr>tm_current_point := a, tm_current := b\<rparr>) = settled T"
  "settled (T\<lparr>tm_current_point := a\<rparr>) = settled T"
proof -
  have "slot (T\<lparr>tm_current_point := a, tm_current := b\<rparr>) l = slot T l"
    "slot (T\<lparr>tm_current_point := a\<rparr>) l = slot T l" for l
    by (cases l; simp)+
  then show "wheel_inv v (T\<lparr>tm_current_point := a, tm_current := b\<rparr>) = wheel_inv v T"
    "wheel_inv v (T\<lparr>tm_current_point := a\<rparr>) = wheel_inv v T"
    "settled (T\<lparr>tm_current_point := a, tm_current := b\<rparr>) = settled T"
    "settled (T\<lparr>tm_current_point := a\<rparr>) = settled T"
    by (simp_all add: wheel_inv_but_def settled_def pending_def wheel_shape_def clock_ok_def vexp_def)
qed

lemma skynet_updatetime_inv:
  assumes "wheel_inv v T" "settled T" "skynet_updatetime T cp = Some (log, outs, T')"
  shows "\<exists>v'. wheel_inv v' T' \<and> settled T'"
  using assms timer_updates_inv [of v "T\<lparr>tm_current_point := cp,
      tm_current := tm_current T + ucast (ucast (cp - tm_current_point T) :: u32)\<rparr>"
      "unat (ucast (cp - tm_current_point T) :: u32)"]
  by (auto simp: skynet_updatetime_def wheel_inv_fields Let_def bind_eq_Some_conv split: if_splits)

lemma timer_reachable_inv: "timer_reachable T \<Longrightarrow> (\<exists>v. wheel_inv v T) \<and> settled T"
proof (induction rule: timer_reachable.induct)
  case (init r m)
  then show ?case using wheel_init by blast
next
  case (timeout T time h ses T')
  then obtain v where v: "wheel_inv v T" "settled T" "0 < time"
    and T': "T' = timer_add T \<lparr>te_handle = h, te_session = ses\<rparr> time"
    by (auto simp: skynet_timeout_def split: if_splits)
  show ?case unfolding T' using timer_add_inv(1,2) [OF v timeout.hyps(2)] by blast
next
  case (updatetime T cp log outs T')
  then obtain v where v: "wheel_inv v T" "settled T" by blast
  from skynet_updatetime_inv [OF v updatetime.hyps(2)] show ?case by auto
qed

subsection \<open>Properties\<close>

text \<open>C3: a timer armed with \<open>skynet_timeout\<close> for \<open>d\<close> ticks fires at the \<open>d\<close>-th following tick and
  at no other: in any reachable state, running \<open>k\<close> ticks after arming returns, and the
  batch of tick \<open>i\<close> consists of the timers pending before whose delay was \<open>i\<close>, plus the new
  one exactly when \<open>i = d\<close>.  This includes the wrap-around of the 32 bit clock and every
  cascade between the levels.\<close>

theorem timeout_fires_exactly:
  assumes "timer_reachable T" "0 < d" "d \<le> int INT_MAX"
    "skynet_timeout T h d ses = Inr T1"
  shows "\<exists>outs T2. timer_updates k T1 = Some (outs, T2) \<and> length outs = k \<and>
    (\<forall>i < k. mset (outs ! i) = due_in T (Suc i) +
       (if Suc i = nat d
        then {#\<lparr>expire = word_of_int d + tm_time T, event = \<lparr>te_handle = h, te_session = ses\<rparr>\<rparr>#}
        else {#}))"
proof -
  from timer_reachable_inv [OF assms(1)] obtain v where v: "wheel_inv v T" "settled T" by blast
  let ?e = "\<lparr>te_handle = h, te_session = ses\<rparr>"
  from assms have T1: "T1 = timer_add T ?e d" by (simp add: skynet_timeout_def)
  note add = timer_add_inv [OF v assms(2,3), of ?e]
  have "unat (word_of_int d :: u32) = nat d"
    using assms(2,3) by (simp add: INT_MAX_def unsigned_of_int take_bit_int_eq_self)
  then have "due_in T1 j = due_in T j + (if j = nat d
      then {#\<lparr>expire = word_of_int d + tm_time T, event = ?e\<rparr>#} else {#})" for j
    by (auto simp: due_in_def T1 add)
  then show ?thesis
    using timer_updates_inv [OF add(1,2), of k] unfolding T1 by fastforce
qed

text \<open>C23: in a reachable state \<open>skynet_updatetime\<close> returns for every clock value that is less than
  \<open>2^31\<close> centiseconds (248 days) ahead, or behind: it advances the wheel by the elapsed
  centiseconds, none if the clock stood still or went backwards, and every timer that was due in
  that span is dispatched, in its tick.  A greater step (modulo \<open>2^32\<close>) overflows the counter of its
  loop, which is undefined behaviour.\<close>

theorem updatetime_returns:
  assumes "timer_reachable T"
  shows "if tm_current_point T \<le> cp \<and> 2 ^ 31 \<le> unat (ucast (cp - tm_current_point T) :: u32)
    then skynet_updatetime T cp = None
    else \<exists>log outs T'. skynet_updatetime T cp = Some (log, outs, T') \<and>
      log = (cp < tm_current_point T) \<and>
      length outs = (if cp < tm_current_point T then 0
                     else unat (ucast (cp - tm_current_point T) :: u32)) \<and>
      tm_time T' = tm_time T + of_nat (length outs) \<and>
      (\<forall>i < length outs. mset (outs ! i) = due_in T (Suc i))"
proof -
  from timer_reachable_inv [OF assms] obtain v where v: "wheel_inv v T" "settled T" by blast
  let ?d = "ucast (cp - tm_current_point T) :: u32"
  let ?T = "T\<lparr>tm_current_point := cp, tm_current := tm_current T + ucast ?d\<rparr>"
  have same: "due_in ?T = due_in T" by (simp add: fun_eq_iff due_in_def pending_def)
  have *: "wheel_inv v ?T" "settled ?T" using v by (simp_all add: wheel_inv_fields)
  from timer_updates_inv [OF *, of "unat ?d"] obtain outs T' where
    run: "timer_updates (unat ?d) ?T = Some (outs, T')" "tm_time T' = tm_time T + ?d"
    "length outs = unat ?d" "\<forall>i < unat ?d. mset (outs ! i) = due_in T (Suc i)"
    by (auto simp: same)
  show ?thesis
  proof (cases "2 ^ 31 \<le> unat ?d")
    case True
    then have "c_int (unat ?d) = None" "unat ?d \<noteq> 0" by (simp_all add: c_int_def INT_MAX_def)
    then have "c_int (unat ?d) = None" "cp \<noteq> tm_current_point T" by auto
    then show ?thesis using True by (auto simp: skynet_updatetime_def Let_def not_le)
  next
    case False
    then have c: "c_int (unat ?d) = Some (unat ?d)" by (simp add: INT_MAX_def)
    show ?thesis using False run by (auto simp: skynet_updatetime_def Let_def not_less c)
  qed
qed

definition timer_example :: timer where
  "timer_example = skynet_timer_init (0, 0) (0, 0)"

lemma timer_example_reachable: "timer_reachable timer_example"
  unfolding timer_example_def by (rule timer_reachable.init)

theorem timeout_fires_exactly_witness:
  "\<exists>T1 outs T2. skynet_timeout timer_example 5 300 9 = Inr T1 \<and>
     timer_updates 300 T1 = Some (outs, T2) \<and>
     outs ! 299 = [\<lparr>expire = 300, event = \<lparr>te_handle = 5, te_session = 9\<rparr>\<rparr>]"
proof -
  have time: "tm_time timer_example = 0"
    by (simp add: timer_example_def skynet_timer_init_def timer_create_timer_def systime_def)
  have "pending timer_example = {#}"
    by (simp add: pending_def timer_example_def skynet_timer_init_def timer_create_timer_def systime_def
        time_consts concat_replicate_trivial numeral_eq_Suc)
  then have none: "due_in timer_example k = {#}" for k by (simp add: due_in_def)
  obtain T1 where T1: "skynet_timeout timer_example 5 300 9 = Inr T1"
    by (simp add: skynet_timeout_def)
  from timeout_fires_exactly [OF timer_example_reachable _ _ T1, of 300] obtain outs T2 where
    "timer_updates 300 T1 = Some (outs, T2)"
    "\<forall>i < 300. mset (outs ! i) = (if Suc i = 300
        then {#\<lparr>expire = 300, event = \<lparr>te_handle = 5, te_session = 9\<rparr>\<rparr>#} else {#})"
    by (auto simp: none time INT_MAX_def)
  moreover from this(2) [rule_format, of 299] have "outs ! 299 = [\<lparr>expire = 300, event = \<lparr>te_handle = 5, te_session = 9\<rparr>\<rparr>]"
    by (simp add: mset_single_iff)
  ultimately show ?thesis using T1 by blast
qed

theorem updatetime_returns_witness:
  "\<exists>log outs T'. skynet_updatetime timer_example 7 = Some (log, outs, T') \<and> length outs = 7"
proof -
  have "tm_current_point timer_example = 0"
    by (simp add: timer_example_def skynet_timer_init_def timer_create_timer_def systime_def gettime_def)
  then show ?thesis using updatetime_returns [OF timer_example_reachable, of 7] by auto
qed

end
