(* ===== verification/Handle.thy ===== *)
theory Handle
  imports Prelude "HOL-Library.List_Lexorder" "HOL-Library.Char_ord"
begin

text \<open>
  The registry of service handles and names, \<open>3rd/skynet/skynet-src/skynet_handle.c\<close>.  A
  handle is 32 bits, the top eight of which name the node (harbor).  The registry is an
  open table of a power of two slots, indexed by the low bits of the handle, that
  doubles when it is full, and a sorted array of names searched by bisection.

  Contexts are addresses; \<open>hof ctx\<close> is \<open>skynet_context_handle(ctx)\<close>, the handle stored
  in the context, which the caller of \<open>skynet_handle_register\<close> writes after the call.
\<close>

type_synonym ctx_id = nat

definition HANDLE_MASK :: u32 where "HANDLE_MASK = 0xffffff"
definition HANDLE_REMOTE_SHIFT :: nat where "HANDLE_REMOTE_SHIFT = 24"
definition DEFAULT_SLOT_SIZE :: nat where "DEFAULT_SLOT_SIZE = 4"
definition MAX_SLOT_SIZE :: nat where "MAX_SLOT_SIZE = 0x40000000"

record handle_name =
  hn_name :: string
  hn_handle :: u32

record handle_storage =
  hs_harbor :: u32
  hs_handle_index :: u32
  hs_slot_size :: nat
  hs_slot :: "ctx_id option list"
  hs_name_cap :: nat
  hs_name_count :: nat
  hs_name :: "handle_name option list"

text \<open>\<open>strcmp\<close>: the sign of the first difference, characters compared as unsigned bytes.\<close>

fun strcmp :: "string \<Rightarrow> string \<Rightarrow> int" where
  "strcmp [] [] = 0"
| "strcmp [] (y # ys) = - 1"
| "strcmp (x # xs) [] = 1"
| "strcmp (x # xs) (y # ys) = (if x = y then strcmp xs ys else int (of_char x) - int (of_char y))"

subsection \<open>Registration\<close>

definition slot_hash :: "handle_storage \<Rightarrow> u32 \<Rightarrow> nat" where
  "slot_hash s h = unat (h AND (of_nat (hs_slot_size s) - 1))"

text \<open>The inner \<open>for\<close> loop: the first handle from \<open>handle_index\<close> on whose slot is free.\<close>

function register_scan :: "handle_storage \<Rightarrow> nat \<Rightarrow> u32 option option" where
  "register_scan s i =
     (if i < hs_slot_size s
      then let h = (of_nat i + hs_handle_index s) AND HANDLE_MASK in do {
        cell \<leftarrow> arr_get (hs_slot s) (slot_hash s h);
        (if cell = None then Some (Some h) else register_scan s (i + 1)) }
      else Some None)"
  by pat_completeness auto
termination
  by (relation "measure (\<lambda>(s, i). hs_slot_size s - i)") auto

declare register_scan.simps [simp del]

text \<open>The table doubles: every context moves to the slot of its handle.\<close>

fun rehash :: "(ctx_id \<Rightarrow> u32) \<Rightarrow> nat \<Rightarrow> ctx_id option list \<Rightarrow> ctx_id option list \<Rightarrow>
    ctx_id option list option" where
  "rehash hof size2 [] new_slot = Some new_slot"
| "rehash hof size2 (cell # cells) new_slot = do {
     c \<leftarrow> cell;
     let hash = unat (hof c AND (of_nat size2 - 1));
     old \<leftarrow> arr_get new_slot hash;
     c_assert (old = None);
     new_slot \<leftarrow> arr_set new_slot hash (Some c);
     rehash hof size2 cells new_slot }"

definition expand_slots :: "(ctx_id \<Rightarrow> u32) \<Rightarrow> handle_storage \<Rightarrow> handle_storage option" where
  "expand_slots hof s = do {
     c_assert (hs_slot_size s * 2 - 1 \<le> unat HANDLE_MASK);
     new_slot \<leftarrow> rehash hof (hs_slot_size s * 2) (take (hs_slot_size s) (hs_slot s))
       (replicate (hs_slot_size s * 2) None);
     Some (s\<lparr>hs_slot := new_slot, hs_slot_size := hs_slot_size s * 2\<rparr>) }"

partial_function (option) skynet_handle_register ::
    "(ctx_id \<Rightarrow> u32) \<Rightarrow> handle_storage \<Rightarrow> ctx_id \<Rightarrow> (u32 \<times> handle_storage) option" where
  "skynet_handle_register hof s ctx = do {
     r \<leftarrow> register_scan s 0;
     (case r of
        Some h \<Rightarrow> do {
          slots \<leftarrow> arr_set (hs_slot s) (slot_hash s h) (Some ctx);
          Some (h OR hs_harbor s, s\<lparr>hs_slot := slots, hs_handle_index := h + 1\<rparr>) }
      | None \<Rightarrow> do {
          s \<leftarrow> expand_slots hof s;
          skynet_handle_register hof s ctx }) }"

declare skynet_handle_register.simps [code]

subsection \<open>Lookup and retirement\<close>

text \<open>\<open>skynet_handle_grab\<close>: the context whose reference count the caller then raises.\<close>

definition skynet_handle_grab ::
    "(ctx_id \<Rightarrow> u32) \<Rightarrow> handle_storage \<Rightarrow> u32 \<Rightarrow> ctx_id option option" where
  "skynet_handle_grab hof s h = do {
     cell \<leftarrow> arr_get (hs_slot s) (slot_hash s h);
     Some (case cell of
             Some c \<Rightarrow> if hof c = h then Some c else None
           | None \<Rightarrow> None) }"

text \<open>The loop that drops the names of a retired handle and closes the gaps.\<close>

function retire_names :: "u32 \<Rightarrow> nat \<Rightarrow> nat \<Rightarrow> nat \<Rightarrow> handle_name option list \<Rightarrow>
    (nat \<times> handle_name option list) option" where
  "retire_names h n i j names =
     (if i < n
      then do {
        cell \<leftarrow> arr_get names i;
        e \<leftarrow> cell;
        (if hn_handle e = h then retire_names h n (i + 1) j names
         else do {
           names \<leftarrow> (if i \<noteq> j then arr_set names j (Some e) else Some names);
           retire_names h n (i + 1) (j + 1) names }) }
      else Some (j, names))"
  by pat_completeness auto
termination
  by (relation "measure (\<lambda>(h, n, i, j, names). n - i)") auto

declare retire_names.simps [simp del]

text \<open>\<open>skynet_handle_retire\<close>: the context that the caller has to release, if any.\<close>

definition skynet_handle_retire ::
    "(ctx_id \<Rightarrow> u32) \<Rightarrow> handle_storage \<Rightarrow> u32 \<Rightarrow> (ctx_id option \<times> handle_storage) option" where
  "skynet_handle_retire hof s h = do {
     cell \<leftarrow> arr_get (hs_slot s) (slot_hash s h);
     (case cell of
        Some c \<Rightarrow>
          if hof c = h
          then do {
            slots \<leftarrow> arr_set (hs_slot s) (slot_hash s h) None;
            (j, names) \<leftarrow> retire_names h (hs_name_count s) 0 0 (hs_name s);
            Some (Some c, s\<lparr>hs_slot := slots, hs_name := names, hs_name_count := j\<rparr>) }
          else Some (None, s)
      | None \<Rightarrow> Some (None, s)) }"

subsection \<open>Names\<close>

text \<open>The bisection shared by \<open>skynet_handle_findname\<close> and \<open>_insert_name\<close>: the handle of the
  entry with that name, or the position before which it belongs.\<close>

function name_search :: "handle_name option list \<Rightarrow> string \<Rightarrow> int \<Rightarrow> int \<Rightarrow> (int + u32) option" where
  "name_search names nm b e =
     (if b \<le> e
      then let mid = (b + e) div 2 in do {
        cell \<leftarrow> arr_get names (nat mid);
        n \<leftarrow> cell;
        let c = strcmp (hn_name n) nm;
        (if c = 0 then Some (Inr (hn_handle n))
         else if c < 0 then name_search names nm (mid + 1) e
         else name_search names nm b (mid - 1)) }
      else Some (Inl b))"
  by pat_completeness auto
termination
  by (relation "measure (\<lambda>(names, nm, b, e). nat (e + 1 - b))") auto

declare name_search.simps [simp del]

definition skynet_handle_findname :: "handle_storage \<Rightarrow> string \<Rightarrow> u32 option" where
  "skynet_handle_findname s nm = do {
     r \<leftarrow> name_search (hs_name s) nm 0 (int (hs_name_count s) - 1);
     Some (case r of Inr h \<Rightarrow> h | Inl _ \<Rightarrow> 0) }"

text \<open>The loop \<open>for (i=s->name_count;i>before;i--) s->name[i] = s->name[i-1];\<close>.\<close>

fun shift_names :: "nat \<Rightarrow> nat \<Rightarrow> handle_name option list \<Rightarrow> handle_name option list option" where
  "shift_names 0 pos names = Some names"
| "shift_names (Suc i) pos names =
     (if Suc i > pos
      then do {
        e \<leftarrow> arr_get names i;
        names \<leftarrow> arr_set names (Suc i) e;
        shift_names i pos names }
      else Some names)"

definition insert_name_before ::
    "handle_storage \<Rightarrow> string \<Rightarrow> u32 \<Rightarrow> nat \<Rightarrow> handle_storage option" where
  "insert_name_before s nm h pos = do {
     s \<leftarrow> (if hs_name_count s \<ge> hs_name_cap s
           then do {
             let cap = hs_name_cap s * 2;
             c_assert (cap \<le> MAX_SLOT_SIZE);
             let n = map (\<lambda>i. if i < pos then hs_name s ! i
                              else if pos < i \<and> i \<le> hs_name_count s then hs_name s ! (i - 1)
                              else None) [0..<cap];
             Some (s\<lparr>hs_name_cap := cap, hs_name := n\<rparr>) }
           else do {
             n \<leftarrow> shift_names (hs_name_count s) pos (hs_name s);
             Some (s\<lparr>hs_name := n\<rparr>) });
     names \<leftarrow> arr_set (hs_name s) pos (Some \<lparr>hn_name = nm, hn_handle = h\<rparr>);
     Some (s\<lparr>hs_name := names, hs_name_count := hs_name_count s + 1\<rparr>) }"

text \<open>\<open>skynet_handle_namehandle\<close>: the registered name, or \<open>None\<close> for \<open>NULL\<close> when it is taken.\<close>

definition insert_name ::
    "handle_storage \<Rightarrow> string \<Rightarrow> u32 \<Rightarrow> (string option \<times> handle_storage) option" where
  "insert_name s nm h = do {
     r \<leftarrow> name_search (hs_name s) nm 0 (int (hs_name_count s) - 1);
     (case r of
        Inr _ \<Rightarrow> Some (None, s)
      | Inl b \<Rightarrow> do { s \<leftarrow> insert_name_before s nm h (nat b); Some (Some nm, s) }) }"

definition skynet_handle_namehandle ::
    "handle_storage \<Rightarrow> u32 \<Rightarrow> string \<Rightarrow> (string option \<times> handle_storage) option" where
  "skynet_handle_namehandle s h nm = insert_name s nm h"

definition skynet_handle_init :: "int \<Rightarrow> handle_storage" where
  "skynet_handle_init harbor =
     \<lparr>hs_harbor = push_bit HANDLE_REMOTE_SHIFT (word_of_int harbor AND 0xff), hs_handle_index = 1,
      hs_slot_size = DEFAULT_SLOT_SIZE, hs_slot = replicate DEFAULT_SLOT_SIZE None,
      hs_name_cap = 2, hs_name_count = 0, hs_name = replicate 2 None\<rparr>"

subsection \<open>The table is a map from handles to contexts\<close>

definition handle_live :: "(ctx_id \<Rightarrow> u32) \<Rightarrow> handle_storage \<Rightarrow> u32 \<Rightarrow> ctx_id option" where
  "handle_live hof s h =
     (case hs_slot s ! slot_hash s h of
        Some c \<Rightarrow> if hof c = h then Some c else None
      | None \<Rightarrow> None)"

definition slots_wf :: "(ctx_id \<Rightarrow> u32) \<Rightarrow> handle_storage \<Rightarrow> bool" where
  "slots_wf hof s \<longleftrightarrow> (\<exists>k. 0 < k \<and> k \<le> 24 \<and> hs_slot_size s = 2 ^ k) \<and>
     length (hs_slot s) = hs_slot_size s \<and> hs_harbor s AND HANDLE_MASK = 0 \<and>
     (\<forall>i c. i < hs_slot_size s \<longrightarrow> hs_slot s ! i = Some c \<longrightarrow> slot_hash s (hof c) = i)"

definition has_free_slot :: "handle_storage \<Rightarrow> bool" where
  "has_free_slot s \<longleftrightarrow> None \<in> set (hs_slot s)"

lemma slot_hash_frame [simp]:
  "slot_hash (s\<lparr>hs_slot := a\<rparr>) = slot_hash s"
  "slot_hash (s\<lparr>hs_handle_index := b\<rparr>) = slot_hash s"
  "slot_hash (s\<lparr>hs_name := c\<rparr>) = slot_hash s"
  "slot_hash (s\<lparr>hs_name_count := d\<rparr>) = slot_hash s"
  "slot_hash (s\<lparr>hs_name_cap := e\<rparr>) = slot_hash s"
  by (simp_all add: fun_eq_iff slot_hash_def)

text \<open>The part of the storage that the table operations leave alone.\<close>

definition same_names :: "handle_storage \<Rightarrow> handle_storage \<Rightarrow> bool" where
  "same_names s s' \<longleftrightarrow> hs_harbor s' = hs_harbor s \<and> hs_name s' = hs_name s \<and>
     hs_name_cap s' = hs_name_cap s \<and> hs_name_count s' = hs_name_count s"

lemma HANDLE_MASK_mask: "HANDLE_MASK = mask 24"
  by (simp add: HANDLE_MASK_def mask_eq_exp_minus_1)

lemma hash_mod:
  fixes h :: u32
  shows "unat (h AND (of_nat (2 ^ k) - 1)) = unat h mod 2 ^ k"
proof -
  have "(of_nat (2 ^ k) - 1 :: u32) = mask k" by (simp add: mask_eq_exp_minus_1)
  then show ?thesis by (simp only: unat_and_mask)
qed

lemma slot_hash_mod:
  assumes "slots_wf hof s"
  shows "slot_hash s h = unat h mod hs_slot_size s"
proof -
  from assms obtain k where k: "hs_slot_size s = 2 ^ k" by (auto simp: slots_wf_def)
  show ?thesis unfolding slot_hash_def k hash_mod ..
qed

lemma slot_hash_less:
  assumes "slots_wf hof s"
  shows "slot_hash s h < length (hs_slot s)"
  using assms unfolding slot_hash_mod [OF assms] by (auto simp: slots_wf_def)

lemma grab_live:
  "slots_wf hof s \<Longrightarrow> skynet_handle_grab hof s h = Some (handle_live hof s h)"
  using slot_hash_less by (simp add: skynet_handle_grab_def c_simps handle_live_def)

lemma live_iff:
  assumes wf: "slots_wf hof s"
  shows "handle_live hof s h = Some c \<longleftrightarrow> Some c \<in> set (hs_slot s) \<and> hof c = h"
proof
  assume "handle_live hof s h = Some c"
  then have "hs_slot s ! slot_hash s h = Some c" "hof c = h"
    by (auto simp: handle_live_def split: option.splits if_splits)
  with slot_hash_less [OF wf, of h] show "Some c \<in> set (hs_slot s) \<and> hof c = h"
    by (metis nth_mem)
next
  assume *: "Some c \<in> set (hs_slot s) \<and> hof c = h"
  then obtain i where "i < length (hs_slot s)" "hs_slot s ! i = Some c" by (auto simp: in_set_conv_nth)
  with * wf show "handle_live hof s h = Some c" by (auto simp: slots_wf_def handle_live_def)
qed

text \<open>The scan visits every slot, in the order of the candidate handles.\<close>

definition candidate :: "handle_storage \<Rightarrow> nat \<Rightarrow> u32" where
  "candidate s i = (of_nat i + hs_handle_index s) AND HANDLE_MASK"

lemma candidate_mask: "candidate s i AND HANDLE_MASK = candidate s i"
  by (simp add: candidate_def ac_simps)

lemma candidate_hash:
  assumes "slots_wf hof s"
  shows "slot_hash s (candidate s i) = (i + unat (hs_handle_index s)) mod hs_slot_size s"
proof -
  from assms obtain k where k: "k \<le> 24" "hs_slot_size s = 2 ^ k" by (auto simp: slots_wf_def)
  let ?x = "of_nat i + hs_handle_index s :: u32"
  have "slot_hash s (candidate s i) = unat ?x mod 2 ^ 24 mod 2 ^ k"
    unfolding slot_hash_mod [OF assms] candidate_def HANDLE_MASK_mask unat_and_mask k(2) ..
  also have "\<dots> = unat ?x mod 2 ^ k"
    using k(1) by (intro mod_mod_cancel le_imp_power_dvd)
  also have "unat ?x mod 2 ^ k = (i + unat (hs_handle_index s)) mod 2 ^ k"
  proof -
    have "unat ?x = (i mod 2 ^ 32 + unat (hs_handle_index s)) mod 2 ^ 32"
      by (simp add: unat_word_ariths unat_of_nat)
    then have "unat ?x = (i + unat (hs_handle_index s)) mod 2 ^ 32"
      by (simp only: mod_add_left_eq)
    moreover have "(2::nat) ^ k dvd 2 ^ 32" using k(1) by (intro le_imp_power_dvd) simp
    ultimately show ?thesis by (simp only: mod_mod_cancel)
  qed
  finally show ?thesis by (simp add: k(2))
qed

lemma candidates_cover:
  assumes "slots_wf hof s" "j < hs_slot_size s"
  shows "\<exists>i < hs_slot_size s. slot_hash s (candidate s i) = j"
proof -
  let ?n = "hs_slot_size s" and ?x = "unat (hs_handle_index s)"
  let ?i = "(j + (?n - ?x mod ?n)) mod ?n"
  have "0 < ?n" using assms(2) by simp
  then have "?x mod ?n < ?n" by simp
  have "(?i + ?x) mod ?n = (j + (?n - ?x mod ?n) + ?x mod ?n) mod ?n" by (simp add: mod_simps)
  also have "\<dots> = (j + ?n) mod ?n" using \<open>?x mod ?n < ?n\<close> by (simp del: mod_add_right_eq)
  finally have "(?i + ?x) mod ?n = j" using assms(2) by simp
  moreover have "?i < ?n" using \<open>0 < ?n\<close> by simp
  ultimately show ?thesis using candidate_hash [OF assms(1)] by metis
qed

lemma register_scan_spec:
  assumes wf: "slots_wf hof s"
  shows "(\<exists>m \<ge> i. m < hs_slot_size s \<and> register_scan s i = Some (Some (candidate s m)) \<and>
      hs_slot s ! slot_hash s (candidate s m) = None) \<or>
    (register_scan s i = Some None \<and>
      (\<forall>m \<ge> i. m < hs_slot_size s \<longrightarrow> hs_slot s ! slot_hash s (candidate s m) \<noteq> None))"
proof (induction "hs_slot_size s - i" arbitrary: i)
  case 0
  then have "register_scan s i = Some None" by (subst register_scan.simps) simp
  with 0 show ?case by simp
next
  case (Suc n)
  then have i: "i < hs_slot_size s" by simp
  have eq: "register_scan s i = (if hs_slot s ! slot_hash s (candidate s i) = None
      then Some (Some (candidate s i)) else register_scan s (i + 1))"
    using i slot_hash_less [OF wf]
    by (subst register_scan.simps) (simp add: Let_def c_simps flip: candidate_def)
  show ?case
  proof (cases "hs_slot s ! slot_hash s (candidate s i) = None")
    case True
    with i eq show ?thesis by auto
  next
    case False
    have "n = hs_slot_size s - (i + 1)" using Suc.hyps(2) by simp
    from Suc.hyps(1) [OF this] False eq show ?thesis
      by (metis Suc_eq_plus1 Suc_leD le_antisym not_less_eq_eq)
  qed
qed

lemma register_scan_free:
  assumes wf: "slots_wf hof s" and free: "has_free_slot s"
  shows "\<exists>h. register_scan s 0 = Some (Some h) \<and> hs_slot s ! slot_hash s h = None \<and>
    h AND HANDLE_MASK = h"
proof -
  from free wf obtain j where "j < hs_slot_size s" "hs_slot s ! j = None"
    by (auto simp: has_free_slot_def in_set_conv_nth slots_wf_def)
  with candidates_cover [OF wf] obtain i where
    "i < hs_slot_size s" "hs_slot s ! slot_hash s (candidate s i) = None" by metis
  with register_scan_spec [OF wf, of 0] candidate_mask show ?thesis by blast
qed

lemma register_scan_full:
  assumes wf: "slots_wf hof s" and full: "\<not> has_free_slot s"
  shows "register_scan s 0 = Some None"
proof -
  have "hs_slot s ! slot_hash s h \<noteq> None" for h
    using full slot_hash_less [OF wf, of h] by (metis has_free_slot_def nth_mem)
  with register_scan_spec [OF wf, of 0] show ?thesis by blast
qed

text \<open>Doubling the table keeps every registration.\<close>

lemma rehash_spec:
  assumes h2: "\<And>c. unat (hof c AND (of_nat n2 - 1)) = h2 c"
    and "None \<notin> set cells" "\<And>c. h2 c < length new" "distinct (map (\<lambda>c. h2 (the c)) cells)"
    "\<And>c. Some c \<in> set cells \<Longrightarrow> new ! h2 c = None"
  shows "\<exists>new'. rehash hof n2 cells new = Some new' \<and> length new' = length new \<and>
    (\<forall>c. Some c \<in> set cells \<longrightarrow> new' ! h2 c = Some c) \<and>
    (\<forall>i < length new. (\<forall>c. Some c \<in> set cells \<longrightarrow> h2 c \<noteq> i) \<longrightarrow> new' ! i = new ! i)"
  using assms(2-)
proof (induction cells arbitrary: new)
  case Nil
  then show ?case by simp
next
  case (Cons cell cells)
  from Cons.prems(1) obtain c where c: "cell = Some c" by (cases cell) auto
  let ?new = "new[h2 c := Some c]"
  have eq: "rehash hof n2 (cell # cells) new = rehash hof n2 cells ?new"
    using Cons.prems(2) [of c] Cons.prems(4) [of c] c by (simp add: c_simps h2)
  have other: "h2 c' \<noteq> h2 c" if "Some c' \<in> set cells" for c'
    using Cons.prems(3) that c by (force simp: image_iff)
  have "\<exists>new'. rehash hof n2 cells ?new = Some new' \<and> length new' = length ?new \<and>
    (\<forall>c. Some c \<in> set cells \<longrightarrow> new' ! h2 c = Some c) \<and>
    (\<forall>i < length ?new. (\<forall>c. Some c \<in> set cells \<longrightarrow> h2 c \<noteq> i) \<longrightarrow> new' ! i = ?new ! i)"
    using Cons.prems other by (intro Cons.IH) (auto simp: nth_list_update_if)
  then obtain new' where new': "rehash hof n2 cells ?new = Some new'" "length new' = length new"
    "\<forall>c. Some c \<in> set cells \<longrightarrow> new' ! h2 c = Some c"
    "\<forall>i < length new. (\<forall>c. Some c \<in> set cells \<longrightarrow> h2 c \<noteq> i) \<longrightarrow> new' ! i = ?new ! i" by auto
  have "new' ! h2 c = Some c" using new'(4) other Cons.prems(2) [of c] by auto
  with eq new' c show ?case by auto
qed

text \<open>What a doubled table holds: the same contexts, each in the slot of its handle.\<close>

lemma rehash_full:
  assumes wf: "slots_wf hof s" and full: "\<not> has_free_slot s" and small: "hs_slot_size s < 2 ^ 24"
  defines "n2 \<equiv> hs_slot_size s * 2"
  shows "\<exists>new'. rehash hof n2 (hs_slot s) (replicate n2 None) = Some new' \<and> length new' = n2 \<and>
    (\<forall>i < n2. \<forall>c. new' ! i = Some c \<longleftrightarrow> Some c \<in> set (hs_slot s) \<and> unat (hof c) mod n2 = i)"
proof -
  let ?n = "hs_slot_size s" and ?cells = "hs_slot s"
  from wf obtain k where k: "0 < k" "?n = 2 ^ k" by (auto simp: slots_wf_def)
  then have n2: "n2 = 2 ^ Suc k" and pos: "0 < n2" by (simp_all add: n2_def)
  define h2 where "h2 c = unat (hof c) mod n2" for c
  have h2: "unat (hof c AND (of_nat n2 - 1)) = h2 c" for c unfolding h2_def n2 hash_mod ..
  have len: "length ?cells = ?n" using wf by (simp add: slots_wf_def)
  have nn: "None \<notin> set ?cells" using full by (simp add: has_free_slot_def)
  have "h2 (the (?cells ! i)) mod ?n = i" if "i < ?n" for i
  proof -
    from nn len that obtain c where c: "?cells ! i = Some c" by (metis nth_mem option.exhaust)
    have "h2 c mod ?n = unat (hof c) mod ?n"
      unfolding h2_def n2_def by (intro mod_mod_cancel) simp
    also have "\<dots> = i" using wf that c slot_hash_mod [OF wf] by (auto simp: slots_wf_def)
    finally show ?thesis using c by simp
  qed
  then have dist: "distinct (map (\<lambda>c. h2 (the c)) ?cells)"
    unfolding distinct_conv_nth length_map len by (metis nth_map len)
  have "h2 c < length (replicate n2 (None :: ctx_id option))"
    "replicate n2 (None :: ctx_id option) ! h2 c = None" for c
    using pos by (simp_all add: h2_def)
  note rehash_spec [OF h2 nn this(1) dist this(2)]
  then obtain new' where new': "rehash hof n2 ?cells (replicate n2 None) = Some new'"
    "length new' = n2" "\<And>c. Some c \<in> set ?cells \<Longrightarrow> new' ! h2 c = Some c"
    "\<And>i. i < n2 \<Longrightarrow> (\<forall>c. Some c \<in> set ?cells \<longrightarrow> h2 c \<noteq> i) \<Longrightarrow> new' ! i = None" by auto
  have "new' ! i = Some c \<longleftrightarrow> Some c \<in> set ?cells \<and> h2 c = i" if i: "i < n2" for i c
  proof
    assume *: "new' ! i = Some c"
    with new'(4) [OF i] obtain c' where "Some c' \<in> set ?cells" "h2 c' = i" by auto
    with new'(3) [of c'] * show "Some c \<in> set ?cells \<and> h2 c = i" by auto
  qed (use new'(3) in auto)
  with new'(1,2) show ?thesis by (auto simp: h2_def)
qed

lemma expand_slots_spec:
  assumes wf: "slots_wf hof s" and full: "\<not> has_free_slot s" and small: "hs_slot_size s < 2 ^ 24"
  shows "\<exists>s'. expand_slots hof s = Some s' \<and> slots_wf hof s' \<and> has_free_slot s' \<and>
    handle_live hof s' = handle_live hof s \<and> set (hs_slot s') \<subseteq> insert None (set (hs_slot s)) \<and>
    same_names s s'"
proof -
  let ?n = "hs_slot_size s" and ?cells = "hs_slot s"
  let ?n2 = "?n * 2"
  from wf obtain k where k: "0 < k" "?n = 2 ^ k" by (auto simp: slots_wf_def)
  with small have k24: "k < 24" using power_strict_increasing_iff [of "2::nat" k 24] by simp
  from rehash_full [OF wf full small] obtain new' where new':
    "rehash hof ?n2 ?cells (replicate ?n2 None) = Some new'" "length new' = ?n2"
    "\<And>i c. i < ?n2 \<Longrightarrow> new' ! i = Some c \<longleftrightarrow> Some c \<in> set ?cells \<and> unat (hof c) mod ?n2 = i" by blast
  let ?s = "s\<lparr>hs_slot := new', hs_slot_size := ?n2\<rparr>"
  have len: "length ?cells = ?n" using wf by (simp add: slots_wf_def)
  have hash2: "slot_hash ?s h = unat h mod ?n2" for h
  proof -
    have "?n2 = 2 ^ Suc k" using k by simp
    then show ?thesis unfolding slot_hash_def using hash_mod [of h "Suc k"] by (simp add: ac_simps)
  qed
  have "expand_slots hof s = Some ?s"
  proof -
    have "?n \<le> 2 ^ 23" unfolding k using k24 by (intro power_increasing) auto
    then have "?n2 - 1 \<le> unat HANDLE_MASK" by (simp add: HANDLE_MASK_def)
    then show ?thesis using new'(1) len by (simp add: expand_slots_def)
  qed
  moreover have wf2: "slots_wf hof ?s"
    using wf new'(2,3) k k24 hash2 unfolding slots_wf_def
    by (auto intro!: exI [of _ "Suc k"])
  moreover have same: "Some c \<in> set new' \<longleftrightarrow> Some c \<in> set ?cells" for c
  proof
    assume "Some c \<in> set new'"
    then show "Some c \<in> set ?cells" using new'(2,3) by (auto simp: in_set_conv_nth [of _ new'])
  next
    assume c: "Some c \<in> set ?cells"
    let ?i = "unat (hof c) mod ?n2"
    have i: "?i < ?n2" using k by simp
    with c new'(3) have "new' ! ?i = Some c" by blast
    with i new'(2) show "Some c \<in> set new'" by (metis nth_mem)
  qed
  have "handle_live hof ?s h = handle_live hof s h" for h
    by (rule option_eqI) (simp add: live_iff [OF wf] live_iff [OF wf2] same)
  moreover have "has_free_slot ?s"
  proof (rule ccontr)
    assume "\<not> has_free_slot ?s"
    then have some: "\<exists>c. new' ! i = Some c" if "i < ?n2" for i
      using that new'(2) by (metis has_free_slot_def handle_storage.select_convs(4)
          handle_storage.simps(15) handle_storage.surjective handle_storage.update_convs(3,4)
          not_None_eq nth_mem)
    then have "distinct new'" using new'(2,3) by (metis distinct_conv_nth)
    then have "?n2 = card (set new')" using new'(2) by (simp add: distinct_card)
    also have "\<dots> \<le> card (set ?cells)"
      using same some new'(2) by (intro card_mono) (force simp: in_set_conv_nth [of _ new'])+
    also have "\<dots> \<le> ?n" using len card_length by metis
    finally show False using k by simp
  qed
  moreover have "set new' \<subseteq> insert None (set ?cells)"
    using same by (metis insertCI not_None_eq subsetI)
  ultimately show ?thesis by (auto simp: same_names_def)
qed

text \<open>Registering in a table with a free slot.\<close>

lemma or_harbor_hash:
  fixes h harbor :: u32
  assumes "harbor AND HANDLE_MASK = 0" "k \<le> 24"
  shows "unat (h OR harbor) mod 2 ^ k = unat h mod 2 ^ k"
proof -
  have "harbor AND mask k = 0"
  proof (rule bit_word_eqI)
    fix n
    from assms(1) have "bit (harbor AND mask 24) n = bit (0 :: u32) n"
      unfolding HANDLE_MASK_mask by simp
    with assms(2) show "bit (harbor AND mask k) n = bit (0 :: u32) n"
      by (auto simp: bit_simps)
  qed
  then have "(h OR harbor) AND mask k = h AND mask k"
    by (simp add: bit.conj_disj_distrib2)
  then have "unat ((h OR harbor) AND mask k) = unat (h AND mask k)" by simp
  then show ?thesis by (simp only: unat_and_mask)
qed

lemma or_harbor_node:
  fixes h harbor :: u32
  assumes "harbor AND HANDLE_MASK = 0" "h AND HANDLE_MASK = h"
  shows "(h OR harbor) AND NOT HANDLE_MASK = harbor"
proof (rule bit_word_eqI)
  fix n assume "n < LENGTH(32)"
  with assms [THEN arg_cong, of "\<lambda>x. bit x n"]
  show "bit ((h OR harbor) AND NOT HANDLE_MASK) n = bit harbor n"
    by (auto simp: bit_and_iff bit_or_iff bit_not_iff)
qed

lemma register_free:
  assumes wf: "slots_wf hof s" and free: "has_free_slot s" and new: "Some ctx \<notin> set (hs_slot s)"
  shows "\<exists>h s'. skynet_handle_register hof s ctx = Some (h, s') \<and> handle_live hof s h = None \<and>
    slots_wf (hof(ctx := h)) s' \<and> handle_live (hof(ctx := h)) s' = (handle_live hof s)(h \<mapsto> ctx) \<and>
    same_names s s' \<and> h AND NOT HANDLE_MASK = hs_harbor s"
proof -
  from register_scan_free [OF wf free] obtain h0 where h0: "register_scan s 0 = Some (Some h0)"
    "hs_slot s ! slot_hash s h0 = None" "h0 AND HANDLE_MASK = h0" by blast
  let ?j = "slot_hash s h0" and ?h = "h0 OR hs_harbor s"
  let ?s = "s\<lparr>hs_slot := (hs_slot s)[?j := Some ctx], hs_handle_index := h0 + 1\<rparr>"
  let ?hof = "hof(ctx := ?h)"
  from wf obtain k where k: "k \<le> 24" "hs_slot_size s = 2 ^ k" and mask0: "hs_harbor s AND HANDLE_MASK = 0"
    by (auto simp: slots_wf_def)
  have j: "?j < length (hs_slot s)" by (rule slot_hash_less [OF wf])
  have hash: "slot_hash s ?h = ?j"
    using or_harbor_hash [OF mask0 k(1), of h0] unfolding slot_hash_mod [OF wf] k(2) .
  have reg: "skynet_handle_register hof s ctx = Some (?h, ?s)"
    using h0 j by (subst skynet_handle_register.simps) (simp add: c_simps)
  have fresh: "handle_live hof s ?h = None" using h0(2) hash by (simp add: handle_live_def)
  have wf2: "slots_wf ?hof ?s"
  proof -
    have "slot_hash ?s (?hof c) = i"
      if "i < hs_slot_size s" "(hs_slot s)[?j := Some ctx] ! i = Some c" for i c
    proof (cases "i = ?j")
      case True
      with that j hash show ?thesis by simp
    next
      case False
      with that have c: "hs_slot s ! i = Some c" by simp
      with new that(1) wf have "c \<noteq> ctx" by (metis nth_mem slots_wf_def)
      with c that(1) wf show ?thesis by (simp add: slots_wf_def)
    qed
    with wf show ?thesis by (simp add: slots_wf_def)
  qed
  have sets: "Some c \<in> set ((hs_slot s)[?j := Some ctx]) \<longleftrightarrow> c = ctx \<or> Some c \<in> set (hs_slot s)" for c
    using j h0(2) by (metis (no_types, lifting) in_set_conv_nth length_list_update nth_list_update_if
        option.discI option.inject)
  have "handle_live ?hof ?s x = ((handle_live hof s)(?h \<mapsto> ctx)) x" for x
  proof (rule option_eqI)
    fix c
    show "handle_live ?hof ?s x = Some c \<longleftrightarrow> ((handle_live hof s)(?h \<mapsto> ctx)) x = Some c"
      using new fresh live_iff [OF wf, of ?h c] live_iff [OF wf, of x c] live_iff [OF wf2, of x c]
      by (auto simp: sets split: if_splits)
  qed
  moreover have "?h AND NOT HANDLE_MASK = hs_harbor s" by (rule or_harbor_node [OF mask0 h0(3)])
  ultimately show ?thesis using reg fresh wf2 by (auto simp: fun_eq_iff same_names_def)
qed

lemma register_any:
  assumes wf: "slots_wf hof s" and room: "has_free_slot s \<or> hs_slot_size s < 2 ^ 24"
    and new: "Some ctx \<notin> set (hs_slot s)"
  shows "\<exists>h s'. skynet_handle_register hof s ctx = Some (h, s') \<and> handle_live hof s h = None \<and>
    slots_wf (hof(ctx := h)) s' \<and> handle_live (hof(ctx := h)) s' = (handle_live hof s)(h \<mapsto> ctx) \<and>
    same_names s s' \<and> h AND NOT HANDLE_MASK = hs_harbor s"
proof (cases "has_free_slot s")
  case True
  from register_free [OF wf True new] show ?thesis .
next
  case False
  with room have "hs_slot_size s < 2 ^ 24" by simp
  from expand_slots_spec [OF wf False this] obtain e where e: "expand_slots hof s = Some e"
    "slots_wf hof e" "has_free_slot e" "handle_live hof e = handle_live hof s"
    "set (hs_slot e) \<subseteq> insert None (set (hs_slot s))" "same_names s e" by blast
  have "skynet_handle_register hof s ctx = skynet_handle_register hof e ctx"
    using register_scan_full [OF wf False] e(1) by (subst skynet_handle_register.simps) simp
  moreover have "Some ctx \<notin> set (hs_slot e)" using e(5) new by auto
  from register_free [OF e(2,3) this] obtain h s' where
    "skynet_handle_register hof e ctx = Some (h, s')" "handle_live hof e h = None"
    "slots_wf (hof(ctx := h)) s'" "handle_live (hof(ctx := h)) s' = (handle_live hof e)(h \<mapsto> ctx)"
    "same_names e s'" "h AND NOT HANDLE_MASK = hs_harbor e" by blast
  ultimately show ?thesis using e(4,6) by (auto simp: same_names_def)
qed

text \<open>Whenever registration returns, it has found a free slot in a table of at most \<open>2 ^ 24\<close>.\<close>

lemma register_returned:
  assumes wf: "slots_wf hof s" and new: "Some ctx \<notin> set (hs_slot s)"
    and reg: "skynet_handle_register hof s ctx = Some (h, s')"
  shows "handle_live hof s h = None \<and> slots_wf (hof(ctx := h)) s' \<and>
    handle_live (hof(ctx := h)) s' = (handle_live hof s)(h \<mapsto> ctx) \<and>
    same_names s s' \<and> h AND NOT HANDLE_MASK = hs_harbor s"
proof (cases "has_free_slot s \<or> hs_slot_size s < 2 ^ 24")
  case True
  from register_any [OF wf True new] reg show ?thesis by auto
next
  case False
  then have "16777216 \<le> hs_slot_size s" by simp
  then have "\<not> hs_slot_size s * 2 - 1 \<le> 16777215" by linarith
  then have "expand_slots hof s = None" by (simp add: expand_slots_def HANDLE_MASK_def)
  with False register_scan_full [OF wf] have "skynet_handle_register hof s ctx = None"
    by (subst skynet_handle_register.simps) simp
  with reg show ?thesis by simp
qed

subsection \<open>The name array is a sorted map\<close>

definition name_entries :: "handle_storage \<Rightarrow> handle_name list" where
  "name_entries s = map the (take (hs_name_count s) (hs_name s))"

definition names_wf :: "handle_storage \<Rightarrow> bool" where
  "names_wf s \<longleftrightarrow> 0 < hs_name_cap s \<and> hs_name_count s \<le> hs_name_cap s \<and>
     length (hs_name s) = hs_name_cap s \<and> None \<notin> set (take (hs_name_count s) (hs_name s)) \<and>
     sorted_wrt (<) (map hn_name (name_entries s))"

text \<open>The abstract map from names to handles.\<close>

definition names_map :: "handle_storage \<Rightarrow> string \<Rightarrow> u32 option" where
  "names_map s = map_of (map (\<lambda>e. (hn_name e, hn_handle e)) (name_entries s))"

lemma strcmp_eq_0: "strcmp a b = 0 \<longleftrightarrow> a = b"
  by (induction a b rule: strcmp.induct) auto

lemma strcmp_less_0: "strcmp a b < 0 \<longleftrightarrow> a < b"
  by (induction a b rule: strcmp.induct) (auto simp: less_char_def)

lemma length_name_entries: "names_wf s \<Longrightarrow> length (name_entries s) = hs_name_count s"
  by (simp add: names_wf_def name_entries_def)

lemma name_entries_nth:
  assumes "names_wf s" "i < hs_name_count s"
  shows "hs_name s ! i = Some (name_entries s ! i)" "i < length (hs_name s)"
proof -
  have "take (hs_name_count s) (hs_name s) ! i \<in> set (take (hs_name_count s) (hs_name s))"
    using assms by (intro nth_mem) (simp add: names_wf_def)
  then have "hs_name s ! i \<noteq> None" using assms by (metis names_wf_def nth_take)
  then show "hs_name s ! i = Some (name_entries s ! i)"
    using assms by (auto simp: names_wf_def name_entries_def)
  show "i < length (hs_name s)" using assms by (simp add: names_wf_def)
qed

text \<open>The bisection finds the entry or the insertion point.\<close>

lemma sorted_wrt_lessD:
  "sorted_wrt (<) (xs :: 'a::linorder list) \<Longrightarrow> i \<le> j \<Longrightarrow> j < length xs \<Longrightarrow> xs ! i \<le> xs ! j"
  by (cases "i = j") (simp_all add: sorted_wrt_iff_nth_less less_imp_le)

definition search_result :: "handle_name list \<Rightarrow> string \<Rightarrow> int + u32 \<Rightarrow> bool" where
  "search_result es nm r \<longleftrightarrow>
     (case r of
        Inr h \<Rightarrow> \<exists>i < length es. hn_name (es ! i) = nm \<and> hn_handle (es ! i) = h
      | Inl b \<Rightarrow> 0 \<le> b \<and> b \<le> int (length es) \<and>
          (\<forall>i < nat b. hn_name (es ! i) < nm) \<and>
          (\<forall>i. nat b \<le> i \<longrightarrow> i < length es \<longrightarrow> nm < hn_name (es ! i)))"

lemma name_search_spec:
  assumes wf: "names_wf s" and "0 \<le> b" "b \<le> e + 1" "e < int (hs_name_count s)"
    and lo: "\<forall>i < nat b. hn_name (name_entries s ! i) < nm"
    and hi: "\<forall>i. nat (e + 1) \<le> i \<longrightarrow> i < hs_name_count s \<longrightarrow> nm < hn_name (name_entries s ! i)"
  shows "\<exists>r. name_search (hs_name s) nm b e = Some r \<and> search_result (name_entries s) nm r"
  using assms(2-)
proof (induction "nat (e + 1 - b)" arbitrary: b e rule: less_induct)
  case less
  let ?es = "name_entries s" and ?mid = "(b + e) div 2"
  note len = length_name_entries [OF wf]
  have sorted: "i \<le> j \<Longrightarrow> j < hs_name_count s \<Longrightarrow> hn_name (?es ! i) \<le> hn_name (?es ! j)" for i j
    using sorted_wrt_lessD [of "map hn_name ?es" i j] wf len by (simp add: names_wf_def)
  show ?case
  proof (cases "b \<le> e")
    case False
    with less.prems have "b = e + 1" by simp
    with less.prems len have "search_result ?es nm (Inl b)" by (simp add: search_result_def)
    with False show ?thesis by (subst name_search.simps) simp
  next
    case True
    then have mid: "b \<le> ?mid" "?mid \<le> e" by linarith+
    with less.prems have m: "nat ?mid < hs_name_count s" by linarith
    let ?n = "?es ! nat ?mid"
    let ?c = "strcmp (hn_name ?n) nm"
    have eq: "name_search (hs_name s) nm b e =
        (if ?c = 0 then Some (Inr (hn_handle ?n))
         else if ?c < 0 then name_search (hs_name s) nm (?mid + 1) e
         else name_search (hs_name s) nm b (?mid - 1))"
      using True name_entries_nth [OF wf m]
      by (subst name_search.simps) (simp add: Let_def c_simps)
    consider "?c = 0" | "?c < 0" | "?c > 0" by linarith
    then show ?thesis
    proof cases
      case 1
      with eq m len show ?thesis
        by (auto simp: search_result_def strcmp_eq_0)
    next
      case 2
      have "\<exists>r. name_search (hs_name s) nm (?mid + 1) e = Some r \<and> search_result ?es nm r"
      proof (rule less.hyps)
        show "\<forall>i < nat (?mid + 1). hn_name (?es ! i) < nm"
        proof (intro allI impI)
          fix i assume "i < nat (?mid + 1)"
          then have "i \<le> nat ?mid" by linarith
          from sorted [OF this m] 2 show "hn_name (?es ! i) < nm" by (simp add: strcmp_less_0)
        qed
      qed (use less.prems mid in auto)
      with 2 eq show ?thesis by simp
    next
      case 3
      have gt: "nm < hn_name ?n"
        using 3 strcmp_less_0 [of "hn_name ?n" nm] strcmp_eq_0 [of "hn_name ?n" nm] by force
      have "\<exists>r. name_search (hs_name s) nm b (?mid - 1) = Some r \<and> search_result ?es nm r"
      proof (rule less.hyps)
        show "\<forall>i. nat (?mid - 1 + 1) \<le> i \<longrightarrow> i < hs_name_count s \<longrightarrow> nm < hn_name (?es ! i)"
          using sorted gt by (metis (no_types, opaque_lifting) diff_add_cancel order_less_le_trans)
      qed (use less.prems mid in auto)
      with 3 eq show ?thesis by simp
    qed
  qed
qed

lemma name_search_all:
  assumes "names_wf s"
  shows "\<exists>r. name_search (hs_name s) nm 0 (int (hs_name_count s) - 1) = Some r \<and>
    search_result (name_entries s) nm r"
  by (rule name_search_spec [OF assms]) auto

lemma search_result_map:
  assumes wf: "names_wf s" and r: "search_result (name_entries s) nm r"
  shows "names_map s nm = (case r of Inr h \<Rightarrow> Some h | Inl _ \<Rightarrow> None)"
proof -
  let ?es = "name_entries s"
  have dist: "distinct (map fst (map (\<lambda>e. (hn_name e, hn_handle e)) ?es))"
    using wf by (simp add: names_wf_def o_def strict_sorted_iff)
  show ?thesis
  proof (cases r)
    case (Inr h)
    with r obtain i where "i < length ?es" "hn_name (?es ! i) = nm" "hn_handle (?es ! i) = h"
      by (auto simp: search_result_def)
    moreover from this(1) have "(hn_name (?es ! i), hn_handle (?es ! i)) \<in>
        (\<lambda>e. (hn_name e, hn_handle e)) ` set ?es" by (intro imageI nth_mem)
    ultimately have "(nm, h) \<in> set (map (\<lambda>e. (hn_name e, hn_handle e)) ?es)" by simp
    with map_of_is_SomeI [OF dist] Inr show ?thesis by (simp add: names_map_def)
  next
    case (Inl b)
    have "hn_name e \<noteq> nm" if "e \<in> set ?es" for e
    proof -
      from that obtain i where "i < length ?es" "?es ! i = e" by (auto simp: in_set_conv_nth)
      with r Inl show ?thesis by (cases "i < nat b") (auto simp: search_result_def not_less)
    qed
    then have "nm \<notin> fst ` set (map (\<lambda>e. (hn_name e, hn_handle e)) ?es)" by force
    then have "names_map s nm = None" unfolding names_map_def map_of_eq_None_iff .
    with Inl show ?thesis by simp
  qed
qed

lemma shift_names_spec:
  assumes "before \<le> i" "i < length names"
  shows "\<exists>names'. shift_names i before names = Some names' \<and> length names' = length names \<and>
    (\<forall>j < length names. names' ! j = (if before < j \<and> j \<le> i then names ! (j - 1) else names ! j))"
  using assms
proof (induction i arbitrary: names)
  case 0
  then show ?case by auto
next
  case (Suc i)
  show ?case
  proof (cases "Suc i > before")
    case False
    with Suc.prems show ?thesis by auto
  next
    case True
    let ?n = "names[Suc i := names ! i]"
    have "shift_names (Suc i) before names = shift_names i before ?n"
      using True Suc.prems by (simp add: c_simps)
    moreover from Suc.IH [of ?n] True Suc.prems obtain names' where
      "shift_names i before ?n = Some names'" "length names' = length names"
      "\<forall>j < length names. names' ! j = (if before < j \<and> j \<le> i then ?n ! (j - 1) else ?n ! j)" by auto
    ultimately show ?thesis
      using True Suc.prems by (intro exI [of _ names']) (auto simp: nth_list_update_if le_Suc_eq)
  qed
qed

definition name_room :: "handle_storage \<Rightarrow> bool" where
  "name_room s \<longleftrightarrow> hs_name_count s < hs_name_cap s \<or> hs_name_cap s * 2 \<le> MAX_SLOT_SIZE"

text \<open>The fields of the slot table, which the name operations leave alone.\<close>

definition same_slots :: "handle_storage \<Rightarrow> handle_storage \<Rightarrow> bool" where
  "same_slots s s' \<longleftrightarrow> hs_harbor s' = hs_harbor s \<and> hs_handle_index s' = hs_handle_index s \<and>
     hs_slot_size s' = hs_slot_size s \<and> hs_slot s' = hs_slot s"

lemma insert_name_before_spec:
  assumes wf: "names_wf s" and room: "name_room s" and before: "before \<le> hs_name_count s"
  shows "\<exists>s'. insert_name_before s nm h before = Some s' \<and> same_slots s s' \<and>
    0 < hs_name_cap s' \<and> hs_name_count s' = Suc (hs_name_count s) \<and>
    hs_name_count s' \<le> hs_name_cap s' \<and> length (hs_name s') = hs_name_cap s' \<and>
    (\<forall>j \<le> hs_name_count s. hs_name s' ! j = Some
       (if j < before then name_entries s ! j
        else if j = before then \<lparr>hn_name = nm, hn_handle = h\<rparr> else name_entries s ! (j - 1)))"
proof -
  let ?n = "hs_name_count s" and ?new = "Some \<lparr>hn_name = nm, hn_handle = h\<rparr>"
  from wf have cap: "0 < hs_name_cap s" "?n \<le> hs_name_cap s" "length (hs_name s) = hs_name_cap s"
    by (simp_all add: names_wf_def)
  note ent = name_entries_nth(1) [OF wf]
  show ?thesis
  proof (cases "?n < hs_name_cap s")
    case True
    with shift_names_spec [OF before, of "hs_name s"] cap obtain names' where n:
      "shift_names ?n before (hs_name s) = Some names'" "length names' = hs_name_cap s"
      "\<forall>j < hs_name_cap s. names' ! j =
        (if before < j \<and> j \<le> ?n then hs_name s ! (j - 1) else hs_name s ! j)" by auto
    let ?s = "s\<lparr>hs_name := names'[before := ?new], hs_name_count := ?n + 1\<rparr>"
    have "insert_name_before s nm h before = Some ?s"
      using True n before by (simp add: insert_name_before_def c_simps)
    with True n before cap ent show ?thesis
      by (intro exI [of _ ?s]) (auto simp: same_slots_def nth_list_update_if)
  next
    case False
    with room cap have grow: "hs_name_cap s * 2 \<le> MAX_SLOT_SIZE" and n: "?n = hs_name_cap s"
      by (auto simp: name_room_def)
    let ?m = "map (\<lambda>i. if i < before then hs_name s ! i
        else if before < i \<and> i \<le> ?n then hs_name s ! (i - 1) else None) [0..<hs_name_cap s * 2]"
    let ?s = "s\<lparr>hs_name_cap := hs_name_cap s * 2, hs_name := ?m[before := ?new],
      hs_name_count := ?n + 1\<rparr>"
    have "insert_name_before s nm h before = Some ?s"
      using False grow before cap by (simp add: insert_name_before_def c_simps Let_def)
    with n before cap ent show ?thesis
      by (intro exI [of _ ?s]) (auto simp: same_slots_def nth_list_update_if)
  qed
qed

lemma map_of_insert_at:
  assumes "map_of (xs @ ys) k = None"
  shows "map_of (xs @ (k, v) # ys) = (map_of (xs @ ys))(k \<mapsto> v)"
proof -
  from assms have "map_of xs k = None" by (simp add: map_add_None)
  then show ?thesis by (simp add: map_add_upd_left fun_eq_iff map_add_def dom_def split: option.split)
qed

lemma insert_name_spec:
  assumes wf: "names_wf s" and room: "name_room s" and new: "names_map s nm = None"
  shows "\<exists>s'. insert_name s nm h = Some (Some nm, s') \<and> names_wf s' \<and> same_slots s s' \<and>
    names_map s' = (names_map s)(nm \<mapsto> h)"
proof -
  let ?es = "name_entries s" and ?e = "\<lparr>hn_name = nm, hn_handle = h\<rparr>"
  note len = length_name_entries [OF wf]
  from name_search_all [OF wf, of nm] obtain r where r:
    "name_search (hs_name s) nm 0 (int (hs_name_count s) - 1) = Some r" "search_result ?es nm r" by blast
  with search_result_map [OF wf r(2)] new obtain b where b: "r = Inl b" by (cases r) auto
  with r(2) len have lo: "nat b \<le> hs_name_count s" "\<And>i. i < nat b \<Longrightarrow> hn_name (?es ! i) < nm"
    "\<And>i. nat b \<le> i \<Longrightarrow> i < hs_name_count s \<Longrightarrow> nm < hn_name (?es ! i)"
    by (auto simp: search_result_def)
  from insert_name_before_spec [OF wf room lo(1), of nm h] obtain s' where s':
    "insert_name_before s nm h (nat b) = Some s'" "same_slots s s'" "0 < hs_name_cap s'"
    "hs_name_count s' = Suc (hs_name_count s)" "hs_name_count s' \<le> hs_name_cap s'"
    "length (hs_name s') = hs_name_cap s'"
    "\<forall>j \<le> hs_name_count s. hs_name s' ! j = Some
       (if j < nat b then ?es ! j else if j = nat b then ?e else ?es ! (j - 1))" by blast
  have ent: "name_entries s' = take (nat b) ?es @ ?e # drop (nat b) ?es"
  proof (rule nth_equalityI)
    show "length (name_entries s') = length (take (nat b) ?es @ ?e # drop (nat b) ?es)"
      using s'(4-6) lo(1) len by (simp add: name_entries_def)
    fix j assume "j < length (name_entries s')"
    then have j: "j \<le> hs_name_count s" using s'(4-6) by (simp add: name_entries_def)
    then have "name_entries s' ! j =
        (if j < nat b then ?es ! j else if j = nat b then ?e else ?es ! (j - 1))"
      using s'(4-7) by (simp add: name_entries_def [of s'])
    with j lo(1) len show "name_entries s' ! j = (take (nat b) ?es @ ?e # drop (nat b) ?es) ! j"
      by (auto simp: nth_append nth_Cons')
  qed
  have "None \<notin> set (take (hs_name_count s') (hs_name s'))"
    using s'(4,7) by (auto simp: in_set_conv_nth)
  moreover have "sorted_wrt (<) (map hn_name (name_entries s'))"
  proof -
    have "sorted_wrt (<) (map hn_name (take (nat b) ?es @ drop (nat b) ?es))"
      using wf by (simp add: names_wf_def)
    moreover have "\<forall>x \<in> set (take (nat b) ?es). hn_name x < nm"
      using lo(2) by (auto simp: in_set_conv_nth)
    moreover have "\<forall>x \<in> set (drop (nat b) ?es). nm < hn_name x"
      using lo(3) len by (auto simp: in_set_conv_nth)
    ultimately show ?thesis unfolding ent map_append sorted_wrt_append by auto
  qed
  ultimately have "names_wf s'" using s' by (simp add: names_wf_def)
  moreover have "names_map s' = (names_map s)(nm \<mapsto> h)"
  proof -
    let ?f = "\<lambda>e. (hn_name e, hn_handle e)"
    have 1: "names_map s = map_of (map ?f (take (nat b) ?es) @ map ?f (drop (nat b) ?es))"
      unfolding names_map_def by (simp only: append_take_drop_id flip: map_append)
    have 2: "names_map s' = map_of (map ?f (take (nat b) ?es) @ (nm, h) # map ?f (drop (nat b) ?es))"
      unfolding names_map_def ent by simp
    show ?thesis unfolding 1 2 by (rule map_of_insert_at) (use new in \<open>simp only: 1\<close>)
  qed
  ultimately show ?thesis using s' r b by (auto simp: insert_name_def)
qed

text \<open>Retiring drops exactly the names of the handle.\<close>

lemma retire_names_spec:
  assumes "i \<le> n" "n \<le> length names" "j \<le> i" "None \<notin> set (take n names)"
  shows "\<exists>j' names'. retire_names h n i j names = Some (j', names') \<and> length names' = length names \<and>
    take j' names' = take j names @
      filter (\<lambda>e. hn_handle (the e) \<noteq> h) (drop i (take n names)) \<and>
    j' = j + length (filter (\<lambda>e. hn_handle (the e) \<noteq> h) (drop i (take n names)))"
  using assms
proof (induction "n - i" arbitrary: i j names)
  case 0
  then have "i = n" by simp
  with 0 show ?case by (subst retire_names.simps) auto
next
  case (Suc m)
  then have i: "i < n" by simp
  with Suc.prems have mem: "names ! i \<in> set (take n names)"
    by (metis in_set_conv_nth length_take min.absorb2 nth_take)
  with Suc.prems(4) obtain e where e: "names ! i = Some e" by (metis option.exhaust)
  have drop: "drop i (take n names) = Some e # drop (i + 1) (take n names)"
    using i Suc.prems(2) e by (metis Cons_nth_drop_Suc Suc_eq_plus1 length_take min.absorb2 nth_take)
  show ?case
  proof (cases "hn_handle e = h")
    case True
    have "retire_names h n i j names = retire_names h n (i + 1) j names"
      using i e True Suc.prems(2) by (subst retire_names.simps) (simp add: c_simps)
    moreover have "m = n - (i + 1)" using Suc.hyps(2) by simp
    note Suc.hyps(1) [OF this, of names j]
    ultimately show ?thesis using i Suc.prems True by (simp add: drop)
  next
    case False
    let ?names = "names[j := Some e]"
    have step: "retire_names h n i j names = retire_names h n (i + 1) (j + 1) ?names"
      using i e False Suc.prems(2,3)
      by (subst retire_names.simps) (auto simp: c_simps list_update_same_conv [THEN iffD2])
    have "m = n - (i + 1)" using Suc.hyps(2) by simp
    moreover have "None \<notin> set (take n ?names)"
      using Suc.prems i
      by (auto simp: take_update_swap dest: set_update_subset_insert [THEN subsetD])
    moreover have "drop (i + 1) (take n ?names) = drop (i + 1) (take n names)"
      using Suc.prems(3) by (simp add: take_update_swap drop_update_cancel)
    moreover have "take (j + 1) ?names = take j names @ [Some e]"
      using Suc.prems i by (simp add: take_Suc_conv_app_nth)
    ultimately show ?thesis
      using Suc.hyps(1) [of "i + 1" ?names "j + 1"] Suc.prems i False
      unfolding step by (simp add: drop)
  qed
qed

lemma retire_names_entries:
  assumes "names_wf s"
  shows "\<exists>j names. retire_names h (hs_name_count s) 0 0 (hs_name s) = Some (j, names) \<and>
    length names = hs_name_cap s \<and> j \<le> hs_name_count s \<and> None \<notin> set (take j names) \<and>
    map the (take j names) = filter (\<lambda>e. hn_handle e \<noteq> h) (name_entries s)"
proof -
  let ?l = "take (hs_name_count s) (hs_name s)"
  let ?f = "filter (\<lambda>e. hn_handle (the e) \<noteq> h) ?l"
  from assms retire_names_spec [of 0 "hs_name_count s" "hs_name s" 0 h] obtain j names where
    r: "retire_names h (hs_name_count s) 0 0 (hs_name s) = Some (j, names)"
    "length names = hs_name_cap s" "take j names = ?f" "j = length ?f"
    by (auto simp: names_wf_def)
  moreover have "length ?f \<le> hs_name_count s" using length_filter_le [of _ ?l] by (simp add: le_trans)
  moreover have "None \<notin> set ?f" using assms by (simp add: names_wf_def)
  moreover have "map the ?f = filter (\<lambda>e. hn_handle e \<noteq> h) (name_entries s)"
    by (simp add: name_entries_def filter_map o_def)
  ultimately show ?thesis by auto
qed

lemma map_of_filter_value:
  assumes "distinct (map fst xs)"
  shows "map_of (filter (\<lambda>x. P (snd x)) xs) k =
    (case map_of xs k of Some v \<Rightarrow> if P v then Some v else None | None \<Rightarrow> None)"
  using assms
proof (induction xs)
  case (Cons x xs)
  have "map_of xs (fst x) = None" using Cons.prems by (simp add: map_of_eq_None_iff)
  with Cons show ?case by (auto split: option.splits)
qed simp

lemma retire_spec:
  assumes sw: "slots_wf hof s" and nw: "names_wf s"
  shows "\<exists>s'. skynet_handle_retire hof s h = Some (handle_live hof s h, s') \<and>
    slots_wf hof s' \<and> names_wf s' \<and> handle_live hof s' = (handle_live hof s)(h := None) \<and>
    (handle_live hof s h \<noteq> None \<longrightarrow> names_map s' = (\<lambda>nm. case names_map s nm of
       Some x \<Rightarrow> if x = h then None else Some x | None \<Rightarrow> None)) \<and>
    (handle_live hof s h = None \<longrightarrow> s' = s)"
proof (cases "handle_live hof s h")
  case None
  then show ?thesis
    using sw nw slot_hash_less [OF sw, of h]
    by (auto simp: skynet_handle_retire_def c_simps handle_live_def fun_eq_iff
        split: option.splits if_splits)
next
  case (Some c)
  let ?j = "slot_hash s h"
  from Some have c: "hs_slot s ! ?j = Some c" "hof c = h"
    by (auto simp: handle_live_def split: option.splits if_splits)
  from retire_names_entries [OF nw, of h] obtain j names where n:
    "retire_names h (hs_name_count s) 0 0 (hs_name s) = Some (j, names)"
    "length names = hs_name_cap s" "j \<le> hs_name_count s" "None \<notin> set (take j names)"
    "map the (take j names) = filter (\<lambda>e. hn_handle e \<noteq> h) (name_entries s)" by blast
  let ?s = "s\<lparr>hs_slot := (hs_slot s)[?j := None], hs_name := names, hs_name_count := j\<rparr>"
  have j: "?j < length (hs_slot s)" by (rule slot_hash_less [OF sw])
  have "skynet_handle_retire hof s h = Some (Some c, ?s)"
    using c j n by (simp add: skynet_handle_retire_def c_simps)
  moreover have "slots_wf hof ?s"
    using sw j by (auto simp: slots_wf_def nth_list_update_if split: if_splits)
  moreover have ent: "name_entries ?s = filter (\<lambda>e. hn_handle e \<noteq> h) (name_entries s)"
    using n by (simp add: name_entries_def)
  have nw2: "names_wf ?s"
    using nw n sorted_wrt_filter by (simp add: names_wf_def ent) (simp add: sorted_wrt_map sorted_wrt_filter)
  moreover have "handle_live hof ?s x = ((handle_live hof s)(h := None)) x" for x
  proof (cases "slot_hash s x = ?j")
    case True
    then have "handle_live hof ?s x = None" using j by (simp add: handle_live_def)
    moreover have "x \<noteq> h \<Longrightarrow> handle_live hof s x = None" using True c by (simp add: handle_live_def)
    ultimately show ?thesis by simp
  next
    case False
    then show ?thesis by (auto simp: handle_live_def)
  qed
  moreover have "names_map ?s nm = (case names_map s nm of
      Some x \<Rightarrow> if x = h then None else Some x | None \<Rightarrow> None)" for nm
  proof -
    let ?l = "map (\<lambda>e. (hn_name e, hn_handle e)) (name_entries s)"
    have "distinct (map fst ?l)" using nw by (simp add: names_wf_def o_def strict_sorted_iff)
    from map_of_filter_value [OF this, of "\<lambda>x. x \<noteq> h" nm] show ?thesis
      unfolding names_map_def ent by (auto simp: filter_map o_def split: option.splits)
  qed
  ultimately show ?thesis using Some by (auto simp: fun_eq_iff)
qed

text \<open>Naming keeps the two invariants and the table, also when the name is taken.\<close>

lemma namehandle_returned:
  assumes wf: "names_wf s" and ret: "skynet_handle_namehandle s h nm = Some (r, s')"
  shows "names_wf s' \<and> same_slots s s'"
proof -
  from name_search_all [OF wf, of nm] obtain res where res:
    "name_search (hs_name s) nm 0 (int (hs_name_count s) - 1) = Some res" "search_result (name_entries s) nm res"
    by blast
  show ?thesis
  proof (cases "names_map s nm")
    case None
    show ?thesis
    proof (cases "name_room s")
      case True
      from insert_name_spec [OF wf True None, of h] ret show ?thesis by (auto simp: skynet_handle_namehandle_def)
    next
      case False
      with search_result_map [OF wf res(2)] None obtain b where "res = Inl b" by (cases res) auto
      moreover have "insert_name_before s nm h (nat b) = None"
        using False by (simp add: insert_name_before_def name_room_def c_assert_def)
      ultimately show ?thesis using ret res(1) by (simp add: skynet_handle_namehandle_def insert_name_def)
    qed
  next
    case (Some x)
    with search_result_map [OF wf res(2)] obtain y where "res = Inr y" by (cases res) auto
    with ret res(1) have "s' = s" by (simp add: skynet_handle_namehandle_def insert_name_def)
    with wf show ?thesis by (simp add: same_slots_def)
  qed
qed

subsection \<open>The registry refines a pair of maps\<close>

text \<open>The registry with the handles stored in its contexts: the caller of
  \<open>skynet_handle_register\<close> writes the handle into the context.\<close>

record registry =
  reg_hof :: "ctx_id \<Rightarrow> u32"
  reg_store :: handle_storage

datatype registry_op =
    Register ctx_id
  | Retire u32
  | Name u32 string

fun registry_step :: "registry_op \<Rightarrow> registry \<Rightarrow> registry option" where
  "registry_step (Register c) r = do {
     (h, s) \<leftarrow> skynet_handle_register (reg_hof r) (reg_store r) c;
     Some \<lparr>reg_hof = (reg_hof r)(c := h), reg_store = s\<rparr> }"
| "registry_step (Retire h) r = do {
     (c, s) \<leftarrow> skynet_handle_retire (reg_hof r) (reg_store r) h;
     Some (r\<lparr>reg_store := s\<rparr>) }"
| "registry_step (Name h nm) r = do {
     (res, s) \<leftarrow> skynet_handle_namehandle (reg_store r) h nm;
     Some (r\<lparr>reg_store := s\<rparr>) }"

text \<open>A context is registered once, while one of the 2^24 handles is free, and the name array may
  still double.\<close>

fun registry_ok :: "registry_op \<Rightarrow> registry \<Rightarrow> bool" where
  "registry_ok (Register c) r \<longleftrightarrow> Some c \<notin> set (hs_slot (reg_store r)) \<and>
     (has_free_slot (reg_store r) \<or> hs_slot_size (reg_store r) < 2 ^ 24)"
| "registry_ok (Retire h) r \<longleftrightarrow> True"
| "registry_ok (Name h nm) r \<longleftrightarrow> name_room (reg_store r)"

definition registry_wf :: "registry \<Rightarrow> bool" where
  "registry_wf r \<longleftrightarrow> slots_wf (reg_hof r) (reg_store r) \<and> names_wf (reg_store r) \<and>
     (\<forall>h c. handle_live (reg_hof r) (reg_store r) h = Some c \<longrightarrow>
        h AND NOT HANDLE_MASK = hs_harbor (reg_store r))"

text \<open>The abstract registry: the node, the live contexts and the names.\<close>

type_synonym registry_spec = "u32 \<times> (u32 \<rightharpoonup> ctx_id) \<times> (string \<rightharpoonup> u32)"

definition registry_abs :: "registry \<Rightarrow> registry_spec" where
  "registry_abs r = (hs_harbor (reg_store r), handle_live (reg_hof r) (reg_store r),
     names_map (reg_store r))"

inductive registry_spec_step :: "registry_op \<Rightarrow> registry_spec \<Rightarrow> registry_spec \<Rightarrow> bool" where
  register: "live h = None \<Longrightarrow> c \<notin> ran live \<Longrightarrow> h AND NOT HANDLE_MASK = harbor \<Longrightarrow>
    registry_spec_step (Register c) (harbor, live, names) (harbor, live(h \<mapsto> c), names)"
| retire: "live h = Some c \<Longrightarrow>
    registry_spec_step (Retire h) (harbor, live, names)
      (harbor, live(h := None), \<lambda>nm. if names nm = Some h then None else names nm)"
| retire_dead: "live h = None \<Longrightarrow>
    registry_spec_step (Retire h) (harbor, live, names) (harbor, live, names)"
| name: "names nm = None \<Longrightarrow>
    registry_spec_step (Name h nm) (harbor, live, names) (harbor, live, names(nm \<mapsto> h))"
| name_taken: "names nm = Some h' \<Longrightarrow>
    registry_spec_step (Name h nm) (harbor, live, names) (harbor, live, names)"

lemma live_ran:
  "slots_wf hof s \<Longrightarrow> Some c \<notin> set (hs_slot s) \<Longrightarrow> c \<notin> ran (handle_live hof s)"
  by (auto simp: ran_def live_iff)

lemma same_names_map: "same_names s s' \<Longrightarrow> names_map s' = names_map s \<and> names_wf s' = names_wf s"
  by (simp add: same_names_def names_map_def name_entries_def names_wf_def)

lemma same_slots_live:
  "same_slots s s' \<Longrightarrow> handle_live hof s' = handle_live hof s \<and> slots_wf hof s' = slots_wf hof s"
  by (simp add: same_slots_def handle_live_def slots_wf_def slot_hash_def fun_eq_iff)

lemma retire_harbor:
  "skynet_handle_retire hof s h = Some (c, s') \<Longrightarrow> hs_harbor s' = hs_harbor s"
  by (auto simp: skynet_handle_retire_def bind_eq_Some_conv split: option.splits if_splits)

lemma namehandle_taken:
  assumes "names_wf s" "names_map s nm = Some h'"
  shows "skynet_handle_namehandle s h nm = Some (None, s)"
proof -
  from name_search_all [OF assms(1), of nm] obtain r where r:
    "name_search (hs_name s) nm 0 (int (hs_name_count s) - 1) = Some r"
    "search_result (name_entries s) nm r" by blast
  with search_result_map [OF assms(1) r(2)] assms(2) obtain h'' where "r = Inr h''"
    by (cases r) auto
  with r show ?thesis by (simp add: skynet_handle_namehandle_def insert_name_def)
qed

lemma registry_step_refines:
  assumes "registry_wf r" "registry_ok op r"
  shows "\<exists>r'. registry_step op r = Some r' \<and> registry_wf r' \<and>
    registry_spec_step op (registry_abs r) (registry_abs r')"
proof -
  obtain hof s where r: "r = \<lparr>reg_hof = hof, reg_store = s\<rparr>" by (cases r) auto
  from assms(1) have wf: "slots_wf hof s" "names_wf s"
    and node: "\<And>h c. handle_live hof s h = Some c \<Longrightarrow> h AND NOT HANDLE_MASK = hs_harbor s"
    by (auto simp: registry_wf_def r)
  show ?thesis
  proof (cases op)
    case (Register c)
    with assms(2) have new: "Some c \<notin> set (hs_slot s)" by (simp add: r)
    from register_any [OF wf(1) _ this] assms(2) Register obtain h s' where h:
      "skynet_handle_register hof s c = Some (h, s')" "handle_live hof s h = None"
      "slots_wf (hof(c := h)) s'" "handle_live (hof(c := h)) s' = (handle_live hof s)(h \<mapsto> c)"
      "same_names s s'" "h AND NOT HANDLE_MASK = hs_harbor s" by (auto simp: r)
    let ?r = "\<lparr>reg_hof = hof(c := h), reg_store = s'\<rparr>"
    have hb: "hs_harbor s' = hs_harbor s" using h(5) by (simp add: same_names_def)
    have "registry_step op r = Some ?r" using h(1) by (simp add: r Register)
    moreover have "registry_wf ?r"
      using h(3,6) node wf(2) same_names_map [OF h(5)] by (auto simp: registry_wf_def h(4) hb)
    moreover have "registry_spec_step op (registry_abs r) (registry_abs ?r)"
    proof -
      have "registry_abs ?r = (hs_harbor s, (handle_live hof s)(h \<mapsto> c), names_map s)"
        unfolding registry_abs_def registry.simps h(4) hb using same_names_map [OF h(5)] by simp
      moreover have "registry_abs r = (hs_harbor s, handle_live hof s, names_map s)"
        by (simp add: registry_abs_def r)
      ultimately show ?thesis
        using registry_spec_step.register [OF h(2) live_ran [OF wf(1) new] h(6)]
        by (simp only: Register)
    qed
    ultimately show ?thesis by blast
  next
    case (Retire h)
    from retire_spec [OF wf, of h] obtain s' where s':
      "skynet_handle_retire hof s h = Some (handle_live hof s h, s')" "slots_wf hof s'" "names_wf s'"
      "handle_live hof s' = (handle_live hof s)(h := None)"
      "handle_live hof s h \<noteq> None \<longrightarrow> names_map s' = (\<lambda>nm. case names_map s nm of
         Some x \<Rightarrow> if x = h then None else Some x | None \<Rightarrow> None)"
      "handle_live hof s h = None \<longrightarrow> s' = s" by (elim exE conjE)
    have "registry_spec_step (Retire h) (hs_harbor s, handle_live hof s, names_map s)
        (hs_harbor s', handle_live hof s', names_map s')"
    proof (cases "handle_live hof s h")
      case None
      with s'(6) registry_spec_step.retire_dead [of "handle_live hof s", OF None] show ?thesis by simp
    next
      case (Some c)
      have "names_map s' = (\<lambda>nm. if names_map s nm = Some h then None else names_map s nm)"
        using s'(5) Some by (auto simp: fun_eq_iff split: option.splits)
      with registry_spec_step.retire [of "handle_live hof s" h c, OF Some] s'(4)
        retire_harbor [OF s'(1)] show ?thesis by simp
    qed
    moreover have "registry_wf \<lparr>reg_hof = hof, reg_store = s'\<rparr>"
      using s'(2,3) node by (auto simp: registry_wf_def s'(4) retire_harbor [OF s'(1)])
    ultimately show ?thesis using s'(1) by (simp add: r Retire registry_abs_def)
  next
    case (Name h nm)
    show ?thesis
    proof (cases "names_map s nm")
      case None
      from insert_name_spec [OF wf(2) _ None, of h] assms(2) Name obtain s' where s':
        "insert_name s nm h = Some (Some nm, s')" "names_wf s'" "same_slots s s'"
        "names_map s' = (names_map s)(nm \<mapsto> h)" by (auto simp: r)
      have "hs_harbor s' = hs_harbor s" using s'(3) by (simp add: same_slots_def)
      with s' same_slots_live [OF s'(3), of hof] wf node
        registry_spec_step.name [of "names_map s" nm, OF None]
      show ?thesis by (auto simp: r Name registry_wf_def registry_abs_def skynet_handle_namehandle_def)
    next
      case (Some h')
      with namehandle_taken [OF wf(2) Some] assms(1)
        registry_spec_step.name_taken [of "names_map s" nm, OF Some]
      show ?thesis by (auto simp: r Name registry_abs_def)
    qed
  qed
qed

interpretation reg: data_refinement registry_wf registry_ok registry_step registry_abs registry_spec_step
  by unfold_locales (rule registry_step_refines)

definition registry_init :: "int \<Rightarrow> registry" where
  "registry_init harbor = \<lparr>reg_hof = (\<lambda>_. 0), reg_store = skynet_handle_init harbor\<rparr>"

lemma init_harbor: "hs_harbor (skynet_handle_init harbor) AND HANDLE_MASK = 0"
proof (rule bit_word_eqI)
  fix n assume "n < LENGTH(32)"
  show "bit (hs_harbor (skynet_handle_init harbor) AND HANDLE_MASK) n = bit (0 :: u32) n"
    unfolding skynet_handle_init_def handle_storage.simps HANDLE_MASK_mask HANDLE_REMOTE_SHIFT_def
    by (simp only: bit_and_iff bit_push_bit_iff bit_mask_iff) auto
qed

lemma init_slots_wf: "slots_wf hof (skynet_handle_init harbor)"
  using init_harbor [of harbor]
  by (auto simp: slots_wf_def skynet_handle_init_def DEFAULT_SLOT_SIZE_def intro: exI [of _ 2]
      simp del: push_bit_and)

lemma init_live: "handle_live hof (skynet_handle_init harbor) h = None"
  using slot_hash_less [OF init_slots_wf, of harbor h]
  by (simp add: handle_live_def skynet_handle_init_def)

lemma registry_init_wf: "registry_wf (registry_init harbor)"
  using init_slots_wf
  by (simp add: registry_wf_def registry_init_def init_live)
    (simp add: names_wf_def name_entries_def skynet_handle_init_def)

lemma registry_init_abs:
  "registry_abs (registry_init harbor) =
    (hs_harbor (skynet_handle_init harbor), Map.empty, Map.empty)"
  by (simp add: registry_abs_def registry_init_def init_live fun_eq_iff)
    (simp add: names_map_def name_entries_def skynet_handle_init_def)

subsection \<open>Properties\<close>

text \<open>C4: Any sequence of registrations, retirements and namings, from the state
  \<open>skynet_handle_init\<close> leaves, returns (no assertion fails, no index is out of range) and refines the
  abstract registry: a registration gives a context a handle of this node that no live context has,
  retiring a handle drops it and exactly its names, and a name once taken is kept.\<close>

theorem registry_refines:
  assumes "ops_ok registry_ok registry_step ops (registry_init harbor)"
  shows "\<exists>r. run_ops registry_step ops (registry_init harbor) = Some r \<and> registry_wf r \<and>
    spec_run registry_spec_step ops
      (hs_harbor (skynet_handle_init harbor), Map.empty, Map.empty) (registry_abs r)"
  using reg.run_refines [OF registry_init_wf assms] by (simp add: registry_init_abs)

text \<open>C22: In every state the registry reaches, the lookups read the abstract maps:
  \<open>skynet_handle_grab\<close> finds exactly the live context of a handle, and the bisection of
  \<open>skynet_handle_findname\<close> finds exactly the handle of a name, or 0.\<close>

theorem registry_lookup:
  assumes "ops_ok registry_ok registry_step ops (registry_init harbor)"
    "run_ops registry_step ops (registry_init harbor) = Some r"
    "registry_abs r = (node, live, names)"
  shows "skynet_handle_grab (reg_hof r) (reg_store r) h = Some (live h) \<and>
    skynet_handle_findname (reg_store r) nm = Some (case names nm of Some x \<Rightarrow> x | None \<Rightarrow> 0)"
proof -
  from reg.run_invariant [OF registry_init_wf assms(1,2)]
  have wf: "slots_wf (reg_hof r) (reg_store r)" "names_wf (reg_store r)" by (auto simp: registry_wf_def)
  from name_search_all [OF wf(2), of nm] search_result_map [OF wf(2), of nm]
  have "skynet_handle_findname (reg_store r) nm =
      Some (case names_map (reg_store r) nm of Some x \<Rightarrow> x | None \<Rightarrow> 0)"
    by (fastforce simp: skynet_handle_findname_def split: sum.splits)
  with grab_live [OF wf(1)] assms(3) show ?thesis by (auto simp: registry_abs_def)
qed

text \<open>C26: After the handle counter has run through the 24 bits, a registration whose slot 0 is free
  returns the handle whose low 24 bits are 0, which \<open>skynet_handle_init\<close> means to reserve
  (\<open>reserve 0 for system\<close>); on a node with harbor 0 that is handle 0, the value that stands for no
  service.\<close>

theorem register_wraps_to_zero:
  assumes "slots_wf hof s" "hs_handle_index s = 0x1000000" "hs_slot s ! 0 = None"
  shows "\<exists>s'. skynet_handle_register hof s c = Some (hs_harbor s, s')"
proof -
  have c0: "candidate s 0 = 0" using assms(2) by (simp add: candidate_def HANDLE_MASK_def)
  have h0: "slot_hash s 0 = 0" by (simp add: slot_hash_def)
  have pos: "0 < hs_slot_size s" "0 < length (hs_slot s)" using assms(1) by (auto simp: slots_wf_def)
  then have "register_scan s 0 = Some (Some 0)"
    using assms(3) c0 h0 by (subst register_scan.simps) (simp add: c_simps candidate_def)
  then show ?thesis
    using pos h0 by (subst skynet_handle_register.simps) (simp add: c_simps)
qed

subsection \<open>Witnesses\<close>

definition example_ops :: "registry_op list" where
  "example_ops = [Register 7, Name 0x1000001 ''launcher'', Register 8, Retire 0x1000001]"

lemma example_ops_ok: "ops_ok registry_ok registry_step example_ops (registry_init 1)"
  by code_simp

theorem registry_refines_witness:
  "\<exists>r. run_ops registry_step example_ops (registry_init 1) = Some r \<and> registry_wf r"
  using registry_refines [OF example_ops_ok] by blast

theorem registry_lookup_witness:
  "\<exists>r live. run_ops registry_step example_ops (registry_init 1) = Some r \<and>
     skynet_handle_grab (reg_hof r) (reg_store r) 0x1000002 = Some (live 0x1000002) \<and>
     handle_live (reg_hof r) (reg_store r) 0x1000002 = Some 8 \<and> live 0x1000002 = Some 8"
proof -
  have run: "run_ops registry_step example_ops (registry_init 1) \<noteq> None"
    and live: "(case run_ops registry_step example_ops (registry_init 1) of
      Some r \<Rightarrow> handle_live (reg_hof r) (reg_store r) 0x1000002 | None \<Rightarrow> None) = Some 8"
    by code_simp+
  from run obtain r where r: "run_ops registry_step example_ops (registry_init 1) = Some r" by blast
  with registry_lookup [OF example_ops_ok r, of "hs_harbor (reg_store r)"
      "handle_live (reg_hof r) (reg_store r)" "names_map (reg_store r)" "0x1000002" "''launcher''"] live
  show ?thesis by (intro exI conjI) (auto simp: registry_abs_def)
qed

theorem register_wraps_to_zero_witness:
  "\<exists>s'. skynet_handle_register (\<lambda>_. 0)
     ((skynet_handle_init 0)\<lparr>hs_handle_index := 0x1000000\<rparr>) 3 = Some (0, s')"
proof -
  let ?s = "(skynet_handle_init 0)\<lparr>hs_handle_index := 0x1000000\<rparr>"
  have "slots_wf (\<lambda>_. 0) ?s" using init_slots_wf [of "\<lambda>_. 0" 0] by (simp add: slots_wf_def)
  moreover have "hs_slot ?s ! 0 = None" "hs_harbor ?s = 0"
    by (simp_all add: skynet_handle_init_def DEFAULT_SLOT_SIZE_def)
  ultimately show ?thesis using register_wraps_to_zero [of "\<lambda>_. 0" ?s 3] by simp
qed

end
