(* ===== verification/Pathfinding.thy ===== *)
theory Pathfinding
  imports Prelude "HOL-Library.Multiset"
begin

text \<open>
  The grid maps and the A* search of \<open>game/lualib-src/pathfinding.c\<close>.  A map is a
  byte per cell (0 is free); the search moves in eight directions, keeps its open
  set at the low end of the array \<open>set\<close> and its closed set at the high end, and
  allocates nodes from the array \<open>n\<close> until its depth is used up.

  Array cells that the C code has not initialised are \<open>None\<close>, so that a search that
  returns has read no uninitialised memory.  Coordinates and scores are tested for the range of
  \<open>int\<close> wherever they are computed (\<open>c_sint\<close>); \<open>path_bounds\<close> shows how large they get.
\<close>

definition SEARCH_DEPTH :: int where "SEARCH_DEPTH = 5000"
definition BLOCK_WEIGHT :: int where "BLOCK_WEIGHT = 255"

record gmap =
  gm_width :: int
  gm_height :: int
  gm_m :: "u8 list"

record pathnode =
  pn_x :: int
  pn_y :: int
  pn_camefrom :: int
  pn_gscore :: int
  pn_fscore :: int

record path =
  p_depth :: nat
  p_set :: "nat option list"
  p_n :: "pathnode option list"

text \<open>The errors the module raises with \<open>luaL_error\<close>.\<close>

datatype lua_error =
    InvalidField
  | AddObstacleLine int
  | AddObstacle int int
  | OutOfMap int int
  | InvalidPosition int int
  | InvalidTargetMap
  | StackOverflow

subsection \<open>Maps\<close>

text \<open>The index of a cell is an \<open>int\<close>; an index that overflows is outside the array of every map that
  \<open>lnewmap\<close> creates, and is undefined for this reason.\<close>

definition map_cell :: "gmap \<Rightarrow> int \<Rightarrow> int \<Rightarrow> u8 option" where
  "map_cell m x y =
     (let i = y * gm_width m + x in if 0 \<le> i then arr_get (gm_m m) (nat i) else None)"

definition map_set :: "gmap \<Rightarrow> int \<Rightarrow> int \<Rightarrow> int \<Rightarrow> (int \<times> gmap) option" where
  "map_set m x y w = do {
     v \<leftarrow> map_cell m x y;
     cells \<leftarrow> arr_set (gm_m m) (nat (y * gm_width m + x)) (word_of_int w);
     Some (uint v, m\<lparr>gm_m := cells\<rparr>) }"

definition map_get :: "gmap \<Rightarrow> int \<Rightarrow> int \<Rightarrow> int option" where
  "map_get m x y =
     (if x < 0 \<or> x \<ge> gm_width m \<or> y < 0 \<or> y \<ge> gm_height m then Some BLOCK_WEIGHT
      else map_option uint (map_cell m x y))"

text \<open>The loop over the characters of an obstacle line: capital letters block the cell.\<close>

fun addobstacle_loop :: "gmap \<Rightarrow> int \<Rightarrow> int \<Rightarrow> string \<Rightarrow> (lua_error + gmap) option" where
  "addobstacle_loop m y x [] = Some (Inr m)"
| "addobstacle_loop m y x (c # cs) =
     (if x \<ge> gm_width m then Some (Inl (AddObstacle x y))
      else if of_char c \<ge> (65::nat) \<and> of_char c \<le> (90::nat)
      then do {
        (v, m) \<leftarrow> map_set m x y 255;
        (if v \<noteq> 0 then Some (Inl (AddObstacle x y)) else addobstacle_loop m y (x + 1) cs) }
      else addobstacle_loop m y (x + 1) cs)"

definition addobstacle :: "gmap \<Rightarrow> int \<Rightarrow> string \<Rightarrow> (lua_error + gmap) option" where
  "addobstacle m line obstacle =
     (if line \<ge> gm_height m then Some (Inl (AddObstacleLine line))
      else addobstacle_loop m line 0 obstacle)"

fun newmap_lines :: "gmap \<Rightarrow> int \<Rightarrow> string list \<Rightarrow> (lua_error + gmap) option" where
  "newmap_lines m i [] = Some (Inr m)"
| "newmap_lines m i (obstacle # rest) = do {
     r \<leftarrow> addobstacle m (i - 1) obstacle;
     (case r of
        Inl e \<Rightarrow> Some (Inl e)
      | Inr m \<Rightarrow> newmap_lines m (i + 1) rest) }"

text \<open>\<open>lnewmap\<close>: the fields \<open>width\<close> and \<open>height\<close> of the argument table (\<open>None\<close> when they are not
  numbers) and the strings of its \<open>obstacle\<close> list.\<close>

definition lnewmap :: "int option \<Rightarrow> int option \<Rightarrow> string list \<Rightarrow> (lua_error + gmap) option" where
  "lnewmap width height obstacle =
     (case (width, height) of
        (Some w, Some h) \<Rightarrow> do {
          let w = to_int32 w;
          let h = to_int32 h;
          c_assert (0 \<le> w * h \<and> w * h \<le> 2147483647);
          newmap_lines \<lparr>gm_width = w, gm_height = h, gm_m = replicate (nat (w * h)) 0\<rparr> 1 obstacle }
      | _ \<Rightarrow> Some (Inl InvalidField))"

definition out_of_map :: "gmap \<Rightarrow> int \<Rightarrow> int \<Rightarrow> bool" where
  "out_of_map m x y \<longleftrightarrow> x < 0 \<or> x \<ge> gm_width m \<or> y < 0 \<or> y \<ge> gm_height m"

definition lblock :: "gmap \<Rightarrow> int \<Rightarrow> int \<Rightarrow> (lua_error + int) option" where
  "lblock m x y =
     (let x = to_int32 x; y = to_int32 y in
      if out_of_map m x y then Some (Inl (OutOfMap x y))
      else map_option Inr (map_get m x y))"

definition ladd_weight :: "gmap \<Rightarrow> int \<Rightarrow> int \<Rightarrow> int \<Rightarrow> (lua_error + int \<times> gmap) option" where
  "ladd_weight m x y w =
     (let x = to_int32 x; y = to_int32 y; w = to_int32 w in
      if out_of_map m x y then Some (Inl (OutOfMap x y))
      else do {
        v \<leftarrow> map_get m x y;
        (if v \<noteq> 255
         then do { (_, m) \<leftarrow> map_set m x y w; Some (Inr (w, m)) }
         else Some (Inr (w, m))) })"

subsection \<open>The search\<close>

text \<open>The terms of the sums are not negative, so that no partial result exceeds the sum that is tested.\<close>

definition distance :: "int \<Rightarrow> int \<Rightarrow> int \<Rightarrow> int \<Rightarrow> int option" where
  "distance x1 y1 x2 y2 = do {
     dx \<leftarrow> c_sint (x1 - x2);
     dy \<leftarrow> c_sint (y1 - y2);
     dx \<leftarrow> (if dx < 0 then c_sint (- dx) else Some dx);
     dy \<leftarrow> (if dy < 0 then c_sint (- dy) else Some dy);
     (if dx < dy then c_sint (dx * 7 + (dy - dx) * 5) else c_sint (dy * 7 + (dx - dy) * 5)) }"

record search =
  ctx_P :: path
  ctx_open :: nat
  ctx_closed :: nat
  ctx_n :: nat
  ctx_end_x :: int
  ctx_end_y :: int

text \<open>\<open>P->set[i]\<close> and \<open>P->n[i]\<close>.\<close>

definition set_at :: "path \<Rightarrow> nat \<Rightarrow> nat option" where
  "set_at P i = do { c \<leftarrow> arr_get (p_set P) i; c }"

definition node_at :: "path \<Rightarrow> nat \<Rightarrow> pathnode option" where
  "node_at P i = do { c \<leftarrow> arr_get (p_n P) i; c }"

text \<open>\<open>add_open\<close>: the index of the new node, or \<open>None\<close> for \<open>NULL\<close> when the nodes are used up.\<close>

definition add_open ::
    "search \<Rightarrow> int \<Rightarrow> int \<Rightarrow> int \<Rightarrow> int \<Rightarrow> (nat option \<times> search) option" where
  "add_open ctx x y camefrom gscore =
     (let P = ctx_P ctx in
      if ctx_n ctx \<ge> p_depth P then Some (None, ctx)
      else do {
        s \<leftarrow> arr_set (p_set P) (ctx_open ctx) (Some (ctx_n ctx));
        dist \<leftarrow> distance x y (ctx_end_x ctx) (ctx_end_y ctx);
        fscore \<leftarrow> c_sint (gscore + dist);
        n \<leftarrow> arr_set (p_n P) (ctx_n ctx)
          (Some \<lparr>pn_x = x, pn_y = y, pn_camefrom = camefrom, pn_gscore = gscore, pn_fscore = fscore\<rparr>);
        Some (Some (ctx_n ctx),
          ctx\<lparr>ctx_P := P\<lparr>p_set := s, p_n := n\<rparr>, ctx_open := ctx_open ctx + 1, ctx_n := ctx_n ctx + 1\<rparr>) })"

text \<open>The scan of \<open>lowest_fscore\<close>: the position in \<open>set\<close> and the node of the least score so far.\<close>

fun lowest_loop :: "path \<Rightarrow> nat \<Rightarrow> nat \<Rightarrow> int \<Rightarrow> nat list \<Rightarrow> (nat \<times> nat) option" where
  "lowest_loop P idx pn fscore [] = Some (idx, pn)"
| "lowest_loop P idx pn fscore (i # is) = do {
     j \<leftarrow> set_at P i;
     tmp \<leftarrow> node_at P j;
     (if pn_fscore tmp < fscore then lowest_loop P i j (pn_fscore tmp) is
      else lowest_loop P idx pn fscore is) }"

definition lowest_fscore :: "search \<Rightarrow> (nat \<times> search) option" where
  "lowest_fscore ctx = do {
     let P = ctx_P ctx;
     j \<leftarrow> set_at P 0;
     pn \<leftarrow> node_at P j;
     (idx, j) \<leftarrow> lowest_loop P 0 j (pn_fscore pn) [1..<ctx_open ctx];
     let open' = ctx_open ctx - 1;
     s \<leftarrow> (if idx \<noteq> open'
           then do { last \<leftarrow> arr_get (p_set P) open'; arr_set (p_set P) idx last }
           else Some (p_set P));
     Some (j, ctx\<lparr>ctx_P := P\<lparr>p_set := s\<rparr>, ctx_open := open'\<rparr>) }"

definition add_closed :: "search \<Rightarrow> nat \<Rightarrow> search option" where
  "add_closed ctx idx = do {
     let P = ctx_P ctx;
     c_assert (ctx_closed ctx + 1 \<le> p_depth P);
     s \<leftarrow> arr_set (p_set P) (p_depth P - 1 - ctx_closed ctx) (Some idx);
     Some (ctx\<lparr>ctx_P := P\<lparr>p_set := s\<rparr>, ctx_closed := ctx_closed ctx + 1\<rparr>) }"

text \<open>The loop that \<open>in_closed\<close> and \<open>find_open\<close> share: the first of the given positions of \<open>set\<close>
  whose node is at \<open>(x, y)\<close>.\<close>

fun find_node :: "path \<Rightarrow> int \<Rightarrow> int \<Rightarrow> nat list \<Rightarrow> nat option option" where
  "find_node P x y [] = Some None"
| "find_node P x y (i # is) = do {
     idx \<leftarrow> set_at P i;
     pn \<leftarrow> node_at P idx;
     (if pn_x pn = x \<and> pn_y pn = y then Some (Some idx) else find_node P x y is) }"

definition in_closed :: "search \<Rightarrow> int \<Rightarrow> int \<Rightarrow> bool option" where
  "in_closed ctx x y =
     map_option (\<lambda>r. r \<noteq> None)
       (find_node (ctx_P ctx) x y (map (\<lambda>i. p_depth (ctx_P ctx) - 1 - i) [0..<ctx_closed ctx]))"

definition find_open :: "search \<Rightarrow> int \<Rightarrow> int \<Rightarrow> nat option option" where
  "find_open ctx x y = find_node (ctx_P ctx) x y [0..<ctx_open ctx]"

fun nearest_loop :: "path \<Rightarrow> nat \<Rightarrow> int \<Rightarrow> nat list \<Rightarrow> nat option" where
  "nearest_loop P ret fscore [] = Some ret"
| "nearest_loop P ret fscore (i # is) = do {
     idx \<leftarrow> set_at P i;
     pn \<leftarrow> node_at P idx;
     (if pn_fscore pn < fscore then nearest_loop P idx (pn_fscore pn) is
      else nearest_loop P ret fscore is) }"

definition nearest :: "path \<Rightarrow> nat \<Rightarrow> nat \<Rightarrow> nat option" where
  "nearest P from to = do {
     ret \<leftarrow> set_at P from;
     pn \<leftarrow> node_at P ret;
     nearest_loop P ret (pn_fscore pn) [from + 1..<to] }"

definition OFF :: "(int \<times> int \<times> int) list" where
  "OFF = [(- 1, 0, 5), (0, 1, 5), (1, 0, 5), (0, - 1, 5), (1, 1, 7), (- 1, 1, 7), (- 1, - 1, 7), (1, - 1, 7)]"

text \<open>The two nested loops that look for an obstacle in the square of half width \<open>bsize\<close> around
  \<open>(x, y)\<close>; the target cell is never an obstacle.  A loop that runs to its end leaves its counter at
  \<open>bsize + 1\<close>, and \<open>-bsize\<close> does not exist for the least \<open>int\<close>.\<close>

fun square_row :: "gmap \<Rightarrow> int \<times> int \<Rightarrow> int \<Rightarrow> int \<Rightarrow> int \<Rightarrow> int list \<Rightarrow> bool option" where
  "square_row m e bsize xp y [] = do { _ \<leftarrow> c_sint (bsize + 1); Some False }"
| "square_row m e bsize xp y (q # qs) = do {
     yq \<leftarrow> c_sint (y + q);
     weight \<leftarrow> map_get m xp yq;
     (if weight > 0 \<and> \<not> (xp = fst e \<and> yq = snd e) then Some True
      else square_row m e bsize xp y qs) }"

fun square_rows :: "gmap \<Rightarrow> int \<times> int \<Rightarrow> int \<Rightarrow> int \<Rightarrow> int \<Rightarrow> int list \<Rightarrow> bool option" where
  "square_rows m e bsize x y [] = do { _ \<leftarrow> c_sint (bsize + 1); Some False }"
| "square_rows m e bsize x y (p # ps) = do {
     xp \<leftarrow> c_sint (x + p);
     hit \<leftarrow> square_row m e bsize xp y [- bsize..bsize];
     (if hit then Some True else square_rows m e bsize x y ps) }"

definition square_blocked :: "gmap \<Rightarrow> int \<times> int \<Rightarrow> int \<Rightarrow> int \<Rightarrow> int \<Rightarrow> bool option" where
  "square_blocked m e bsize x y = do {
     first \<leftarrow> c_sint (- bsize);
     square_rows m e bsize x y [first..bsize] }"

definition update_node :: "search \<Rightarrow> nat \<Rightarrow> pathnode \<Rightarrow> search option" where
  "update_node ctx j pn = do {
     n \<leftarrow> arr_set (p_n (ctx_P ctx)) j (Some pn);
     Some (ctx\<lparr>ctx_P := (ctx_P ctx)\<lparr>p_n := n\<rparr>\<rparr>) }"

text \<open>The \<open>for\<close> loop over the eight neighbours of the node \<open>current\<close>.\<close>

fun expand :: "gmap \<Rightarrow> int \<Rightarrow> nat \<Rightarrow> (int \<times> int \<times> int) list \<Rightarrow> search \<Rightarrow> search option" where
  "expand m bsize current [] ctx = Some ctx"
| "expand m bsize current ((dx, dy, d) # offs) ctx = do {
     pn \<leftarrow> node_at (ctx_P ctx) current;
     x \<leftarrow> c_sint (pn_x pn + dx);
     y \<leftarrow> c_sint (pn_y pn + dy);
     closed \<leftarrow> in_closed ctx x y;
     (if closed then expand m bsize current offs ctx
      else do {
        blocked \<leftarrow> square_blocked m (ctx_end_x ctx, ctx_end_y ctx) bsize x y;
        (if blocked then expand m bsize current offs ctx
         else do {
           tentative \<leftarrow> c_sint (pn_gscore pn + d + d);
           neighbor \<leftarrow> find_open ctx x y;
           (case neighbor of
              Some j \<Rightarrow> do {
                nb \<leftarrow> node_at (ctx_P ctx) j;
                (if tentative < pn_gscore nb
                 then do {
                   dist \<leftarrow> distance x y (ctx_end_x ctx) (ctx_end_y ctx);
                   fscore \<leftarrow> c_sint (tentative + dist);
                   ctx \<leftarrow> update_node ctx j (nb\<lparr>pn_camefrom := int current, pn_gscore := tentative,
                     pn_fscore := fscore\<rparr>);
                   expand m bsize current offs ctx }
                 else expand m bsize current offs ctx) }
            | None \<Rightarrow> do {
                (r, ctx) \<leftarrow> add_open ctx x y (int current) tentative;
                (case r of
                   None \<Rightarrow> Some ctx
                 | Some _ \<Rightarrow> expand m bsize current offs ctx) }) }) }) }"

text \<open>The \<open>while\<close> loop: the node at the target, or \<open>None\<close> when the open set runs empty.\<close>

partial_function (option) path_loop :: "gmap \<Rightarrow> int \<Rightarrow> search \<Rightarrow> (nat option \<times> search) option" where
  "path_loop m bsize ctx =
     (if ctx_open ctx > 0
      then do {
        (current, ctx) \<leftarrow> lowest_fscore ctx;
        pn \<leftarrow> node_at (ctx_P ctx) current;
        (if pn_x pn = ctx_end_x ctx \<and> pn_y pn = ctx_end_y ctx then Some (Some current, ctx)
         else do {
           ctx \<leftarrow> add_closed ctx current;
           ctx \<leftarrow> expand m bsize current OFF ctx;
           path_loop m bsize ctx }) }
      else Some (None, ctx))"

declare path_loop.simps [code]

definition path_finding ::
    "gmap \<Rightarrow> path \<Rightarrow> int \<Rightarrow> int \<Rightarrow> int \<Rightarrow> int \<Rightarrow> int \<Rightarrow> (nat \<times> path) option" where
  "path_finding m P start_x start_y end_x end_y bsize = do {
     (_, ctx) \<leftarrow> add_open \<lparr>ctx_P = P, ctx_open = 0, ctx_closed = 0, ctx_n = 0,
       ctx_end_x = end_x, ctx_end_y = end_y\<rparr> start_x start_y (- 1) 0;
     (found, ctx) \<leftarrow> path_loop m bsize ctx;
     (case found of
        Some current \<Rightarrow> Some (current, ctx_P ctx)
      | None \<Rightarrow> do {
          node \<leftarrow> (if ctx_open ctx > 0 then nearest (ctx_P ctx) 0 (ctx_open ctx)
                   else nearest (ctx_P ctx) (p_depth (ctx_P ctx) - ctx_closed ctx) (p_depth (ctx_P ctx)));
          Some (node, ctx_P ctx) }) }"

definition check_position :: "gmap \<Rightarrow> int \<Rightarrow> int \<Rightarrow> lua_error + unit" where
  "check_position m x y = (if out_of_map m x y then Inl (InvalidPosition x y) else Inr ())"

text \<open>The two loops of \<open>lpath\<close> over the chain of \<open>camefrom\<close>: its length, and its positions.\<close>

partial_function (option) chain_length :: "path \<Rightarrow> nat \<Rightarrow> nat \<Rightarrow> nat option" where
  "chain_length P idx n = do {
     pn \<leftarrow> node_at P idx;
     (if pn_camefrom pn \<ge> 0 then chain_length P (nat (pn_camefrom pn)) (n + 1) else Some n) }"

declare chain_length.simps [code]

fun chain_positions :: "path \<Rightarrow> int \<Rightarrow> nat \<Rightarrow> (int \<times> int) list option" where
  "chain_positions P node 0 = Some []"
| "chain_positions P node (Suc i) = do {
     c_assert (0 \<le> node);
     pn \<leftarrow> node_at P (nat node);
     rest \<leftarrow> chain_positions P (pn_camefrom pn) i;
     Some ((pn_x pn, pn_y pn) # rest) }"

text \<open>\<open>lpath\<close>: the positions it pushes on the Lua stack, from the start on; \<open>room\<close> is the number of
  slots that \<open>luaL_checkstack\<close> can provide.  A negative depth is the size of a variable length array,
  which is undefined.\<close>

definition lpath ::
    "nat \<Rightarrow> gmap \<Rightarrow> int \<Rightarrow> int \<Rightarrow> int \<Rightarrow> int \<Rightarrow> int \<Rightarrow> int option \<Rightarrow> (lua_error + (int \<times> int) list) option" where
  "lpath room m start_x start_y end_x end_y bsize depth =
     (let start_x = to_int32 start_x; start_y = to_int32 start_y;
          end_x = to_int32 end_x; end_y = to_int32 end_y; bsize = to_int32 bsize;
          depth = to_int32 (case depth of Some d \<Rightarrow> d | None \<Rightarrow> SEARCH_DEPTH)
      in case check_position m start_x start_y of
        Inl e \<Rightarrow> Some (Inl e)
      | Inr _ \<Rightarrow> (case check_position m end_x end_y of
          Inl e \<Rightarrow> Some (Inl e)
        | Inr _ \<Rightarrow> do {
            c_assert (0 \<le> depth);
            (node, P) \<leftarrow> path_finding m
              \<lparr>p_depth = nat depth, p_set = replicate (nat depth) None, p_n = replicate (nat depth) None\<rparr>
              start_x start_y end_x end_y bsize;
            n \<leftarrow> chain_length P node 1;
            pos \<leftarrow> chain_positions P (int node) n;
            slots \<leftarrow> c_sint (int n * 2);
            (if slots > int room then Some (Inl StackOverflow) else Some (Inr (rev pos))) }))"

subsection \<open>The arrays of the search as lists\<close>

text \<open>The nodes in the order of their allocation, the open set in the order of the array and the
  closed set in the order in which nodes were closed.\<close>

definition search_repr :: "search \<Rightarrow> pathnode list \<Rightarrow> nat list \<Rightarrow> nat list \<Rightarrow> bool" where
  "search_repr c ns os cs \<longleftrightarrow>
     length (p_set (ctx_P c)) = p_depth (ctx_P c) \<and> length (p_n (ctx_P c)) = p_depth (ctx_P c) \<and>
     ctx_n c = length ns \<and> ctx_open c = length os \<and> ctx_closed c = length cs \<and>
     length ns \<le> p_depth (ctx_P c) \<and> length os + length cs \<le> p_depth (ctx_P c) \<and>
     (\<forall>i < length ns. p_n (ctx_P c) ! i = Some (ns ! i)) \<and>
     (\<forall>i < p_depth (ctx_P c). length ns \<le> i \<longrightarrow> p_n (ctx_P c) ! i = None) \<and>
     (\<forall>i < length os. p_set (ctx_P c) ! i = Some (os ! i)) \<and>
     (\<forall>i < length cs. p_set (ctx_P c) ! (p_depth (ctx_P c) - 1 - i) = Some (cs ! i))"

definition same_target :: "search \<Rightarrow> search \<Rightarrow> bool" where
  "same_target c c' \<longleftrightarrow> ctx_end_x c' = ctx_end_x c \<and> ctx_end_y c' = ctx_end_y c \<and>
     p_depth (ctx_P c') = p_depth (ctx_P c)"

lemma same_target_refl [simp]: "same_target c c"
  and same_target_trans: "same_target a b \<Longrightarrow> same_target b c \<Longrightarrow> same_target a c"
  by (simp_all add: same_target_def)

lemma repr_node_at:
  assumes "search_repr c ns os cs" "i < length ns"
  shows "node_at (ctx_P c) i = Some (ns ! i)"
  using assms by (simp add: search_repr_def node_at_def c_simps)

lemma repr_set_at:
  assumes "search_repr c ns os cs"
  shows "i < length os \<Longrightarrow> set_at (ctx_P c) i = Some (os ! i)"
    and "i < length cs \<Longrightarrow> set_at (ctx_P c) (p_depth (ctx_P c) - 1 - i) = Some (cs ! i)"
proof -
  assume "i < length os"
  with assms show "set_at (ctx_P c) i = Some (os ! i)"
    by (simp add: search_repr_def set_at_def c_simps)
next
  assume i: "i < length cs"
  with assms have "p_depth (ctx_P c) - 1 - i < length (p_set (ctx_P c))" by (simp add: search_repr_def)
  with assms i show "set_at (ctx_P c) (p_depth (ctx_P c) - 1 - i) = Some (cs ! i)"
    by (simp only: search_repr_def set_at_def c_simps) simp
qed

text \<open>The distance without the limits of \<open>int\<close>.\<close>

definition dist :: "int \<Rightarrow> int \<Rightarrow> int \<Rightarrow> int \<Rightarrow> int" where
  "dist x1 y1 x2 y2 =
     (let dx = \<bar>x1 - x2\<bar>; dy = \<bar>y1 - y2\<bar>
      in if dx < dy then dx * 7 + (dy - dx) * 5 else dy * 7 + (dx - dy) * 5)"

lemma dist_alt: "dist x1 y1 x2 y2 = 5 * max \<bar>x1 - x2\<bar> \<bar>y1 - y2\<bar> + 2 * min \<bar>x1 - x2\<bar> \<bar>y1 - y2\<bar>"
proof -
  have "(if a < b then a * 7 + (b - a) * 5 else b * 7 + (a - b) * 5) = 5 * max a b + 2 * min a b"
    for a b :: int
    by simp
  then show ?thesis unfolding dist_def Let_def by blast
qed

lemma dist_bounds: "0 \<le> dist x1 y1 x2 y2" "5 * \<bar>x1 - x2\<bar> \<le> dist x1 y1 x2 y2" "5 * \<bar>y1 - y2\<bar> \<le> dist x1 y1 x2 y2"
  using abs_ge_zero [of "x1 - x2"] abs_ge_zero [of "y1 - y2"] unfolding dist_alt max_def min_def
  by (simp_all del: abs_ge_zero split: if_split)

lemma distance_dist:
  assumes "dist x1 y1 x2 y2 < 2147483648"
  shows "distance x1 y1 x2 y2 = Some (dist x1 y1 x2 y2)"
proof -
  have lt: "5 * a \<le> dist x1 y1 x2 y2 \<Longrightarrow> a < 2147483648" for a :: int
    using assms dist_bounds(1) [of x1 y1 x2 y2] by simp
  have "\<bar>x1 - x2\<bar> < 2147483648" "\<bar>y1 - y2\<bar> < 2147483648" by (rule lt, rule dist_bounds)+
  then have "c_sint (x1 - x2) = Some (x1 - x2)" "c_sint (y1 - y2) = Some (y1 - y2)"
    "(if x1 - x2 < 0 then c_sint (- (x1 - x2)) else Some (x1 - x2)) = Some \<bar>x1 - x2\<bar>"
    "(if y1 - y2 < 0 then c_sint (- (y1 - y2)) else Some (y1 - y2)) = Some \<bar>y1 - y2\<bar>"
    by (auto simp: c_simps)
  then have "distance x1 y1 x2 y2 = c_sint (dist x1 y1 x2 y2)"
    unfolding distance_def by (simp only: bind.bind_lunit dist_def Let_def if_distrib [of c_sint])
  with assms dist_bounds(1) [of x1 y1 x2 y2] show ?thesis by (simp add: c_simps)
qed

definition new_node :: "int \<times> int \<Rightarrow> int \<Rightarrow> int \<Rightarrow> int \<Rightarrow> int \<Rightarrow> pathnode" where
  "new_node e x y f g = \<lparr>pn_x = x, pn_y = y, pn_camefrom = f, pn_gscore = g,
     pn_fscore = g + dist x y (fst e) (snd e)\<rparr>"

lemma add_open_full:
  "search_repr c ns os cs \<Longrightarrow> p_depth (ctx_P c) \<le> length ns \<Longrightarrow> add_open c x y f g = Some (None, c)"
  by (simp add: add_open_def search_repr_def)

lemma add_open_repr:
  assumes c: "search_repr c ns os cs" and room: "length ns < p_depth (ctx_P c)"
    "length os + length cs < p_depth (ctx_P c)"
    and fits: "0 \<le> g" "g + dist x y (ctx_end_x c) (ctx_end_y c) < 2147483648"
  shows "\<exists>c'. add_open c x y f g = Some (Some (length ns), c') \<and>
    search_repr c' (ns @ [new_node (ctx_end_x c, ctx_end_y c) x y f g]) (os @ [length ns]) cs \<and>
    same_target c c'"
proof -
  let ?P = "ctx_P c" and ?pn = "new_node (ctx_end_x c, ctx_end_y c) x y f g"
  let ?P' = "?P\<lparr>p_set := (p_set ?P)[length os := Some (length ns)],
    p_n := (p_n ?P)[length ns := Some ?pn]\<rparr>"
  let ?c = "c\<lparr>ctx_P := ?P', ctx_open := length os + 1, ctx_n := length ns + 1\<rparr>"
  have "distance x y (ctx_end_x c) (ctx_end_y c) = Some (dist x y (ctx_end_x c) (ctx_end_y c))"
    "c_sint (g + dist x y (ctx_end_x c) (ctx_end_y c)) = Some (g + dist x y (ctx_end_x c) (ctx_end_y c))"
    using fits dist_bounds(1) [of x y "ctx_end_x c" "ctx_end_y c"] by (auto simp: c_simps intro: distance_dist)
  then have "add_open c x y f g = Some (Some (length ns), ?c)"
    using c room by (simp add: add_open_def search_repr_def c_simps new_node_def Let_def del: c_sint_Some)
  moreover have "search_repr ?c (ns @ [?pn]) (os @ [length ns]) cs"
    using c room unfolding search_repr_def by (auto simp: nth_append less_Suc_eq nth_list_update_if)
  ultimately show ?thesis by (auto simp: same_target_def)
qed

lemma nth_below: "set xs \<subseteq> {..<n} \<Longrightarrow> i < length xs \<Longrightarrow> xs ! i < n"
  using nth_mem [of i xs] by blast

lemma lowest_loop_spec:
  assumes "search_repr c ns os cs" "set os \<subseteq> {..<length ns}"
    "set is \<subseteq> {..<length os}" "idx < length os" "pn = os ! idx" "f = pn_fscore (ns ! pn)"
  shows "\<exists>idx'. lowest_loop (ctx_P c) idx pn f is = Some (idx', os ! idx') \<and> idx' < length os \<and>
    pn_fscore (ns ! (os ! idx')) \<le> f \<and>
    (\<forall>i \<in> set is. pn_fscore (ns ! (os ! idx')) \<le> pn_fscore (ns ! (os ! i)))"
  using assms(3-)
proof (induction "is" arbitrary: idx pn f)
  case Nil
  then show ?case by auto
next
  case (Cons i "is")
  have i: "i < length os" "os ! i < length ns"
    using Cons.prems(1) nth_below [OF assms(2), of i] by auto
  have at: "set_at (ctx_P c) i = Some (os ! i)" "node_at (ctx_P c) (os ! i) = Some (ns ! (os ! i))"
    using repr_set_at(1) [OF assms(1) i(1)] repr_node_at [OF assms(1) i(2)] by auto
  show ?case
  proof (cases "pn_fscore (ns ! (os ! i)) < f")
    case True
    with Cons.IH [of i "os ! i" "pn_fscore (ns ! (os ! i))"] Cons.prems(1) i at show ?thesis
      by (force simp: less_imp_le)
  next
    case False
    with Cons.IH [of idx pn f] Cons.prems at show ?thesis by fastforce
  qed
qed

lemma mset_remove_swap:
  assumes "idx < length os"
  shows "mset (butlast (os[idx := last os])) = mset os - {#os ! idx#}"
proof (cases os rule: rev_cases)
  case Nil
  with assms show ?thesis by simp
next
  case (snoc xs x)
  show ?thesis
  proof (cases "idx = length xs")
    case True
    with snoc show ?thesis by simp
  next
    case False
    with assms snoc have i: "idx < length xs" by simp
    then have "xs ! idx \<in> set xs" by simp
    with i snoc show ?thesis
      by (simp add: list_update_append mset_update butlast_append nth_append)
  qed
qed

lemma lowest_fscore_repr:
  assumes c: "search_repr c ns os cs" and os: "set os \<subseteq> {..<length ns}" "os \<noteq> []"
  shows "\<exists>j c' os'. lowest_fscore c = Some (j, c') \<and> search_repr c' ns os' cs \<and>
    j \<in> set os \<and> mset os' = mset os - {#j#} \<and>
    (\<forall>i \<in> set os. pn_fscore (ns ! j) \<le> pn_fscore (ns ! i)) \<and> same_target c c'"
proof -
  let ?P = "ctx_P c"
  have 0: "0 < length os" "os ! 0 < length ns" using os nth_below [OF os(1), of 0] by auto
  have "set [1..<length os] \<subseteq> {..<length os}" by auto
  from lowest_loop_spec [OF c os(1) this 0(1) refl refl] obtain idx where
    idx: "lowest_loop ?P 0 (os ! 0) (pn_fscore (ns ! (os ! 0))) [1..<length os] = Some (idx, os ! idx)"
      "idx < length os" "pn_fscore (ns ! (os ! idx)) \<le> pn_fscore (ns ! (os ! 0))"
      "\<forall>i \<in> {1..<length os}. pn_fscore (ns ! (os ! idx)) \<le> pn_fscore (ns ! (os ! i))" by auto
  have min: "pn_fscore (ns ! (os ! idx)) \<le> pn_fscore (ns ! i)" if "i \<in> set os" for i
  proof -
    from that obtain k where "k < length os" "os ! k = i" by (auto simp: in_set_conv_nth)
    with idx(3,4) show ?thesis by (cases "k = 0") auto
  qed
  let ?open = "length os - 1" and ?os = "butlast (os[idx := last os])"
  let ?set = "if idx \<noteq> ?open then (p_set ?P)[idx := p_set ?P ! ?open] else p_set ?P"
  let ?c = "c\<lparr>ctx_P := ?P\<lparr>p_set := ?set\<rparr>, ctx_open := ?open\<rparr>"
  have len: "length os \<le> length (p_set ?P)" "ctx_open c = length os" using c by (simp_all add: search_repr_def)
  have "lowest_fscore c = Some (os ! idx, ?c)"
    using repr_set_at(1) [OF c 0(1)] repr_node_at [OF c 0(2)] idx(1,2) len
    by (simp add: lowest_fscore_def c_simps Let_def)
  moreover have "search_repr ?c ns ?os cs"
    using c 0(1) idx(2) unfolding search_repr_def
    by (auto simp: nth_butlast nth_list_update_if last_conv_nth)
  moreover have "same_target c ?c" by (simp add: same_target_def)
  moreover have "os ! idx \<in> set os" using idx(2) by simp
  ultimately show ?thesis using min mset_remove_swap [OF idx(2)] by blast
qed

lemma add_closed_repr:
  assumes c: "search_repr c ns os cs" and room: "length os + length cs < p_depth (ctx_P c)"
  shows "\<exists>c'. add_closed c i = Some c' \<and> search_repr c' ns os (cs @ [i]) \<and> same_target c c'"
proof -
  let ?P = "ctx_P c"
  let ?set = "(p_set ?P)[p_depth ?P - 1 - length cs := Some i]"
  let ?c = "c\<lparr>ctx_P := ?P\<lparr>p_set := ?set\<rparr>, ctx_closed := length cs + 1\<rparr>"
  have "add_closed c i = Some ?c"
    using c room by (simp add: add_closed_def search_repr_def c_simps Let_def)
  moreover have "search_repr ?c ns os (cs @ [i])"
    using c room unfolding search_repr_def by (auto simp: nth_append nth_list_update_if less_Suc_eq)
  ultimately show ?thesis by (auto simp: same_target_def)
qed

definition pos :: "pathnode \<Rightarrow> int \<times> int" where
  "pos pn = (pn_x pn, pn_y pn)"

lemma find_node_spec:
  assumes "\<And>k. k < length is \<Longrightarrow> set_at P (is ! k) = Some (js ! k) \<and> node_at P (js ! k) = Some (ns ! (js ! k))"
    "length js = length is"
  shows "find_node P x y is = Some (find (\<lambda>j. pos (ns ! j) = (x, y)) js)"
  using assms
proof (induction "is" arbitrary: js)
  case Nil
  then show ?case by simp
next
  case (Cons i "is")
  from Cons.prems(2) obtain j js' where js: "js = j # js'" "length js' = length is" by (cases js) auto
  have "find_node P x y is = Some (find (\<lambda>j. pos (ns ! j) = (x, y)) js')"
  proof (rule Cons.IH)
    fix k assume "k < length is"
    with Cons.prems(1) [of "Suc k"] js
    show "set_at P (is ! k) = Some (js' ! k) \<and> node_at P (js' ! k) = Some (ns ! (js' ! k))" by simp
  qed (use js in simp)
  with Cons.prems(1) [of 0] js show ?case by (auto simp: pos_def)
qed

lemma in_closed_repr:
  assumes c: "search_repr c ns os cs" and cs: "set cs \<subseteq> {..<length ns}"
  shows "in_closed c x y = Some (\<exists>j \<in> set cs. pos (ns ! j) = (x, y))"
proof -
  let ?is = "map (\<lambda>i. p_depth (ctx_P c) - 1 - i) [0..<length cs]"
  have "find_node (ctx_P c) x y ?is = Some (find (\<lambda>j. pos (ns ! j) = (x, y)) cs)"
  proof (rule find_node_spec)
    fix k assume "k < length ?is"
    then have k: "k < length cs" "cs ! k < length ns" using nth_below [OF cs] by auto
    with repr_set_at(2) [OF c k(1)] repr_node_at [OF c k(2)]
    show "set_at (ctx_P c) (?is ! k) = Some (cs ! k) \<and>
      node_at (ctx_P c) (cs ! k) = Some (ns ! (cs ! k))" by simp
  qed simp
  moreover have "ctx_closed c = length cs" using c by (simp add: search_repr_def)
  ultimately have "in_closed c x y = Some (find (\<lambda>j. pos (ns ! j) = (x, y)) cs \<noteq> None)"
    by (simp only: in_closed_def option.map)
  moreover have "find (\<lambda>j. pos (ns ! j) = (x, y)) cs = None \<longleftrightarrow> \<not> (\<exists>j \<in> set cs. pos (ns ! j) = (x, y))"
    unfolding find_None_iff by blast
  ultimately show ?thesis by simp
qed

lemma find_open_repr:
  assumes c: "search_repr c ns os cs" and os: "set os \<subseteq> {..<length ns}"
  shows "find_open c x y = Some (find (\<lambda>j. pos (ns ! j) = (x, y)) os)"
proof -
  have "find_node (ctx_P c) x y [0..<length os] = Some (find (\<lambda>j. pos (ns ! j) = (x, y)) os)"
  proof (rule find_node_spec)
    fix k assume "k < length [0..<length os]"
    then have k: "k < length os" "os ! k < length ns" using nth_below [OF os] by auto
    with repr_set_at(1) [OF c k(1)] repr_node_at [OF c k(2)]
    show "set_at (ctx_P c) ([0..<length os] ! k) = Some (os ! k) \<and>
      node_at (ctx_P c) (os ! k) = Some (ns ! (os ! k))" by simp
  qed simp
  with c show ?thesis by (simp add: find_open_def search_repr_def)
qed

lemma update_node_repr:
  assumes c: "search_repr c ns os cs" and j: "j < length ns"
  shows "\<exists>c'. update_node c j pn = Some c' \<and> search_repr c' (ns[j := pn]) os cs \<and> same_target c c'"
  using c j unfolding search_repr_def
  by (auto simp: update_node_def same_target_def c_simps nth_list_update_if)

end
