(* ===== verification/Astar.thy ===== *)
theory Astar
  imports Pathfinding
begin

text \<open>
  Correctness of the search of \<open>path_finding\<close>.  The moves between cells form a graph
  whose edges cost twice the distance of the step, while the estimate of the remaining
  distance grows by at most the distance of the step: the estimate is consistent, so
  that a node is closed only once its score is the cost of a cheapest walk.
\<close>

subsection \<open>The graph of the moves\<close>

type_synonym cell = "int \<times> int"

definition map_wf :: "gmap \<Rightarrow> bool" where
  "map_wf m \<longleftrightarrow> 0 \<le> gm_width m * gm_height m \<and> gm_width m * gm_height m \<le> 2147483647 \<and> length (gm_m m) = nat (gm_width m * gm_height m) \<and>
     gm_width m < 2147483648 \<and> gm_height m < 2147483648"

definition weight :: "gmap \<Rightarrow> cell \<Rightarrow> int" where
  "weight m v =
     (if out_of_map m (fst v) (snd v) then BLOCK_WEIGHT
      else uint (gm_m m ! nat (snd v * gm_width m + fst v)))"

definition passable :: "gmap \<Rightarrow> int \<Rightarrow> cell \<Rightarrow> cell \<Rightarrow> bool" where
  "passable m b e v \<longleftrightarrow>
     (\<forall>p \<in> {- b..b}. \<forall>q \<in> {- b..b}. weight m (fst v + p, snd v + q) = 0 \<or> (fst v + p, snd v + q) = e)"

text \<open>The cost of one move, and of a walk given by its cells.\<close>

definition step_cost :: "cell \<Rightarrow> cell \<Rightarrow> int option" where
  "step_cost u v =
     map_option (\<lambda>(dx, dy, d). d + d) (find (\<lambda>(dx, dy, d). v = (fst u + dx, snd u + dy)) OFF)"

fun walk_cost :: "gmap \<Rightarrow> int \<Rightarrow> cell \<Rightarrow> cell list \<Rightarrow> int option" where
  "walk_cost m b e [] = None"
| "walk_cost m b e [u] = Some 0"
| "walk_cost m b e (u # v # rest) =
     (if passable m b e v then do {
        w \<leftarrow> step_cost u v;
        c \<leftarrow> walk_cost m b e (v # rest);
        Some (w + c) }
      else None)"

definition edge :: "gmap \<Rightarrow> int \<Rightarrow> cell \<Rightarrow> cell \<Rightarrow> int \<Rightarrow> cell \<Rightarrow> bool" where
  "edge m b e u w v \<longleftrightarrow> step_cost u v = Some w \<and> passable m b e v"

inductive reach :: "gmap \<Rightarrow> int \<Rightarrow> cell \<Rightarrow> cell \<Rightarrow> int \<Rightarrow> cell \<Rightarrow> bool" for m b e s where
  start: "reach m b e s 0 s"
| move: "reach m b e s c u \<Longrightarrow> edge m b e u w v \<Longrightarrow> reach m b e s (c + w) v"

definition estimate :: "cell \<Rightarrow> cell \<Rightarrow> int" where
  "estimate e v = dist (fst v) (snd v) (fst e) (snd e)"

lemma weight_nonneg: "0 \<le> weight m v"
  by (simp add: weight_def BLOCK_WEIGHT_def)

lemma map_get_weight:
  assumes "map_wf m"
  shows "map_get m x y = Some (weight m (x, y))"
proof (cases "out_of_map m x y")
  case True
  then show ?thesis by (auto simp: map_get_def weight_def out_of_map_def)
next
  case False
  then have in_map: "0 \<le> x" "x < gm_width m" "0 \<le> y" "y < gm_height m" by (auto simp: out_of_map_def)
  have "(y + 1) * gm_width m \<le> gm_height m * gm_width m"
    using in_map by (intro mult_right_mono) auto
  then have lt: "y * gm_width m + x < gm_width m * gm_height m"
    using in_map by (simp add: algebra_simps)
  have ge: "0 \<le> y * gm_width m + x" using in_map by simp
  have "nat (y * gm_width m + x) < length (gm_m m)"
    using assms lt ge nat_less_eq_zless [OF ge] by (simp add: map_wf_def)
  with False ge show ?thesis
    by (auto simp: map_get_def map_cell_def weight_def out_of_map_def c_simps)
qed

text \<open>The scan of the square computes no coordinate outside \<open>int\<close> when its sums fit, when it is
  empty, or when its first cell is already off the map.\<close>

lemma square_row_spec:
  assumes "map_wf m" "- 2147483648 \<le> b + 1" "b + 1 < 2147483648"
    "\<forall>q \<in> set qs. - 2147483648 \<le> y + q \<and> y + q < 2147483648"
  shows "square_row m e b xp y qs =
    Some (\<exists>q \<in> set qs. weight m (xp, y + q) > 0 \<and> (xp, y + q) \<noteq> e)"
  using assms(4)
proof (induction qs)
  case Nil
  show ?case using assms(2,3) by (simp add: c_simps)
next
  case (Cons q qs)
  then show ?case by (cases e) (auto simp: map_get_weight [OF assms(1)] c_simps)
qed

lemma square_blocked_sums:
  assumes m: "map_wf m" and b: "0 \<le> b" "b + 1 < 2147483648"
    and x: "- 2147483648 \<le> x - b" "x + b < 2147483648" and y: "- 2147483648 \<le> y - b" "y + b < 2147483648"
  shows "square_blocked m e b x y = Some (\<not> passable m b e (x, y))"
proof -
  have row: "square_row m e b xp y [- b..b] =
      Some (\<exists>q \<in> {- b..b}. weight m (xp, y + q) > 0 \<and> (xp, y + q) \<noteq> e)" for xp
    using square_row_spec [OF m, of b "[- b..b]" y e xp] b y by simp
  have "square_rows m e b x y ps =
      Some (\<exists>p \<in> set ps. \<exists>q \<in> {- b..b}. weight m (x + p, y + q) > 0 \<and> (x + p, y + q) \<noteq> e)"
    if "set ps \<subseteq> {- b..b}" for ps
    using that
  proof (induction ps)
    case Nil
    show ?case using b by (simp add: c_sint_ok)
  next
    case (Cons p ps)
    then have "c_sint (x + p) = Some (x + p)" using x by (auto intro: c_sint_ok)
    with Cons show ?case by (simp add: row del: c_sint_Some Bex_def) blast
  qed
  from this [of "[- b..b]"] have "square_rows m e b x y [- b..b] =
      Some (\<exists>p \<in> {- b..b}. \<exists>q \<in> {- b..b}. weight m (x + p, y + q) > 0 \<and> (x + p, y + q) \<noteq> e)" by simp
  with b have "square_blocked m e b x y =
      Some (\<exists>p \<in> {- b..b}. \<exists>q \<in> {- b..b}. weight m (x + p, y + q) > 0 \<and> (x + p, y + q) \<noteq> e)"
    by (simp add: square_blocked_def c_sint_ok)
  also have "(\<exists>p \<in> {- b..b}. \<exists>q \<in> {- b..b}. weight m (x + p, y + q) > 0 \<and> (x + p, y + q) \<noteq> e) =
      (\<not> passable m b e (x, y))"
    using weight_nonneg [of m] by (simp add: passable_def less_le eq_commute [of 0] del: atLeastAtMost_iff)
  finally show ?thesis .
qed

lemma square_blocked_negative:
  assumes "- 2147483648 < b" "b < 0"
  shows "square_blocked m e b x y = Some (\<not> passable m b e (x, y))"
  using assms by (simp add: square_blocked_def passable_def c_simps)

lemma square_blocked_large:
  assumes m: "map_wf m" and e: "\<not> out_of_map m (fst e) (snd e)" and b: "x < b" "y < b" "0 \<le> b" "b < 2147483648"
    and xy: "- 1 \<le> x" "- 1 \<le> y"
  shows "square_blocked m e b x y = Some (\<not> passable m b e (x, y))"
proof -
  have out: "out_of_map m (x - b) (y - b)" using b by (simp add: out_of_map_def)
  then have w: "weight m (x - b, y - b) = BLOCK_WEIGHT" and ne: "(x - b, y - b) \<noteq> e"
    using e by (auto simp: weight_def)
  have first: "[- b..b] = - b # [- b + 1..b]" using b by (intro upto_rec1) simp
  have row: "square_row m e b (x - b) y (- b # qs) = Some True" for qs
    using b xy w ne by (cases e) (auto simp: map_get_weight [OF m] BLOCK_WEIGHT_def c_simps)
  have "square_rows m e b x y (- b # ps) = Some True" for ps
    unfolding square_rows.simps first using b xy by (simp add: c_sint_ok row del: square_row.simps)
  then have "square_blocked m e b x y = Some True"
    using b first by (simp add: square_blocked_def c_simps)
  moreover have "\<not> passable m b e (x, y)"
  proof
    assume "passable m b e (x, y)"
    moreover have "- b \<in> {- b..b}" using b by simp
    ultimately have "weight m (x + - b, y + - b) = 0 \<or> (x + - b, y + - b) = e"
      unfolding passable_def fst_conv snd_conv by blast
    with w ne show False by (simp add: BLOCK_WEIGHT_def)
  qed
  ultimately show ?thesis by simp
qed

lemma step_cost_OFF:
  "step_cost u v = Some w \<longleftrightarrow> (\<exists>(dx, dy, d) \<in> set OFF. v = (fst u + dx, snd u + dy) \<and> w = d + d)"
  by (cases u; cases v) (auto simp: step_cost_def OFF_def split: if_splits)

lemma step_cost_bounds: "step_cost u v = Some w \<Longrightarrow> 10 \<le> w \<and> w \<le> 14"
  by (auto simp: step_cost_OFF OFF_def)

lemma edge_bounds: "edge m b e u w v \<Longrightarrow> 10 \<le> w \<and> w \<le> 14"
  unfolding edge_def using step_cost_bounds by blast

text \<open>The estimate is consistent, with half the cost of the move to spare.\<close>

lemma estimate_step:
  assumes "step_cost u v = Some w"
  shows "2 * estimate e u \<le> w + 2 * estimate e v"
proof -
  obtain ux uy ex ey where [simp]: "u = (ux, uy)" "e = (ex, ey)" by (cases u; cases e)
  from assms show ?thesis
    unfolding step_cost_OFF OFF_def estimate_def dist_def Let_def abs_if
    by (auto split: if_splits)
qed

lemma estimate_nonneg: "0 \<le> estimate e v"
  by (simp add: estimate_def dist_bounds)

lemma reach_estimate:
  "reach m b e s c v \<Longrightarrow> 0 \<le> c \<and> 2 * estimate e s \<le> c + 2 * estimate e v"
proof (induction rule: reach.induct)
  case start
  then show ?case by simp
next
  case (move c u w v)
  then have w: "step_cost u v = Some w" by (simp add: edge_def)
  from estimate_step [OF this, of e] step_cost_bounds [OF w] move.IH show ?case by linarith
qed

lemma walk_cost_reach:
  assumes "walk_cost m b e p = Some c" "reach m b e s c0 (hd p)"
  shows "reach m b e s (c0 + c) (last p)"
  using assms
proof (induction m b e p arbitrary: c c0 rule: walk_cost.induct)
  case (3 m b e u v rest)
  then obtain w c' where w: "passable m b e v" "step_cost u v = Some w"
    "walk_cost m b e (v # rest) = Some c'" "c = w + c'"
    by (auto split: if_splits simp: bind_eq_Some_conv)
  then have "reach m b e s (c0 + w) (hd (v # rest))" using 3(3) by (auto simp: edge_def intro: reach.move)
  from 3(1) [OF w(1,2,3) this] w(4) show ?case by (simp add: add.assoc)
qed auto

lemma walk_cost_snoc:
  assumes "walk_cost m b e p = Some c" "edge m b e (last p) w v"
  shows "walk_cost m b e (p @ [v]) = Some (c + w)"
  using assms
proof (induction m b e p arbitrary: c rule: walk_cost.induct)
  case (2 m b e u)
  then show ?case by (simp add: edge_def)
next
  case (3 m b e u v' rest)
  then obtain w' c' where w: "passable m b e v'" "step_cost u v' = Some w'"
    "walk_cost m b e (v' # rest) = Some c'" "c = w' + c'"
    by (auto split: if_splits simp: bind_eq_Some_conv)
  with 3(1) [OF w(1,2,3)] 3(3) show ?case by simp
qed auto

subsection \<open>Invariants of the nodes\<close>

text \<open>Every node but the first was reached by a move from a closed node; the nodes are at different
  cells, and none at the target is closed.  The \<open>t\<close>-th closed node has a score of at most \<open>14 t\<close>.\<close>

definition nodes_inv :: "gmap \<Rightarrow> int \<Rightarrow> cell \<Rightarrow> cell \<Rightarrow> pathnode list \<Rightarrow> nat list \<Rightarrow> bool" where
  "nodes_inv m b e s ns cs \<longleftrightarrow> distinct (map pos ns) \<and> set cs \<subseteq> {..<length ns} \<and>
     ns \<noteq> [] \<and> ns ! 0 = new_node e (fst s) (snd s) (- 1) 0 \<and>
     (\<forall>i. 0 < i \<longrightarrow> i < length ns \<longrightarrow> (\<exists>j \<in> set cs. \<exists>w. pn_camefrom (ns ! i) = int j \<and>
        edge m b e (pos (ns ! j)) w (pos (ns ! i)) \<and> pn_gscore (ns ! i) = pn_gscore (ns ! j) + w)) \<and>
     (\<forall>i < length ns. 0 \<le> pn_gscore (ns ! i) \<and> pn_gscore (ns ! i) \<le> 14 * int (length cs) \<and>
        pn_fscore (ns ! i) = pn_gscore (ns ! i) + estimate e (pos (ns ! i))) \<and>
     (\<forall>i \<in> set cs. pos (ns ! i) \<noteq> e) \<and>
     (\<forall>t < length cs. pn_gscore (ns ! (cs ! t)) \<le> 14 * int t)"

definition open_closed :: "pathnode list \<Rightarrow> nat list \<Rightarrow> nat list \<Rightarrow> bool" where
  "open_closed ns os cs \<longleftrightarrow> mset os + mset cs = mset [0..<length ns]"

lemma open_closed_facts:
  assumes "open_closed ns os cs"
  shows "set os \<subseteq> {..<length ns}" "set cs \<subseteq> {..<length ns}" "length os + length cs = length ns"
    "set os \<inter> set cs = {}" "\<And>i. i < length ns \<Longrightarrow> i \<in> set os \<or> i \<in> set cs" "distinct os"
proof -
  have eq: "mset (os @ cs) = mset [0..<length ns]" using assms by (simp add: open_closed_def)
  then have "set (os @ cs) = {..<length ns}" by (metis atLeast_upt mset_eq_setD)
  then show "set os \<subseteq> {..<length ns}" "set cs \<subseteq> {..<length ns}"
    "\<And>i. i < length ns \<Longrightarrow> i \<in> set os \<or> i \<in> set cs" by auto
  from mset_eq_length [OF eq] show "length os + length cs = length ns" by simp
  from mset_eq_imp_distinct_iff [OF eq] show "set os \<inter> set cs = {}" "distinct os" by auto
qed

text \<open>What the expansion of a node leaves of the nodes: more of them, better scores.\<close>

definition grows :: "pathnode list \<Rightarrow> pathnode list \<Rightarrow> nat list \<Rightarrow> bool" where
  "grows ns ns' cs \<longleftrightarrow> length ns \<le> length ns' \<and>
     (\<forall>i < length ns. pos (ns' ! i) = pos (ns ! i) \<and> pn_gscore (ns' ! i) \<le> pn_gscore (ns ! i)) \<and>
     (\<forall>i \<in> set cs. ns' ! i = ns ! i)"

lemma grows_refl [simp]: "grows ns ns cs"
  by (simp add: grows_def)

lemma grows_trans: "grows a b cs \<Longrightarrow> grows b c cs \<Longrightarrow> grows a c cs"
  unfolding grows_def by (smt (verit, best) order_less_le_trans order_trans)

lemma pos_new_node [simp]: "pos (new_node e x y f g) = (x, y)"
  and score_new_node [simp]: "pn_gscore (new_node e x y f g) = g"
  "pn_camefrom (new_node e x y f g) = f"
  and fscore_new_node: "pn_fscore (new_node e x y f g) = g + estimate e (x, y)"
  by (simp_all add: pos_def new_node_def estimate_def)

lemma nodes_invD:
  assumes "nodes_inv m b e s ns cs"
  shows "distinct (map pos ns)" "set cs \<subseteq> {..<length ns}" "ns \<noteq> []"
    "ns ! 0 = new_node e (fst s) (snd s) (- 1) 0"
    "\<And>i. 0 < i \<Longrightarrow> i < length ns \<Longrightarrow> \<exists>j \<in> set cs. \<exists>w. pn_camefrom (ns ! i) = int j \<and>
        edge m b e (pos (ns ! j)) w (pos (ns ! i)) \<and> pn_gscore (ns ! i) = pn_gscore (ns ! j) + w"
    "\<And>i. i < length ns \<Longrightarrow> 0 \<le> pn_gscore (ns ! i)"
    "\<And>i. i < length ns \<Longrightarrow> pn_gscore (ns ! i) \<le> 14 * int (length cs)"
    "\<And>i. i < length ns \<Longrightarrow> pn_fscore (ns ! i) = pn_gscore (ns ! i) + estimate e (pos (ns ! i))"
    "\<And>i. i \<in> set cs \<Longrightarrow> pos (ns ! i) \<noteq> e"
    "\<And>t. t < length cs \<Longrightarrow> pn_gscore (ns ! (cs ! t)) \<le> 14 * int t"
  using assms unfolding nodes_inv_def by auto

lemma same_pos:
  assumes "distinct (map pos ns)" "i < length ns" "j < length ns" "pos (ns ! i) = pos (ns ! j)"
  shows "i = j"
  using assms nth_eq_iff_index_eq [OF assms(1), of i j] by simp

text \<open>Every node's score is the cost of a walk to it.\<close>

lemma node_reach:
  assumes inv: "nodes_inv m b e s ns cs"
  shows "i < length ns \<Longrightarrow> reach m b e s (pn_gscore (ns ! i)) (pos (ns ! i))"
proof (induction "nat (pn_gscore (ns ! i))" arbitrary: i rule: less_induct)
  case less
  show ?case
  proof (cases "i = 0")
    case True
    with nodes_invD(4) [OF inv] show ?thesis by (simp add: reach.start)
  next
    case False
    with nodes_invD(5) [OF inv, of i] less.prems obtain j w where
      j: "j \<in> set cs" "edge m b e (pos (ns ! j)) w (pos (ns ! i))"
        "pn_gscore (ns ! i) = pn_gscore (ns ! j) + w" by auto
    then have jn: "j < length ns" using nodes_invD(2) [OF inv] by auto
    have "10 \<le> w" using edge_bounds [OF j(2)] by simp
    with j(3) nodes_invD(6) [OF inv jn]
    have "nat (pn_gscore (ns ! j)) < nat (pn_gscore (ns ! i))" by linarith
    from less.hyps [OF this jn] j show ?thesis by (auto intro: reach.move)
  qed
qed

text \<open>The two changes a visited neighbour causes.\<close>

lemma improve_inv:
  assumes inv: "nodes_inv m b e s ns (cs @ [cur])" and part: "open_closed ns os (cs @ [cur])"
    and j: "j \<in> set os" and better: "pn_gscore (ns ! cur) + w < pn_gscore (ns ! j)"
    and e: "edge m b e (pos (ns ! cur)) w (pos (ns ! j))"
  defines "nb \<equiv> (ns ! j)\<lparr>pn_camefrom := int cur, pn_gscore := pn_gscore (ns ! cur) + w,
    pn_fscore := pn_gscore (ns ! cur) + w + estimate e (pos (ns ! j))\<rparr>"
  shows "nodes_inv m b e s (ns[j := nb]) (cs @ [cur])" "open_closed (ns[j := nb]) os (cs @ [cur])"
    "grows ns (ns[j := nb]) (cs @ [cur])"
proof -
  have jn: "j < length ns" and jc: "j \<notin> set (cs @ [cur])"
    using open_closed_facts(1,4) [OF part] j by auto
  have cur: "cur < length ns" "cur \<noteq> j" using nodes_invD(2) [OF inv] jc by auto
  have w: "10 \<le> w" "w \<le> 14" using edge_bounds [OF e] by auto
  have gc: "0 \<le> pn_gscore (ns ! cur)" "pn_gscore (ns ! cur) \<le> 14 * int (length cs)"
    using nodes_invD(6) [OF inv cur(1)] nodes_invD(10) [OF inv, of "length cs"] by auto
  have j0: "j \<noteq> 0"
    using better w gc nodes_invD(4) [OF inv] by (metis add_nonneg_pos less_imp_le not_less score_new_node(1)
        zero_less_numeral order_less_le_trans order_less_irrefl)
  have pnb: "pos nb = pos (ns ! j)" by (simp add: nb_def pos_def)
  then have pos: "map pos (ns[j := nb]) = map pos ns"
    using jn by (metis list_update_id map_update)
  have old: "(ns[j := nb]) ! i = ns ! i" if "i \<in> set (cs @ [cur])" for i
    using that jc by (metis nth_list_update_neq)
  show "open_closed (ns[j := nb]) os (cs @ [cur])" using part by (simp add: open_closed_def)
  show "grows ns (ns[j := nb]) (cs @ [cur])"
    using old better pnb jn by (auto simp: grows_def nth_list_update_if) (simp add: nb_def)
  have from_closed: "\<exists>k \<in> set (cs @ [cur]). \<exists>w. pn_camefrom (ns[j := nb] ! i) = int k \<and>
      edge m b e (pos (ns[j := nb] ! k)) w (pos (ns[j := nb] ! i)) \<and>
      pn_gscore (ns[j := nb] ! i) = pn_gscore (ns[j := nb] ! k) + w" if "0 < i" "i < length ns" for i
  proof (cases "i = j")
    case True
    with e jn cur pnb show ?thesis by (intro bexI [of _ cur] exI [of _ w]) (auto simp: nb_def)
  next
    case False
    from nodes_invD(5) [OF inv that] obtain k v where k: "k \<in> set (cs @ [cur])"
      "pn_camefrom (ns ! i) = int k" "edge m b e (pos (ns ! k)) v (pos (ns ! i))"
      "pn_gscore (ns ! i) = pn_gscore (ns ! k) + v" by blast
    with False old [OF k(1)] show ?thesis by (intro bexI [OF _ k(1)] exI [of _ v]) simp
  qed
  have "0 \<le> pn_gscore (ns[j := nb] ! i) \<and> pn_gscore (ns[j := nb] ! i) \<le> 14 * int (length (cs @ [cur])) \<and>
      pn_fscore (ns[j := nb] ! i) = pn_gscore (ns[j := nb] ! i) + estimate e (pos (ns[j := nb] ! i))"
    if "i < length ns" for i
  proof (cases "i = j")
    case True
    with jn gc w show ?thesis by (simp add: pnb) (simp add: nb_def)
  next
    case False
    with nodes_invD(6,7,8) [OF inv that] show ?thesis by simp
  qed
  moreover have "(ns[j := nb]) ! 0 = ns ! 0" using j0 by simp
  moreover have "\<forall>t < length (cs @ [cur]). pn_gscore (ns[j := nb] ! ((cs @ [cur]) ! t)) \<le> 14 * int t"
    using nodes_invD(10) [OF inv] old nth_mem by metis
  ultimately show "nodes_inv m b e s (ns[j := nb]) (cs @ [cur])"
    using nodes_invD(1-4,9) [OF inv] from_closed old unfolding nodes_inv_def pos by simp
qed

lemma new_node_inv:
  assumes inv: "nodes_inv m b e s ns (cs @ [cur])" and part: "open_closed ns os (cs @ [cur])"
    and new: "(x, y) \<notin> set (map pos ns)" and e: "edge m b e (pos (ns ! cur)) w (x, y)"
  defines "nn \<equiv> new_node e x y (int cur) (pn_gscore (ns ! cur) + w)"
  shows "nodes_inv m b e s (ns @ [nn]) (cs @ [cur])"
    "open_closed (ns @ [nn]) (os @ [length ns]) (cs @ [cur])" "grows ns (ns @ [nn]) (cs @ [cur])"
proof -
  have cur: "cur < length ns" using nodes_invD(2) [OF inv] by auto
  have old: "(ns @ [nn]) ! i = ns ! i" if "i < length ns" for i using that by (simp add: nth_append)
  have closed: "i < length ns" if "i \<in> set (cs @ [cur])" for i using that nodes_invD(2) [OF inv] by auto
  show "open_closed (ns @ [nn]) (os @ [length ns]) (cs @ [cur])"
    using part by (simp add: open_closed_def)
  show "grows ns (ns @ [nn]) (cs @ [cur])"
    using closed by (auto simp: grows_def old)
  have w: "10 \<le> w" "w \<le> 14" using edge_bounds [OF e] by auto
  have gc: "0 \<le> pn_gscore (ns ! cur)" "pn_gscore (ns ! cur) \<le> 14 * int (length cs)"
    using nodes_invD(6) [OF inv cur(1)] nodes_invD(10) [OF inv, of "length cs"] by auto
  have from_closed: "\<exists>k \<in> set (cs @ [cur]). \<exists>w. pn_camefrom ((ns @ [nn]) ! i) = int k \<and>
      edge m b e (pos ((ns @ [nn]) ! k)) w (pos ((ns @ [nn]) ! i)) \<and>
      pn_gscore ((ns @ [nn]) ! i) = pn_gscore ((ns @ [nn]) ! k) + w"
    if "0 < i" "i < length (ns @ [nn])" for i
  proof (cases "i = length ns")
    case True
    with e cur show ?thesis
      by (intro bexI [of _ cur] exI [of _ w]) (auto simp: nn_def nth_append)
  next
    case False
    with that have i: "i < length ns" by simp
    from nodes_invD(5) [OF inv that(1) i] obtain k v where k: "k \<in> set (cs @ [cur])"
      "pn_camefrom (ns ! i) = int k" "edge m b e (pos (ns ! k)) v (pos (ns ! i))"
      "pn_gscore (ns ! i) = pn_gscore (ns ! k) + v" by blast
    with i closed [OF k(1)] show ?thesis by (intro bexI [OF _ k(1)] exI [of _ v]) (simp add: old)
  qed
  have scores: "0 \<le> pn_gscore ((ns @ [nn]) ! i) \<and> pn_gscore ((ns @ [nn]) ! i) \<le> 14 * int (length (cs @ [cur])) \<and>
      pn_fscore ((ns @ [nn]) ! i) = pn_gscore ((ns @ [nn]) ! i) + estimate e (pos ((ns @ [nn]) ! i))"
    if "i < length (ns @ [nn])" for i
  proof (cases "i = length ns")
    case True
    with gc w show ?thesis by (simp add: nn_def fscore_new_node)
  next
    case False
    with that have i: "i < length ns" by simp
    with nodes_invD(6,7,8) [OF inv i] show ?thesis by (simp add: old)
  qed
  have "\<forall>t < length (cs @ [cur]). pn_gscore ((ns @ [nn]) ! ((cs @ [cur]) ! t)) \<le> 14 * int t"
    using nodes_invD(10) [OF inv] old closed nth_mem by metis
  moreover have "distinct (map pos (ns @ [nn]))" using nodes_invD(1) [OF inv] new by (simp add: nn_def)
  moreover have "set (cs @ [cur]) \<subseteq> {..<length (ns @ [nn])}" using closed by fastforce
  moreover have "(ns @ [nn]) ! 0 = new_node e (fst s) (snd s) (- 1) 0"
    using nodes_invD(3,4) [OF inv] by (simp add: nth_append)
  moreover have "\<forall>i \<in> set (cs @ [cur]). pos ((ns @ [nn]) ! i) \<noteq> e"
    using nodes_invD(9) [OF inv] old closed by metis
  ultimately show "nodes_inv m b e s (ns @ [nn]) (cs @ [cur])"
    using from_closed scores unfolding nodes_inv_def by blast
qed

subsection \<open>Optimality\<close>

text \<open>Closed nodes have the score of a cheapest walk, and the neighbours of expanded nodes are
  known with a score at least as good as through the expanded node.\<close>

definition optimal :: "gmap \<Rightarrow> int \<Rightarrow> cell \<Rightarrow> cell \<Rightarrow> pathnode list \<Rightarrow> nat list \<Rightarrow> bool" where
  "optimal m b e s ns cs \<longleftrightarrow>
     (\<forall>i \<in> set cs. \<forall>c. reach m b e s c (pos (ns ! i)) \<longrightarrow> pn_gscore (ns ! i) \<le> c)"

definition known :: "pathnode list \<Rightarrow> cell \<Rightarrow> int \<Rightarrow> bool" where
  "known ns v g \<longleftrightarrow> (\<exists>j < length ns. pos (ns ! j) = v \<and> pn_gscore (ns ! j) \<le> g)"

definition expanded :: "gmap \<Rightarrow> int \<Rightarrow> cell \<Rightarrow> pathnode list \<Rightarrow> nat list \<Rightarrow> bool" where
  "expanded m b e ns cs \<longleftrightarrow>
     (\<forall>i \<in> set cs. \<forall>w v. edge m b e (pos (ns ! i)) w v \<longrightarrow> known ns v (pn_gscore (ns ! i) + w))"

text \<open>There are enough nodes: the cells a search can reach fit in the array.\<close>

definition fits :: "gmap \<Rightarrow> int \<Rightarrow> cell \<Rightarrow> cell \<Rightarrow> nat \<Rightarrow> bool" where
  "fits m b e s depth \<longleftrightarrow>
     (\<exists>C. finite C \<and> card C \<le> depth \<and> s \<in> C \<and> (\<forall>v. passable m b e v \<longrightarrow> v \<in> C))"

lemma known_grows: "known ns v g \<Longrightarrow> grows ns ns' cs \<Longrightarrow> known ns' v g"
  unfolding known_def grows_def by (metis order_less_le_trans order_trans)

lemma optimal_grows:
  "optimal m b e s ns cs \<Longrightarrow> grows ns ns' cs \<Longrightarrow> optimal m b e s ns' cs"
  by (simp add: optimal_def grows_def)

lemma expanded_grows:
  assumes "expanded m b e ns cs'" "grows ns ns' cs" "set cs' \<subseteq> set cs"
  shows "expanded m b e ns' cs'"
  unfolding expanded_def
proof (intro ballI allI impI)
  fix i w v assume i: "i \<in> set cs'" and "edge m b e (pos (ns' ! i)) w v"
  moreover have "ns' ! i = ns ! i" using assms(2,3) i by (auto simp: grows_def)
  ultimately show "known ns' v (pn_gscore (ns' ! i) + w)"
    using assms(1) known_grows [OF _ assms(2)] unfolding expanded_def by metis
qed

lemma nodes_fit:
  assumes inv: "nodes_inv m b e s ns cs" and "fits m b e s depth"
    and v: "passable m b e v" "v \<notin> set (map pos ns)"
  shows "length ns < depth"
proof -
  from assms(2) obtain C where C: "finite C" "card C \<le> depth" "s \<in> C"
    "\<And>v. passable m b e v \<Longrightarrow> v \<in> C" by (auto simp: fits_def)
  have "pos (ns ! i) \<in> C" if "i < length ns" for i
  proof (cases "i = 0")
    case True
    with nodes_invD(4) [OF inv] C(3) show ?thesis by simp
  next
    case False
    with nodes_invD(5) [OF inv, of i] that have "passable m b e (pos (ns ! i))" by (auto simp: edge_def)
    then show ?thesis by (rule C(4))
  qed
  then have "set (map pos ns) \<subseteq> C" by (auto simp: in_set_conv_nth)
  with C(4) [OF v(1)] v(2) have "set (map pos ns) \<subset> C" by auto
  from psubset_card_mono [OF C(1) this] distinct_card [OF nodes_invD(1) [OF inv]] C(2)
  show ?thesis by simp
qed

text \<open>A walk either stays on closed nodes or crosses the open set, and the score of the open node
  it crosses bounds the score of every walk behind it.\<close>

lemma frontier:
  assumes inv: "nodes_inv m b e s ns cs" and part: "open_closed ns os cs" and ex: "expanded m b e ns cs"
  shows "reach m b e s c v \<Longrightarrow>
    (\<exists>i \<in> set cs. pos (ns ! i) = v \<and> pn_gscore (ns ! i) \<le> c) \<or>
    (\<exists>k \<in> set os. pn_fscore (ns ! k) \<le> c + estimate e v)"
proof (induction rule: reach.induct)
  case start
  have "0 < length ns" using nodes_invD(3) [OF inv] by simp
  from open_closed_facts(5) [OF part this] show ?case
  proof
    assume "0 \<in> set os"
    then show ?thesis using nodes_invD(4) [OF inv] by (auto simp: fscore_new_node intro!: bexI [of _ 0])
  next
    assume "0 \<in> set cs"
    then show ?thesis using nodes_invD(4) [OF inv] by (auto intro!: bexI [of _ 0])
  qed
next
  case (move c u w v)
  from move.IH show ?case
  proof
    assume "\<exists>i \<in> set cs. pos (ns ! i) = u \<and> pn_gscore (ns ! i) \<le> c"
    then obtain i where i: "i \<in> set cs" "pos (ns ! i) = u" "pn_gscore (ns ! i) \<le> c" by blast
    with ex move.hyps(2) have "known ns v (pn_gscore (ns ! i) + w)" unfolding expanded_def by blast
    then obtain j where j: "j < length ns" "pos (ns ! j) = v" "pn_gscore (ns ! j) \<le> c + w"
      using i(3) by (force simp: known_def)
    from open_closed_facts(5) [OF part j(1)] show ?thesis
      using j nodes_invD(8) [OF inv j(1)] by (elim disjE) (auto intro!: bexI [of _ j])
  next
    assume "\<exists>k \<in> set os. pn_fscore (ns ! k) \<le> c + estimate e u"
    moreover have "step_cost u v = Some w" using move.hyps(2) by (simp add: edge_def)
    from estimate_step [OF this, of e] estimate_nonneg [of e] step_cost_bounds [OF this]
    have "estimate e u \<le> w + estimate e v" by linarith
    ultimately show ?thesis by force
  qed
qed

lemma lowest_optimal:
  assumes inv: "nodes_inv m b e s ns cs" and part: "open_closed ns os cs" and ex: "expanded m b e ns cs"
    and j: "j \<in> set os" "\<And>i. i \<in> set os \<Longrightarrow> pn_fscore (ns ! j) \<le> pn_fscore (ns ! i)"
    and r: "reach m b e s c (pos (ns ! j))"
  shows "pn_gscore (ns ! j) \<le> c"
proof -
  have jn: "j < length ns" using open_closed_facts(1) [OF part] j(1) by auto
  from frontier [OF inv part ex r] show ?thesis
  proof
    assume "\<exists>i \<in> set cs. pos (ns ! i) = pos (ns ! j) \<and> pn_gscore (ns ! i) \<le> c"
    then obtain i where "i \<in> set cs" "pos (ns ! i) = pos (ns ! j)" "pn_gscore (ns ! i) \<le> c" by blast
    moreover from this(1) have "i < length ns" using nodes_invD(2) [OF inv] by auto
    ultimately show ?thesis using same_pos [OF nodes_invD(1) [OF inv] _ jn] by auto
  next
    assume "\<exists>k \<in> set os. pn_fscore (ns ! k) \<le> c + estimate e (pos (ns ! j))"
    with j(2) have "pn_fscore (ns ! j) \<le> c + estimate e (pos (ns ! j))" by force
    with nodes_invD(8) [OF inv jn] show ?thesis by simp
  qed
qed

subsection \<open>Computations within \<open>int\<close>\<close>

text \<open>All that the expansion of a node computes for one neighbour is within \<open>int\<close>.\<close>

definition move_fits :: "gmap \<Rightarrow> int \<Rightarrow> cell \<Rightarrow> pathnode \<Rightarrow> int \<times> int \<times> int \<Rightarrow> bool" where
  "move_fits m b e pn = (\<lambda>(dx, dy, d).
     c_sint (pn_x pn + dx) = Some (pn_x pn + dx) \<and> c_sint (pn_y pn + dy) = Some (pn_y pn + dy) \<and>
     square_blocked m e b (pn_x pn + dx) (pn_y pn + dy) =
       Some (\<not> passable m b e (pn_x pn + dx, pn_y pn + dy)) \<and>
     pn_gscore pn + (d + d) + estimate e (pn_x pn + dx, pn_y pn + dy) < 2147483648)"

text \<open>This holds of every node that a search with this many nodes can have.\<close>

definition within_int :: "gmap \<Rightarrow> int \<Rightarrow> cell \<Rightarrow> cell \<Rightarrow> nat \<Rightarrow> bool" where
  "within_int m b e s depth \<longleftrightarrow> estimate e s < 2147483648 \<and>
     (\<forall>ns cs i off. nodes_inv m b e s ns cs \<longrightarrow> length cs \<le> length ns \<longrightarrow> length ns \<le> depth \<longrightarrow>
        i < length ns \<longrightarrow> off \<in> set OFF \<longrightarrow> move_fits m b e (ns ! i) off)"

lemma within_intD:
  assumes "within_int m b e s depth" "nodes_inv m b e s ns cs" "length cs \<le> length ns"
    "length ns \<le> depth" "i < length ns" "(dx, dy, d) \<in> set OFF"
  shows "c_sint (pn_x (ns ! i) + dx) = Some (pn_x (ns ! i) + dx)"
    "c_sint (pn_y (ns ! i) + dy) = Some (pn_y (ns ! i) + dy)"
    "square_blocked m e b (pn_x (ns ! i) + dx) (pn_y (ns ! i) + dy) =
       Some (\<not> passable m b e (pn_x (ns ! i) + dx, pn_y (ns ! i) + dy))"
    "c_sint (pn_gscore (ns ! i) + (d + d)) = Some (pn_gscore (ns ! i) + (d + d))"
    "distance (pn_x (ns ! i) + dx) (pn_y (ns ! i) + dy) (fst e) (snd e) =
       Some (estimate e (pn_x (ns ! i) + dx, pn_y (ns ! i) + dy))"
    "c_sint (pn_gscore (ns ! i) + (d + d) + estimate e (pn_x (ns ! i) + dx, pn_y (ns ! i) + dy)) =
       Some (pn_gscore (ns ! i) + (d + d) + estimate e (pn_x (ns ! i) + dx, pn_y (ns ! i) + dy))"
    "0 \<le> pn_gscore (ns ! i) + (d + d)"
    "pn_gscore (ns ! i) + (d + d) + estimate e (pn_x (ns ! i) + dx, pn_y (ns ! i) + dy) < 2147483648"
proof -
  have fits: "move_fits m b e (ns ! i) (dx, dy, d)" using assms unfolding within_int_def by blast
  then show "c_sint (pn_x (ns ! i) + dx) = Some (pn_x (ns ! i) + dx)"
    "c_sint (pn_y (ns ! i) + dy) = Some (pn_y (ns ! i) + dy)"
    "square_blocked m e b (pn_x (ns ! i) + dx) (pn_y (ns ! i) + dy) =
       Some (\<not> passable m b e (pn_x (ns ! i) + dx, pn_y (ns ! i) + dy))"
    unfolding move_fits_def prod.case by blast+
  show lt: "pn_gscore (ns ! i) + (d + d) + estimate e (pn_x (ns ! i) + dx, pn_y (ns ! i) + dy) < 2147483648"
    using fits unfolding move_fits_def prod.case by blast
  have "5 \<le> d" using assms(6) by (auto simp: OFF_def)
  then show g: "0 \<le> pn_gscore (ns ! i) + (d + d)" using nodes_invD(6) [OF assms(2,5)] by simp
  note est = estimate_nonneg [of e "(pn_x (ns ! i) + dx, pn_y (ns ! i) + dy)"]
  have "- 2147483648 \<le> pn_gscore (ns ! i) + (d + d)" "pn_gscore (ns ! i) + (d + d) < 2147483648"
    using g est lt by linarith+
  then show "c_sint (pn_gscore (ns ! i) + (d + d)) = Some (pn_gscore (ns ! i) + (d + d))"
    by (rule c_sint_ok)
  have "- 2147483648 \<le> pn_gscore (ns ! i) + (d + d) + estimate e (pn_x (ns ! i) + dx, pn_y (ns ! i) + dy)"
    using g est by linarith
  then show "c_sint (pn_gscore (ns ! i) + (d + d) + estimate e (pn_x (ns ! i) + dx, pn_y (ns ! i) + dy)) =
       Some (pn_gscore (ns ! i) + (d + d) + estimate e (pn_x (ns ! i) + dx, pn_y (ns ! i) + dy))"
    using lt by (rule c_sint_ok)
  have "estimate e (pn_x (ns ! i) + dx, pn_y (ns ! i) + dy) < 2147483648" using g lt by linarith
  then show "distance (pn_x (ns ! i) + dx) (pn_y (ns ! i) + dy) (fst e) (snd e) =
       Some (estimate e (pn_x (ns ! i) + dx, pn_y (ns ! i) + dy))"
    using distance_dist by (simp add: estimate_def)
qed

subsection \<open>The loops\<close>

lemma find_open_cases:
  assumes "search_repr c ns os cs" "set os \<subseteq> {..<length ns}"
  obtains (found) j where "find_open c x y = Some (Some j)" "j \<in> set os" "pos (ns ! j) = (x, y)"
  | (absent) "find_open c x y = Some None" "\<And>j. j \<in> set os \<Longrightarrow> pos (ns ! j) \<noteq> (x, y)"
proof (cases "find (\<lambda>j. pos (ns ! j) = (x, y)) os")
  case None
  then show ?thesis using absent find_open_repr [OF assms] by (auto simp: find_None_iff)
next
  case (Some j)
  then have "j \<in> set os" "pos (ns ! j) = (x, y)" by (auto simp: find_Some_iff in_set_conv_nth)
  with Some show ?thesis using found find_open_repr [OF assms] by simp
qed

text \<open>One neighbour: the loop of \<open>expand\<close> goes on with nodes that grew, unless the nodes are used up.\<close>

lemma expand_one:
  assumes m: "map_wf m" and c: "search_repr c ns os (cs @ [cur])" and e: "e = (ctx_end_x c, ctx_end_y c)"
    and inv: "nodes_inv m b e s ns (cs @ [cur])" and part: "open_closed ns os (cs @ [cur])"
    and off: "(dx, dy, d) \<in> set OFF" and ok: "within_int m b e s (p_depth (ctx_P c))"
  defines "v \<equiv> (pn_x (ns ! cur) + dx, pn_y (ns ! cur) + dy)"
  obtains (go) c' ns' os' where
      "expand m b cur ((dx, dy, d) # offs) c = expand m b cur offs c'"
      "search_repr c' ns' os' (cs @ [cur])" "same_target c c'"
      "nodes_inv m b e s ns' (cs @ [cur])" "open_closed ns' os' (cs @ [cur])" "grows ns ns' (cs @ [cur])"
      "optimal m b e s ns (cs @ [cur]) \<Longrightarrow> passable m b e v \<Longrightarrow> known ns' v (pn_gscore (ns ! cur) + (d + d))"
  | (full) "expand m b cur ((dx, dy, d) # offs) c = Some c" "\<not> fits m b e s (p_depth (ctx_P c))"
proof -
  have cur: "cur < length ns" using nodes_invD(2) [OF inv] by auto
  note at = repr_node_at [OF c cur]
  have step: "step_cost (pos (ns ! cur)) v = Some (d + d)"
    unfolding step_cost_OFF using off by (auto simp: v_def pos_def)
  note closed = in_closed_repr [OF c nodes_invD(2) [OF inv]]
  have len: "length (cs @ [cur]) \<le> length ns" using open_closed_facts(3) [OF part] by simp
  have depth: "length ns \<le> p_depth (ctx_P c)" using c by (simp add: search_repr_def)
  note int = within_intD [OF ok inv len depth cur off]
  note scores = int(5,6) [unfolded e fst_conv snd_conv]
  note sums = int(1-4) scores int(3) [unfolded e] int(4) [folded mult_2] scores(2) [folded mult_2]
    scores(2) [folded mult_2, unfolded add.assoc]
  consider (skip) "\<exists>j \<in> set (cs @ [cur]). pos (ns ! j) = v"
    | (wall) "\<not> (\<exists>j \<in> set (cs @ [cur]). pos (ns ! j) = v)" "\<not> passable m b e v"
    | (visit) "\<not> (\<exists>j \<in> set (cs @ [cur]). pos (ns ! j) = v)" "passable m b e v" by blast
  then show thesis
  proof cases
    case skip
    then obtain j where j: "j \<in> set (cs @ [cur])" "pos (ns ! j) = v" by blast
    have eq: "expand m b cur ((dx, dy, d) # offs) c = expand m b cur offs c"
      using at closed [of "fst v" "snd v"] skip by (simp add: v_def sums)
    have "known ns v (pn_gscore (ns ! cur) + (d + d))"
      if "optimal m b e s ns (cs @ [cur])" "passable m b e v"
    proof -
      have "reach m b e s (pn_gscore (ns ! cur) + (d + d)) v"
        using node_reach [OF inv cur] step that(2) by (auto simp: edge_def intro: reach.move)
      with that(1) j have "pn_gscore (ns ! j) \<le> pn_gscore (ns ! cur) + (d + d)"
        unfolding optimal_def by metis
      moreover have "j < length ns" using j(1) nodes_invD(2) [OF inv] by auto
      ultimately show ?thesis using j(2) by (auto simp: known_def)
    qed
    with eq c inv part show thesis by (intro go [of c ns os]) simp_all
  next
    case wall
    have "expand m b cur ((dx, dy, d) # offs) c = expand m b cur offs c"
      using at closed [of "fst v" "snd v"] wall e by (simp add: v_def sums)
    with wall c inv part show thesis by (intro go [of c ns os]) simp_all
  next
    case visit
    have edge: "edge m b e (pos (ns ! cur)) (d + d) v" using step visit(2) by (simp add: edge_def)
    note os = open_closed_facts(1) [OF part]
    show thesis
    proof (cases rule: find_open_cases [OF c os, where x = "fst v" and y = "snd v", case_names found absent])
      case (found j)
      have jn: "j < length ns" using os found(2) by auto
      show thesis
      proof (cases "pn_gscore (ns ! cur) + (d + d) < pn_gscore (ns ! j)")
        case False
        have "expand m b cur ((dx, dy, d) # offs) c = expand m b cur offs c"
          using at closed [of "fst v" "snd v"] visit e found False repr_node_at [OF c jn]
          by (simp add: v_def add.assoc sums)
        with False c inv part jn found(3) show thesis
          by (intro go [of c ns os]) (auto simp: known_def)
      next
        case True
        let ?nb = "(ns ! j)\<lparr>pn_camefrom := int cur, pn_gscore := pn_gscore (ns ! cur) + (d + d),
          pn_fscore := pn_gscore (ns ! cur) + (d + d) + estimate e (pos (ns ! j))\<rparr>"
        from update_node_repr [OF c jn, of ?nb] obtain c' where c':
          "update_node c j ?nb = Some c'" "search_repr c' (ns[j := ?nb]) os (cs @ [cur])"
          "same_target c c'" by blast
        have "expand m b cur ((dx, dy, d) # offs) c = expand m b cur offs c'"
          using at closed [of "fst v" "snd v"] visit e found True repr_node_at [OF c jn] c'(1)
          by (simp add: v_def add.assoc sums)
        moreover have "edge m b e (pos (ns ! cur)) (d + d) (pos (ns ! j))" using edge found(3) by simp
        note imp = improve_inv [OF inv part found(2) True this]
        moreover have "known (ns[j := ?nb]) v (pn_gscore (ns ! cur) + (d + d))"
          using jn found(3) by (auto simp: known_def pos_def intro!: exI [of _ j])
        ultimately show thesis using c' by (intro go [of c' "ns[j := ?nb]" os])
      qed
    next
      case absent
      have new: "v \<notin> set (map pos ns)"
      proof
        assume "v \<in> set (map pos ns)"
        then obtain i where "i < length ns" "pos (ns ! i) = v" by (auto simp: in_set_conv_nth)
        with open_closed_facts(5) [OF part, of i] absent(2) visit(1) show False by auto
      qed
      show thesis
      proof (cases "length ns < p_depth (ctx_P c)")
        case False
        have "expand m b cur ((dx, dy, d) # offs) c = Some c"
          using at closed [of "fst v" "snd v"] visit e absent(1) add_open_full [OF c] False
          by (simp add: v_def not_less add.assoc sums)
        with full nodes_fit [OF inv _ visit(2) new] False show thesis by blast
      next
        case True
        let ?nn = "new_node e (fst v) (snd v) (int cur) (pn_gscore (ns ! cur) + (d + d))"
        have "length os + length (cs @ [cur]) < p_depth (ctx_P c)"
          using True open_closed_facts(3) [OF part] by simp
        moreover have "pn_gscore (ns ! cur) + (d + d) + dist (fst v) (snd v) (ctx_end_x c) (ctx_end_y c) < 2147483648"
          using int(8) e by (simp add: estimate_def v_def)
        ultimately obtain c' where c':
          "add_open c (fst v) (snd v) (int cur) (pn_gscore (ns ! cur) + (d + d)) = Some (Some (length ns), c')"
          "search_repr c' (ns @ [?nn]) (os @ [length ns]) (cs @ [cur])" "same_target c c'"
          using add_open_repr [OF c True _ int(7), of "fst v" "snd v" "int cur"] e by blast
        have "expand m b cur ((dx, dy, d) # offs) c = expand m b cur offs c'"
          using at closed [of "fst v" "snd v"] visit e absent(1) c'(1)
          by (simp add: v_def add.assoc sums)
        moreover have "known (ns @ [?nn]) v (pn_gscore (ns ! cur) + (d + d))"
          by (auto simp: known_def intro!: exI [of _ "length ns"])
        ultimately show thesis
          using c' new_node_inv [OF inv part, of "fst v" "snd v" "d + d"] new edge
          by (intro go [of c' "ns @ [?nn]" "os @ [length ns]"]) simp_all
      qed
    qed
  qed
qed

lemma expand_spec:
  assumes m: "map_wf m"
  shows "search_repr c ns os (cs @ [cur]) \<Longrightarrow> e = (ctx_end_x c, ctx_end_y c) \<Longrightarrow>
    nodes_inv m b e s ns (cs @ [cur]) \<Longrightarrow> open_closed ns os (cs @ [cur]) \<Longrightarrow> set offs \<subseteq> set OFF \<Longrightarrow>
    within_int m b e s (p_depth (ctx_P c)) \<Longrightarrow>
    \<exists>c' ns' os'. expand m b cur offs c = Some c' \<and> search_repr c' ns' os' (cs @ [cur]) \<and>
      same_target c c' \<and> nodes_inv m b e s ns' (cs @ [cur]) \<and> open_closed ns' os' (cs @ [cur]) \<and>
      grows ns ns' (cs @ [cur]) \<and>
      (optimal m b e s ns (cs @ [cur]) \<longrightarrow> fits m b e s (p_depth (ctx_P c)) \<longrightarrow>
        (\<forall>(dx, dy, d) \<in> set offs. passable m b e (pn_x (ns ! cur) + dx, pn_y (ns ! cur) + dy) \<longrightarrow>
          known ns' (pn_x (ns ! cur) + dx, pn_y (ns ! cur) + dy) (pn_gscore (ns ! cur) + (d + d))))"
proof (induction offs arbitrary: c ns os)
  case Nil
  then show ?case by (intro exI [of _ c] exI [of _ ns] exI [of _ os]) simp
next
  case (Cons off offs)
  obtain dx dy d where off: "off = (dx, dy, d)" by (cases off) auto
  with Cons.prems(5) have mem: "(dx, dy, d) \<in> set OFF" by simp
  show ?case
  proof (cases rule: expand_one [OF m Cons.prems(1-4) mem Cons.prems(6), where offs = offs, case_names go full])
    case (go c' ns' os')
    have e': "e = (ctx_end_x c', ctx_end_y c')" and depth: "p_depth (ctx_P c') = p_depth (ctx_P c)"
      using Cons.prems(2) go(3) by (simp_all add: same_target_def)
    have offs: "set offs \<subseteq> set OFF" using Cons.prems(5) by simp
    from Cons.IH [OF go(2) e' go(4,5) offs] Cons.prems(6) depth obtain c2 ns2 os2 where r:
      "expand m b cur offs c' = Some c2" "search_repr c2 ns2 os2 (cs @ [cur])"
      "same_target c' c2" "nodes_inv m b e s ns2 (cs @ [cur])" "open_closed ns2 os2 (cs @ [cur])"
      "grows ns' ns2 (cs @ [cur])"
      "optimal m b e s ns' (cs @ [cur]) \<longrightarrow> fits m b e s (p_depth (ctx_P c')) \<longrightarrow>
        (\<forall>(dx, dy, d) \<in> set offs. passable m b e (pn_x (ns' ! cur) + dx, pn_y (ns' ! cur) + dy) \<longrightarrow>
          known ns2 (pn_x (ns' ! cur) + dx, pn_y (ns' ! cur) + dy) (pn_gscore (ns' ! cur) + (d + d)))"
      by auto
    have cur: "ns' ! cur = ns ! cur" using go(6) by (simp add: grows_def)
    have "known ns2 (pn_x (ns ! cur) + dx, pn_y (ns ! cur) + dy) (pn_gscore (ns ! cur) + (d + d))"
      if "optimal m b e s ns (cs @ [cur])" "passable m b e (pn_x (ns ! cur) + dx, pn_y (ns ! cur) + dy)"
      using known_grows [OF go(7) [OF that] r(6)] .
    with r(7) optimal_grows [OF _ go(6)] have
      "optimal m b e s ns (cs @ [cur]) \<longrightarrow> fits m b e s (p_depth (ctx_P c)) \<longrightarrow>
        (\<forall>(dx, dy, d) \<in> set (off # offs). passable m b e (pn_x (ns ! cur) + dx, pn_y (ns ! cur) + dy) \<longrightarrow>
          known ns2 (pn_x (ns ! cur) + dx, pn_y (ns ! cur) + dy) (pn_gscore (ns ! cur) + (d + d)))"
      unfolding cur depth off by simp
    moreover have "expand m b cur (off # offs) c = Some c2" using go(1) r(1) off by simp
    ultimately show ?thesis
      using r(2,4,5) same_target_trans [OF go(3) r(3)] grows_trans [OF go(6) r(6)] by blast
  next
    case full
    with off Cons.prems show ?thesis by (intro exI [of _ c] exI [of _ ns] exI [of _ os]) simp
  qed
qed

text \<open>A turn of the main loop closes the node with the least score and expands it.\<close>

definition search_inv :: "gmap \<Rightarrow> int \<Rightarrow> cell \<Rightarrow> cell \<Rightarrow> search \<Rightarrow> pathnode list \<Rightarrow> nat list \<Rightarrow> nat list \<Rightarrow> bool" where
  "search_inv m b e s c ns os cs \<longleftrightarrow> search_repr c ns os cs \<and> e = (ctx_end_x c, ctx_end_y c) \<and>
     nodes_inv m b e s ns cs \<and> open_closed ns os cs"

lemma close_inv:
  assumes inv: "nodes_inv m b e s ns cs" and part: "open_closed ns os cs" and j: "j \<in> set os"
    and os': "mset os' = mset os - {#j#}" and ne: "pos (ns ! j) \<noteq> e"
  shows "nodes_inv m b e s ns (cs @ [j])" "open_closed ns os' (cs @ [j])"
proof -
  have jn: "j < length ns" using open_closed_facts(1) [OF part] j by auto
  have "mset os' + {#j#} = mset os" using os' j by simp
  then show "open_closed ns os' (cs @ [j])"
    using part by (simp add: open_closed_def) (metis add_mset_add_single union_mset_add_mset_left)
  have "\<forall>i < length ns. 0 \<le> pn_gscore (ns ! i) \<and> pn_gscore (ns ! i) \<le> 14 * int (length (cs @ [j])) \<and>
      pn_fscore (ns ! i) = pn_gscore (ns ! i) + estimate e (pos (ns ! i))"
    using nodes_invD(6,7,8) [OF inv] by force
  moreover have "\<forall>t < length (cs @ [j]). pn_gscore (ns ! ((cs @ [j]) ! t)) \<le> 14 * int t"
    using nodes_invD(7) [OF inv jn] nodes_invD(10) [OF inv] by (auto simp: nth_append less_Suc_eq)
  ultimately show "nodes_inv m b e s ns (cs @ [j])"
    using inv jn ne unfolding nodes_inv_def by (simp only: set_append) auto
qed

lemma optimal_close:
  assumes "optimal m b e s ns cs" "\<And>c. reach m b e s c (pos (ns ! j)) \<Longrightarrow> pn_gscore (ns ! j) \<le> c"
  shows "optimal m b e s ns (cs @ [j])"
  using assms unfolding optimal_def by auto

lemma expanded_close:
  assumes "expanded m b e ns cs" "grows ns ns' (cs @ [j])"
    "\<forall>(dx, dy, d) \<in> set OFF. passable m b e (pn_x (ns ! j) + dx, pn_y (ns ! j) + dy) \<longrightarrow>
       known ns' (pn_x (ns ! j) + dx, pn_y (ns ! j) + dy) (pn_gscore (ns ! j) + (d + d))"
  shows "expanded m b e ns' (cs @ [j])"
proof -
  have j: "ns' ! j = ns ! j" using assms(2) by (simp add: grows_def)
  have "known ns' v (pn_gscore (ns' ! j) + w)" if "edge m b e (pos (ns' ! j)) w v" for w v
  proof -
    from that obtain dx dy d where "(dx, dy, d) \<in> set OFF" "v = (pn_x (ns ! j) + dx, pn_y (ns ! j) + dy)"
      "w = d + d" "passable m b e v" by (auto simp: edge_def step_cost_OFF j pos_def)
    with assms(3) j show ?thesis by auto
  qed
  with expanded_grows [OF assms(1,2)] show ?thesis by (auto simp: expanded_def)
qed

text \<open>What the main loop returns.\<close>

definition loop_result :: "gmap \<Rightarrow> int \<Rightarrow> cell \<Rightarrow> cell \<Rightarrow> pathnode list \<Rightarrow> nat list \<Rightarrow> nat list \<Rightarrow> nat option \<Rightarrow> bool" where
  "loop_result m b e s ns os cs r \<longleftrightarrow> nodes_inv m b e s ns cs \<and> length cs \<le> length ns \<and>
     (case r of Some i \<Rightarrow> i < length ns \<and> pos (ns ! i) = e | None \<Rightarrow> os = [] \<and> open_closed ns [] cs)"

definition best_result :: "gmap \<Rightarrow> int \<Rightarrow> cell \<Rightarrow> cell \<Rightarrow> pathnode list \<Rightarrow> nat option \<Rightarrow> bool" where
  "best_result m b e s ns r \<longleftrightarrow>
     (\<forall>c. reach m b e s c e \<longrightarrow> (case r of Some i \<Rightarrow> pn_gscore (ns ! i) \<le> c | None \<Rightarrow> False))"

lemma path_loop_spec:
  assumes m: "map_wf m"
  shows "search_inv m b e s c ns os cs \<Longrightarrow> within_int m b e s (p_depth (ctx_P c)) \<Longrightarrow>
    \<exists>r c' ns' os' cs'. path_loop m b c = Some (r, c') \<and> search_repr c' ns' os' cs' \<and> same_target c c' \<and>
      loop_result m b e s ns' os' cs' r \<and>
      (optimal m b e s ns cs \<longrightarrow> expanded m b e ns cs \<longrightarrow> fits m b e s (p_depth (ctx_P c)) \<longrightarrow>
        best_result m b e s ns' r)"
proof (induction "p_depth (ctx_P c) - length cs" arbitrary: c ns os cs rule: less_induct)
  case less
  have len: "length cs \<le> length ns"
    using less.prems(1) open_closed_facts(3) by (auto simp: search_inv_def) (metis le_add2)
  from less.prems(1) have c: "search_repr c ns os cs" and e: "e = (ctx_end_x c, ctx_end_y c)"
    and inv: "nodes_inv m b e s ns cs" and part: "open_closed ns os cs" unfolding search_inv_def by blast+
  show ?case
  proof (cases "os = []")
    case True
    have "path_loop m b c = Some (None, c)"
      using c True by (subst path_loop.simps) (simp add: search_repr_def)
    moreover have "best_result m b e s ns None" if "expanded m b e ns cs"
      unfolding best_result_def
      using frontier [OF inv part that] True nodes_invD(9) [OF inv] by (metis emptyE set_empty)
    moreover have "loop_result m b e s ns os cs None"
      using inv part True len by (simp add: loop_result_def)
    ultimately show ?thesis using c same_target_refl by blast
  next
    case False
    from lowest_fscore_repr [OF c open_closed_facts(1) [OF part] False] obtain j c1 os1 where
      j: "lowest_fscore c = Some (j, c1)" "search_repr c1 ns os1 cs" "j \<in> set os"
        "mset os1 = mset os - {#j#}" "\<forall>i \<in> set os. pn_fscore (ns ! j) \<le> pn_fscore (ns ! i)"
        "same_target c c1" by blast
    have jn: "j < length ns" using open_closed_facts(1) [OF part] j(3) by auto
    have e1: "e = (ctx_end_x c1, ctx_end_y c1)" and d1: "p_depth (ctx_P c1) = p_depth (ctx_P c)"
      using e j(6) by (simp_all add: same_target_def)
    have opn: "ctx_open c > 0" using c False by (simp add: search_repr_def)
    have best: "pn_gscore (ns ! j) \<le> g" if "expanded m b e ns cs" "reach m b e s g (pos (ns ! j))" for g
      using lowest_optimal [OF inv part that(1) j(3) _ that(2)] j(5) by blast
    note at = repr_node_at [OF j(2) jn]
    show ?thesis
    proof (cases "pos (ns ! j) = e")
      case True
      have "path_loop m b c = Some (Some j, c1)"
        using opn j(1) at True e1 by (subst path_loop.simps) (simp add: pos_def)
      moreover have "best_result m b e s ns (Some j)" if "expanded m b e ns cs"
        using best [OF that] True by (simp add: best_result_def)
      moreover have "loop_result m b e s ns os1 cs (Some j)"
        using inv True jn len by (simp add: loop_result_def)
      ultimately show ?thesis using j(2,6) by blast
    next
      case False
      note cl = close_inv [OF inv part j(3,4) False]
      have "length os1 + length (cs @ [j]) = length ns" using open_closed_facts(3) [OF cl(2)] .
      moreover have "length ns \<le> p_depth (ctx_P c1)" using j(2) by (simp add: search_repr_def)
      ultimately have room: "length os1 + length cs < p_depth (ctx_P c1)" by simp
      from add_closed_repr [OF j(2) room, of j] obtain c2 where c2:
        "add_closed c1 j = Some c2" "search_repr c2 ns os1 (cs @ [j])" "same_target c1 c2" by blast
      have e2: "e = (ctx_end_x c2, ctx_end_y c2)" using e1 c2(3) by (simp add: same_target_def)
      have int2: "within_int m b e s (p_depth (ctx_P c2))"
        using less.prems(2) c2(3) d1 by (simp add: same_target_def)
      from expand_spec [OF m c2(2) e2 cl subset_refl int2] obtain c3 ns3 os3 where c3:
        "expand m b j OFF c2 = Some c3" "search_repr c3 ns3 os3 (cs @ [j])" "same_target c2 c3"
        "nodes_inv m b e s ns3 (cs @ [j])" "open_closed ns3 os3 (cs @ [j])" "grows ns ns3 (cs @ [j])"
        "optimal m b e s ns (cs @ [j]) \<longrightarrow> fits m b e s (p_depth (ctx_P c2)) \<longrightarrow>
          (\<forall>(dx, dy, d) \<in> set OFF. passable m b e (pn_x (ns ! j) + dx, pn_y (ns ! j) + dy) \<longrightarrow>
            known ns3 (pn_x (ns ! j) + dx, pn_y (ns ! j) + dy) (pn_gscore (ns ! j) + (d + d)))"
        by (elim exE conjE)
      have same: "same_target c c3" using j(6) c2(3) c3(3) same_target_trans by blast
      have d2: "p_depth (ctx_P c2) = p_depth (ctx_P c)" using c2(3) d1 by (simp add: same_target_def)
      have inv3: "search_inv m b e s c3 ns3 os3 (cs @ [j])"
        using c3 e same by (simp add: search_inv_def same_target_def)
      have d3: "p_depth (ctx_P c3) = p_depth (ctx_P c)" using same by (simp add: same_target_def)
      have "p_depth (ctx_P c3) - length (cs @ [j]) < p_depth (ctx_P c) - length cs"
        using room d1 unfolding d3 by simp
      from less.hyps [OF this inv3] less.prems(2) d3 obtain r c' ns' os' cs' where r:
        "path_loop m b c3 = Some (r, c')" "search_repr c' ns' os' cs'" "same_target c3 c'"
        "loop_result m b e s ns' os' cs' r"
        "optimal m b e s ns3 (cs @ [j]) \<longrightarrow> expanded m b e ns3 (cs @ [j]) \<longrightarrow>
          fits m b e s (p_depth (ctx_P c3)) \<longrightarrow> best_result m b e s ns' r" by auto
      have "path_loop m b c = Some (r, c')"
        using opn j(1) at False e1 c2(1) c3(1) r(1)
        by (subst path_loop.simps) (auto simp: pos_def prod_eq_iff)
      moreover have "best_result m b e s ns' r"
        if "optimal m b e s ns cs" "expanded m b e ns cs" "fits m b e s (p_depth (ctx_P c))"
      proof -
        have opt: "optimal m b e s ns (cs @ [j])" using optimal_close [OF that(1)] best [OF that(2)] by blast
        have "expanded m b e ns3 (cs @ [j])"
          by (rule expanded_close [OF that(2) c3(6) c3(7) [unfolded d2, THEN mp, OF opt, THEN mp, OF that(3)]])
        with r(5) optimal_grows [OF opt c3(6)] that(3) show ?thesis by (simp only: d3)
      qed
      ultimately show ?thesis using r(2,4) same_target_trans [OF same r(3)] by blast
    qed
  qed
qed

subsection \<open>The result of the search\<close>

text \<open>The start has the least score of all nodes, so a search that fails returns it.\<close>

lemma start_lowest:
  assumes inv: "nodes_inv m b e s ns cs" and i: "0 < i" "i < length ns"
  shows "pn_fscore (ns ! 0) < pn_fscore (ns ! i)"
proof -
  from nodes_invD(5) [OF inv i] obtain j w where j: "j \<in> set cs"
    "edge m b e (pos (ns ! j)) w (pos (ns ! i))" "pn_gscore (ns ! i) = pn_gscore (ns ! j) + w" by blast
  then have "j < length ns" using nodes_invD(2) [OF inv] by auto
  with nodes_invD(6) [OF inv] edge_bounds [OF j(2)] j(3) have "0 < pn_gscore (ns ! i)" by force
  moreover have "pn_fscore (ns ! 0) = estimate e s" using nodes_invD(4) [OF inv] by (simp add: fscore_new_node)
  ultimately show ?thesis
    using reach_estimate [OF node_reach [OF inv i(2)]] nodes_invD(8) [OF inv i(2)] by linarith
qed

lemma nearest_loop_spec:
  assumes "\<And>k. k \<in> set is \<Longrightarrow> \<exists>j < length ns. set_at P k = Some j \<and> node_at P j = Some (ns ! j)"
    "ret < length ns" "f = pn_fscore (ns ! ret)"
  shows "\<exists>j < length ns. nearest_loop P ret f is = Some j \<and> pn_fscore (ns ! j) \<le> f \<and>
    (\<forall>k \<in> set is. \<forall>i. set_at P k = Some i \<longrightarrow> pn_fscore (ns ! j) \<le> pn_fscore (ns ! i))"
  using assms
proof (induction "is" arbitrary: ret f)
  case Nil
  then show ?case by auto
next
  case (Cons k "is")
  from Cons.prems(1) [of k] obtain j where j: "j < length ns" "set_at P k = Some j"
    "node_at P j = Some (ns ! j)" by auto
  have rest: "\<exists>j < length ns. set_at P k = Some j \<and> node_at P j = Some (ns ! j)" if "k \<in> set is" for k
    using Cons.prems(1) that by simp
  show ?case
  proof (cases "pn_fscore (ns ! j) < f")
    case True
    from Cons.IH [OF rest j(1) refl] obtain j' where "j' < length ns"
      "nearest_loop P j (pn_fscore (ns ! j)) is = Some j'" "pn_fscore (ns ! j') \<le> pn_fscore (ns ! j)"
      "\<forall>k \<in> set is. \<forall>i. set_at P k = Some i \<longrightarrow> pn_fscore (ns ! j') \<le> pn_fscore (ns ! i)" by blast
    with True j show ?thesis by auto
  next
    case False
    from Cons.IH [OF rest Cons.prems(2,3)] obtain j' where "j' < length ns"
      "nearest_loop P ret f is = Some j'" "pn_fscore (ns ! j') \<le> f"
      "\<forall>k \<in> set is. \<forall>i. set_at P k = Some i \<longrightarrow> pn_fscore (ns ! j') \<le> pn_fscore (ns ! i)" by blast
    with False j show ?thesis by auto
  qed
qed

lemma nearest_closed:
  assumes c: "search_repr c ns [] cs" and inv: "nodes_inv m b e s ns cs" and part: "open_closed ns [] cs"
  shows "nearest (ctx_P c) (p_depth (ctx_P c) - length cs) (p_depth (ctx_P c)) = Some 0"
proof -
  let ?d = "p_depth (ctx_P c)"
  have len: "length cs = length ns" "length cs \<le> ?d" "0 < length ns"
    using open_closed_facts(3) [OF part] c nodes_invD(3) [OF inv] by (simp_all add: search_repr_def)
  have at: "set_at (ctx_P c) k = Some (cs ! (?d - 1 - k))" "cs ! (?d - 1 - k) < length ns"
    "node_at (ctx_P c) (cs ! (?d - 1 - k)) = Some (ns ! (cs ! (?d - 1 - k)))"
    if "?d - length cs \<le> k" "k < ?d" for k
  proof -
    have t: "?d - 1 - k < length cs" "?d - 1 - (?d - 1 - k) = k" using that by auto
    show "set_at (ctx_P c) k = Some (cs ! (?d - 1 - k))" using repr_set_at(2) [OF c t(1)] t(2) by simp
    show "cs ! (?d - 1 - k) < length ns" by (rule nth_below [OF nodes_invD(2) [OF inv] t(1)])
    then show "node_at (ctx_P c) (cs ! (?d - 1 - k)) = Some (ns ! (cs ! (?d - 1 - k)))"
      by (rule repr_node_at [OF c])
  qed
  let ?r = "cs ! (?d - 1 - (?d - length cs))"
  have first: "set_at (ctx_P c) (?d - length cs) = Some ?r" "?r < length ns"
    "node_at (ctx_P c) ?r = Some (ns ! ?r)"
  proof -
    have "?d - length cs < ?d" using len by linarith
    from at [OF le_refl this] show "set_at (ctx_P c) (?d - length cs) = Some ?r" "?r < length ns"
      "node_at (ctx_P c) ?r = Some (ns ! ?r)" by simp_all
  qed
  have "\<exists>j < length ns. set_at (ctx_P c) k = Some j \<and> node_at (ctx_P c) j = Some (ns ! j)"
    if "k \<in> set [?d - length cs + 1..<?d]" for k using at [of k] that by auto
  from nearest_loop_spec [OF this first(2) refl] obtain j where j: "j < length ns"
    "nearest_loop (ctx_P c) ?r (pn_fscore (ns ! ?r)) [?d - length cs + 1..<?d] = Some j"
    "pn_fscore (ns ! j) \<le> pn_fscore (ns ! ?r)"
    "\<forall>k \<in> set [?d - length cs + 1..<?d]. \<forall>i. set_at (ctx_P c) k = Some i \<longrightarrow>
       pn_fscore (ns ! j) \<le> pn_fscore (ns ! i)" by blast
  have "0 \<in> set cs" using open_closed_facts(5) [OF part len(3)] by simp
  then obtain t where t: "t < length cs" "cs ! t = 0" by (auto simp: in_set_conv_nth)
  have s0: "set_at (ctx_P c) (?d - 1 - t) = Some 0" using repr_set_at(2) [OF c t(1)] t(2) by simp
  have "pn_fscore (ns ! j) \<le> pn_fscore (ns ! 0)"
  proof (cases "?d - 1 - t = ?d - length cs")
    case True
    then have "?r = 0" using s0 first(1) by simp
    with j(3) show ?thesis by simp
  next
    case False
    with t len have "?d - 1 - t \<in> set [?d - length cs + 1..<?d]" by auto
    with j(4) s0 show ?thesis by blast
  qed
  with start_lowest [OF inv _ j(1)] have "j = 0" by force
  with j(2) first show ?thesis by (simp add: nearest_def)
qed

text \<open>The chain of \<open>camefrom\<close> read backwards is a walk from the start to the node.\<close>

lemma chain_spec:
  assumes inv: "nodes_inv m b e s ns cs" and P: "\<And>i. i < length ns \<Longrightarrow> node_at P i = Some (ns ! i)"
  shows "i < length ns \<Longrightarrow> \<exists>ps. ps \<noteq> [] \<and> hd ps = pos (ns ! i) \<and> last ps = s \<and>
    (\<forall>k. chain_length P i k = Some (k + length ps - 1)) \<and>
    chain_positions P (int i) (length ps) = Some ps \<and>
    walk_cost m b e (rev ps) = Some (pn_gscore (ns ! i))"
proof (induction "nat (pn_gscore (ns ! i))" arbitrary: i rule: less_induct)
  case less
  note at = P [OF less.prems]
  show ?case
  proof (cases "i = 0")
    case True
    note n0 = nodes_invD(4) [OF inv]
    have "\<forall>k. chain_length P i k = Some k"
      using at True n0 by (subst chain_length.simps) simp
    moreover have "chain_positions P (int i) 1 = Some [s]"
      using at True n0 by (simp add: numeral_eq_Suc new_node_def)
    ultimately show ?thesis using True n0 by (intro exI [of _ "[s]"]) simp
  next
    case False
    with nodes_invD(5) [OF inv, of i] less.prems obtain j w where
      j: "j \<in> set cs" "pn_camefrom (ns ! i) = int j" "edge m b e (pos (ns ! j)) w (pos (ns ! i))"
        "pn_gscore (ns ! i) = pn_gscore (ns ! j) + w" by auto
    then have jn: "j < length ns" using nodes_invD(2) [OF inv] by auto
    have "nat (pn_gscore (ns ! j)) < nat (pn_gscore (ns ! i))"
      using edge_bounds [OF j(3)] j(4) nodes_invD(6) [OF inv jn] by linarith
    from less.hyps [OF this jn] obtain ps where ps: "ps \<noteq> []" "hd ps = pos (ns ! j)" "last ps = s"
      "\<forall>k. chain_length P j k = Some (k + length ps - 1)" "chain_positions P (int j) (length ps) = Some ps"
      "walk_cost m b e (rev ps) = Some (pn_gscore (ns ! j))" by blast
    have "chain_length P i k = Some (k + length (pos (ns ! i) # ps) - 1)" for k
    proof -
      have "chain_length P i k = chain_length P j (k + 1)"
        using at j(2) by (subst chain_length.simps) simp
      with ps(4) show ?thesis by simp
    qed
    moreover have "chain_positions P (int i) (length (pos (ns ! i) # ps)) = Some (pos (ns ! i) # ps)"
      using at j(2) ps(5) by (simp add: pos_def)
    moreover have "walk_cost m b e (rev (pos (ns ! i) # ps)) = Some (pn_gscore (ns ! i))"
      using walk_cost_snoc [OF ps(6), of w "pos (ns ! i)"] j(3,4) ps(1,2) by (simp add: last_rev)
    ultimately show ?thesis using ps(1,3) by (intro exI [of _ "pos (ns ! i) # ps"]) simp
  qed
qed

definition fresh_path :: "nat \<Rightarrow> path" where
  "fresh_path d = \<lparr>p_depth = d, p_set = replicate d None, p_n = replicate d None\<rparr>"

lemma initial_search:
  assumes "0 < d" "estimate e s < 2147483648"
  shows "\<exists>c. add_open \<lparr>ctx_P = fresh_path d, ctx_open = 0, ctx_closed = 0, ctx_n = 0,
       ctx_end_x = fst e, ctx_end_y = snd e\<rparr> (fst s) (snd s) (- 1) 0 = Some (Some 0, c) \<and>
    search_inv m b e s c [new_node e (fst s) (snd s) (- 1) 0] [0] [] \<and> p_depth (ctx_P c) = d"
proof -
  let ?c = "\<lparr>ctx_P = fresh_path d, ctx_open = 0, ctx_closed = 0, ctx_n = 0,
    ctx_end_x = fst e, ctx_end_y = snd e\<rparr>"
  have "search_repr ?c [] [] []" by (simp add: search_repr_def fresh_path_def)
  from add_open_repr [OF this, of 0 "fst s" "snd s" "- 1"] assms obtain c where
    c: "add_open ?c (fst s) (snd s) (- 1) 0 = Some (Some 0, c)"
      "search_repr c [new_node e (fst s) (snd s) (- 1) 0] [0] []" "same_target ?c c"
    by (auto simp: fresh_path_def estimate_def)
  moreover have "nodes_inv m b e s [new_node e (fst s) (snd s) (- 1) 0] []"
    by (simp add: nodes_inv_def fscore_new_node)
  moreover have "p_depth (ctx_P c) = d" "e = (ctx_end_x c, ctx_end_y c)"
    using c(3) by (simp_all add: same_target_def fresh_path_def)
  ultimately show ?thesis by (auto simp: search_inv_def open_closed_def)
qed

lemma path_finding_spec:
  assumes m: "map_wf m" and d: "0 < d" and ok: "within_int m b e s d"
  shows "\<exists>i P ns cs. path_finding m (fresh_path d) (fst s) (snd s) (fst e) (snd e) b = Some (i, P) \<and>
    nodes_inv m b e s ns cs \<and> length cs \<le> length ns \<and> length ns \<le> d \<and> i < length ns \<and>
    (\<forall>k < length ns. node_at P k = Some (ns ! k)) \<and> (\<forall>k \<ge> length ns. node_at P k = None) \<and>
    (pos (ns ! i) = e \<or> i = 0) \<and>
    (fits m b e s d \<longrightarrow> (pos (ns ! i) = e \<and> (\<forall>c. reach m b e s c e \<longrightarrow> pn_gscore (ns ! i) \<le> c)) \<or>
      (i = 0 \<and> (\<forall>c. \<not> reach m b e s c e)))"
proof -
  let ?n0 = "[new_node e (fst s) (snd s) (- 1) 0]"
  from ok have "estimate e s < 2147483648" by (simp add: within_int_def)
  from initial_search [OF d this, of m b] obtain c where
    c: "add_open \<lparr>ctx_P = fresh_path d, ctx_open = 0, ctx_closed = 0, ctx_n = 0,
      ctx_end_x = fst e, ctx_end_y = snd e\<rparr> (fst s) (snd s) (- 1) 0 = Some (Some 0, c)"
      "search_inv m b e s c ?n0 [0] []" "p_depth (ctx_P c) = d" by blast
  from path_loop_spec [OF m c(2)] ok c(3) obtain r c' ns os cs where
    r: "path_loop m b c = Some (r, c')" "search_repr c' ns os cs" "same_target c c'"
      "loop_result m b e s ns os cs r"
      "optimal m b e s ?n0 [] \<longrightarrow> expanded m b e ?n0 [] \<longrightarrow> fits m b e s (p_depth (ctx_P c)) \<longrightarrow>
        best_result m b e s ns r" by auto
  have best: "fits m b e s d \<Longrightarrow> best_result m b e s ns r"
    using r(5) c(3) by (simp add: optimal_def expanded_def)
  have inv: "nodes_inv m b e s ns cs" and len: "length cs \<le> length ns" "length ns \<le> d"
    using r(2-4) c(3) by (simp_all add: loop_result_def search_repr_def same_target_def)
  have at: "\<forall>k < length ns. node_at (ctx_P c') k = Some (ns ! k)"
    "\<forall>k \<ge> length ns. node_at (ctx_P c') k = None"
    using repr_node_at [OF r(2)] r(2) by (auto simp: search_repr_def node_at_def arr_get_def)
  show ?thesis
  proof (cases r)
    case (Some i)
    have "path_finding m (fresh_path d) (fst s) (snd s) (fst e) (snd e) b = Some (i, ctx_P c')"
      using c(1) r(1) Some by (simp add: path_finding_def)
    moreover have "i < length ns" "pos (ns ! i) = e" using r(4) Some by (simp_all add: loop_result_def)
    moreover have "fits m b e s d \<Longrightarrow> \<forall>c. reach m b e s c e \<longrightarrow> pn_gscore (ns ! i) \<le> c"
      using best Some by (simp add: best_result_def)
    ultimately show ?thesis using inv len at by blast
  next
    case None
    then have none: "os = []" "open_closed ns [] cs" using r(4) by (simp_all add: loop_result_def)
    have "ctx_open c' = 0" "ctx_closed c' = length cs" using r(2) none(1) by (simp_all add: search_repr_def)
    then have "path_finding m (fresh_path d) (fst s) (snd s) (fst e) (snd e) b = Some (0, ctx_P c')"
      using c(1) r(1) None nearest_closed [OF r(2) [unfolded none(1)] inv none(2)]
      by (simp add: path_finding_def)
    moreover have "0 < length ns" using nodes_invD(3) [OF inv] by simp
    moreover have "fits m b e s d \<Longrightarrow> \<forall>c. \<not> reach m b e s c e"
      using best None by (simp add: best_result_def)
    ultimately show ?thesis using inv len at by blast
  qed
qed

lemma passable_on_map:
  assumes "0 \<le> b" "\<not> out_of_map m (fst e) (snd e)" "passable m b e v"
  shows "\<not> out_of_map m (fst v) (snd v)"
proof -
  have "(0::int) \<in> {- b..b}" using assms(1) by simp
  with assms(3) have "weight m (fst v + 0, snd v + 0) = 0 \<or> (fst v + 0, snd v + 0) = e"
    unfolding passable_def by blast
  with assms(2) show ?thesis by (auto simp: weight_def BLOCK_WEIGHT_def)
qed

text \<open>The cells of the map, and their number.\<close>

definition cell_set :: "gmap \<Rightarrow> cell set" where
  "cell_set m = {0..<gm_width m} \<times> {0..<gm_height m}"

lemma cell_set_iff: "v \<in> cell_set m \<longleftrightarrow> \<not> out_of_map m (fst v) (snd v)"
  by (cases v) (auto simp: cell_set_def out_of_map_def)

lemma cell_set_finite [simp]: "finite (cell_set m)"
  by (simp add: cell_set_def)

lemma cell_set_card:
  assumes "s \<in> cell_set m"
  shows "int (card (cell_set m)) = gm_width m * gm_height m"
proof -
  have "0 \<le> gm_width m" "0 \<le> gm_height m" using assms by (auto simp: cell_set_def)
  then show ?thesis by (simp add: cell_set_def card_cartesian_product)
qed

lemma fits_map:
  assumes "0 \<le> b" "\<not> out_of_map m (fst s) (snd s)" "\<not> out_of_map m (fst e) (snd e)"
    "gm_width m * gm_height m \<le> int d"
  shows "fits m b e s d"
proof -
  have "\<forall>v. passable m b e v \<longrightarrow> v \<in> cell_set m"
    using passable_on_map [OF assms(1,3)] by (simp add: cell_set_iff)
  moreover have s: "s \<in> cell_set m" using assms(2) by (simp add: cell_set_iff)
  moreover have "card (cell_set m) \<le> d" using cell_set_card [OF s] assms(4) by linarith
  ultimately show ?thesis unfolding fits_def by (intro exI [of _ "cell_set m"]) simp
qed

lemma walk_cost_length: "walk_cost m b e p = Some c \<Longrightarrow> 10 * (int (length p) - 1) \<le> c"
proof (induction m b e p arbitrary: c rule: walk_cost.induct)
  case (3 m b e u v rest)
  then obtain w c' where w: "passable m b e v" "step_cost u v = Some w"
    "walk_cost m b e (v # rest) = Some c'" "c = w + c'"
    by (auto split: if_splits simp: bind_eq_Some_conv)
  from 3(1) [OF w(1,2,3)] step_cost_bounds [OF w(2)] w(4) show ?case by simp
qed auto

text \<open>\<open>lpath\<close> on valid positions.\<close>

lemma lpath_eq:
  assumes m: "map_wf m" and se: "\<not> out_of_map m (fst s) (snd s)" "\<not> out_of_map m (fst e) (snd e)"
    and d: "0 < d" "d < 2147483648" and b: "- 2147483648 \<le> b" "b < 2147483648"
    and ok: "within_int m b e s (nat d)"
  shows "\<exists>i ps ns cs. lpath room m (fst s) (snd s) (fst e) (snd e) b (Some d) =
      Some (if 2 * length ps \<le> room then Inr ps else Inl StackOverflow) \<and>
    i < length ns \<and> hd ps = s \<and> last ps = pos (ns ! i) \<and>
    walk_cost m b e ps = Some (pn_gscore (ns ! i)) \<and> (pos (ns ! i) = e \<or> ps = [s]) \<and>
    (fits m b e s (nat d) \<longrightarrow>
      (pos (ns ! i) = e \<and> (\<forall>c. reach m b e s c e \<longrightarrow> pn_gscore (ns ! i) \<le> c)) \<or>
      (ps = [s] \<and> (\<forall>c. \<not> reach m b e s c e)))"
proof -
  from d have "0 < nat d" by simp
  from path_finding_spec [OF m this ok] obtain i P ns cs where
    pf: "path_finding m (fresh_path (nat d)) (fst s) (snd s) (fst e) (snd e) b = Some (i, P)"
      "nodes_inv m b e s ns cs" "length cs \<le> length ns" "length ns \<le> nat d" "i < length ns"
      "\<forall>k < length ns. node_at P k = Some (ns ! k)" "pos (ns ! i) = e \<or> i = 0"
      "fits m b e s (nat d) \<longrightarrow> (pos (ns ! i) = e \<and> (\<forall>c. reach m b e s c e \<longrightarrow> pn_gscore (ns ! i) \<le> c)) \<or>
        (i = 0 \<and> (\<forall>c. \<not> reach m b e s c e))" by (elim exE conjE)
  from chain_spec [OF pf(2) _ pf(5), of P] pf(6) obtain ps where
    ps: "ps \<noteq> []" "hd ps = pos (ns ! i)" "last ps = s" "\<forall>k. chain_length P i k = Some (k + length ps - 1)"
      "chain_positions P (int i) (length ps) = Some ps"
      "walk_cost m b e (rev ps) = Some (pn_gscore (ns ! i))" by blast
  have [simp]: "to_int32 (fst s) = fst s" "to_int32 (snd s) = snd s" "to_int32 (fst e) = fst e"
    "to_int32 (snd e) = snd e" "to_int32 b = b" "to_int32 d = d"
    using se m d b by (auto simp: out_of_map_def map_wf_def intro!: to_int32_id)
  have chk: "check_position m (fst s) (snd s) = Inr ()" "check_position m (fst e) (snd e) = Inr ()"
    using se by (simp_all add: check_position_def)
  have "(- 1, 0, 5) \<in> set OFF" by (simp add: OFF_def)
  from within_intD(8) [OF ok pf(2-5) this] estimate_nonneg have "pn_gscore (ns ! i) < 2147483648"
    by (smt (verit))
  with walk_cost_length [OF ps(6)] have "int (length ps) * 2 < 2147483648" by simp
  then have slots: "c_sint (int (length ps) * 2) = Some (int (length ps) * 2)" by (simp add: c_simps)
  have "lpath room m (fst s) (snd s) (fst e) (snd e) b (Some d) =
      Some (if 2 * length (rev ps) \<le> room then Inr (rev ps) else Inl StackOverflow)"
    using pf(1) ps(4,5) chk d(1) by (auto simp: lpath_def fresh_path_def Let_def slots)
  moreover have "rev ps = [s]" if "i = 0"
  proof -
    have "node_at P 0 = Some (ns ! 0)" using pf(5,6) that by blast
    then have "chain_length P i 1 = Some 1"
      using that nodes_invD(4) [OF pf(2)] by (subst chain_length.simps) simp
    with ps(1,3,4) show ?thesis by (cases ps) auto
  qed
  ultimately show ?thesis
    using pf(5,7,8) ps by (intro exI [of _ i] exI [of _ "rev ps"] exI [of _ ns] exI [of _ cs])
      (auto simp: hd_rev last_rev)
qed

subsection \<open>Map operations\<close>

lemma cell_index:
  assumes "\<not> out_of_map m x y" "\<not> out_of_map m x' y'"
  shows "nat (y * gm_width m + x) = nat (y' * gm_width m + x') \<longleftrightarrow> (x, y) = (x', y')"
proof
  have in_map: "0 \<le> x" "x < gm_width m" "0 \<le> y" "0 \<le> x'" "x' < gm_width m" "0 \<le> y'"
    using assms by (auto simp: out_of_map_def)
  assume "nat (y * gm_width m + x) = nat (y' * gm_width m + x')"
  moreover have "0 \<le> y * gm_width m + x" "0 \<le> y' * gm_width m + x'" using in_map by simp_all
  ultimately have eq: "y * gm_width m + x = y' * gm_width m + x'" by (simp only: eq_nat_nat_iff)
  have "y = (y * gm_width m + x) div gm_width m" using in_map by simp
  moreover have "y' = (y' * gm_width m + x') div gm_width m" using in_map by simp
  ultimately have "y = y'" using eq by simp
  with eq show "(x, y) = (x', y')" by simp
qed simp

lemma map_set_spec:
  assumes m: "map_wf m" and v: "\<not> out_of_map m x y"
  shows "\<exists>m'. map_set m x y w = Some (weight m (x, y), m') \<and> map_wf m' \<and>
    gm_width m' = gm_width m \<and> gm_height m' = gm_height m \<and>
    weight m' = (weight m)((x, y) := w mod 256)"
proof -
  let ?i = "y * gm_width m + x"
  let ?m = "m\<lparr>gm_m := (gm_m m)[nat ?i := word_of_int w]\<rparr>"
  from map_get_weight [OF m, of x y] v have cell: "map_cell m x y = Some (word_of_int (weight m (x, y)))"
    and "uint (word_of_int (weight m (x, y)) :: u8) = weight m (x, y)"
    by (auto simp: map_get_def out_of_map_def weight_def map_cell_def Let_def split: if_splits)
  then have i: "nat ?i < length (gm_m m)" by (auto simp: map_cell_def Let_def split: if_splits)
  have "weight ?m u = ((weight m)((x, y) := w mod 256)) u" for u
  proof (cases "out_of_map m (fst u) (snd u)")
    case True
    with v show ?thesis by (auto simp: weight_def out_of_map_def)
  next
    case False
    then have "\<not> out_of_map ?m (fst u) (snd u)" by (simp add: out_of_map_def)
    then have "weight ?m u = uint ((gm_m m)[nat ?i := word_of_int w] ! nat (snd u * gm_width m + fst u))"
      by (simp add: weight_def)
    also have "\<dots> = (if nat (snd u * gm_width m + fst u) = nat ?i then w mod 256
        else uint (gm_m m ! nat (snd u * gm_width m + fst u)))"
      using i by (simp add: nth_list_update_if uint_word_of_int)
    finally show ?thesis using cell_index [OF False v] False by (cases u) (auto simp: weight_def)
  qed
  moreover have "map_set m x y w = Some (weight m (x, y), ?m)"
    using cell i \<open>uint (word_of_int (weight m (x, y)) :: u8) = weight m (x, y)\<close>
    by (simp add: map_set_def c_simps)
  moreover have "map_wf ?m" using m by (simp add: map_wf_def)
  ultimately show ?thesis by (intro exI [of _ ?m]) (simp add: fun_eq_iff)
qed

definition letter :: "char \<Rightarrow> bool" where
  "letter c \<longleftrightarrow> of_char c \<ge> (65::nat) \<and> of_char c \<le> (90::nat)"

definition same_size :: "gmap \<Rightarrow> gmap \<Rightarrow> bool" where
  "same_size m m' \<longleftrightarrow> gm_width m' = gm_width m \<and> gm_height m' = gm_height m"

lemma same_size_out_of_map: "same_size m m' \<Longrightarrow> out_of_map m' = out_of_map m"
  by (simp add: same_size_def out_of_map_def fun_eq_iff)

lemma addobstacle_loop_spec:
  assumes "map_wf m" "0 \<le> y" "y < gm_height m" "0 \<le> x" "x + int (length cs) \<le> gm_width m"
    "\<And>k. 0 \<le> k \<Longrightarrow> k < int (length cs) \<Longrightarrow> weight m (x + k, y) = 0"
  shows "\<exists>m'. addobstacle_loop m y x cs = Some (Inr m') \<and> map_wf m' \<and> same_size m m' \<and>
    (\<forall>u. weight m' u = (if snd u = y \<and> x \<le> fst u \<and> fst u < x + int (length cs) \<and> letter (cs ! nat (fst u - x))
      then 255 else weight m u))"
  using assms
proof (induction cs arbitrary: m x)
  case Nil
  then show ?case by (simp add: same_size_def)
next
  case (Cons c cs)
  have v: "\<not> out_of_map m x y" using Cons.prems by (simp add: out_of_map_def)
  have "weight m (x + 0, y) = 0" by (rule Cons.prems(6)) auto
  then have w0: "weight m (x, y) = 0" by simp
  obtain m1 where m1: "addobstacle_loop m y x (c # cs) = addobstacle_loop m1 y (x + 1) cs"
    "map_wf m1" "same_size m m1"
    "\<forall>u. weight m1 u = (if letter c \<and> u = (x, y) then 255 else weight m u)"
  proof (cases "letter c")
    case True
    from map_set_spec [OF Cons.prems(1) v, of 255] obtain m1 where
      "map_set m x y 255 = Some (weight m (x, y), m1)" "map_wf m1" "gm_width m1 = gm_width m"
      "gm_height m1 = gm_height m" "weight m1 = (weight m)((x, y) := 255)" by auto
    with True w0 v that [of m1] show ?thesis by (simp add: letter_def same_size_def out_of_map_def)
  next
    case False
    with v Cons.prems(1) that [of m] show ?thesis by (auto simp: letter_def same_size_def out_of_map_def)
  qed
  have "weight m1 (x + 1 + k, y) = 0" if "0 \<le> k" "k < int (length cs)" for k
    using Cons.prems(6) [of "1 + k"] that m1(4) by (simp add: add.assoc)
  with Cons.IH [of m1 "x + 1"] Cons.prems m1(2,3) obtain m' where m':
    "addobstacle_loop m1 y (x + 1) cs = Some (Inr m')" "map_wf m'" "same_size m1 m'"
    "\<forall>u. weight m' u = (if snd u = y \<and> x + 1 \<le> fst u \<and> fst u < x + 1 + int (length cs) \<and>
      letter (cs ! nat (fst u - (x + 1))) then 255 else weight m1 u)" by (auto simp: same_size_def)
  have "weight m' u = (if snd u = y \<and> x \<le> fst u \<and> fst u < x + int (length (c # cs)) \<and>
      letter ((c # cs) ! nat (fst u - x)) then 255 else weight m u)" for u
  proof (cases "x + 1 \<le> fst u")
    case True
    then have "nat (fst u - x) = Suc (nat (fst u - (x + 1)))" by linarith
    with True show ?thesis unfolding m'(4) [rule_format] m1(4) [rule_format] by auto
  next
    case False
    then show ?thesis unfolding m'(4) [rule_format] m1(4) [rule_format]
      by (cases u) (auto simp: order_antisym_conv)
  qed
  with m1 m' show ?case by (auto simp: same_size_def)
qed

text \<open>The cells that a list of obstacle lines blocks.\<close>

definition blocked_at :: "string list \<Rightarrow> cell \<Rightarrow> bool" where
  "blocked_at lines u \<longleftrightarrow> 0 \<le> fst u \<and> 0 \<le> snd u \<and> snd u < int (length lines) \<and>
     fst u < int (length (lines ! nat (snd u))) \<and> letter (lines ! nat (snd u) ! nat (fst u))"

lemma newmap_lines_spec:
  assumes "map_wf m" "1 \<le> i" "i - 1 + int (length lines) \<le> gm_height m"
    "\<forall>l \<in> set lines. int (length l) \<le> gm_width m"
    "\<And>u. i - 1 \<le> snd u \<Longrightarrow> \<not> out_of_map m (fst u) (snd u) \<Longrightarrow> weight m u = 0"
  shows "\<exists>m'. newmap_lines m i lines = Some (Inr m') \<and> map_wf m' \<and> same_size m m' \<and>
    (\<forall>u. weight m' u = (if blocked_at lines (fst u, snd u - (i - 1)) then 255 else weight m u))"
  using assms
proof (induction lines arbitrary: m i)
  case Nil
  then show ?case by (simp add: same_size_def blocked_at_def)
next
  case (Cons l lines)
  have zero: "weight m (0 + k, i - 1) = 0" if "0 \<le> k" "k < int (length l)" for k
    by (rule Cons.prems(5)) (use that Cons.prems(2-4) in \<open>auto simp: out_of_map_def\<close>)
  have "0 \<le> i - 1" "i - 1 < gm_height m" "0 + int (length l) \<le> gm_width m" using Cons.prems(2-4) by auto
  from addobstacle_loop_spec [OF Cons.prems(1) this(1,2) order_refl this(3) zero] obtain m1 where m1:
    "addobstacle_loop m (i - 1) 0 l = Some (Inr m1)" "map_wf m1" "same_size m m1"
    "\<forall>u. weight m1 u = (if snd u = i - 1 \<and> 0 \<le> fst u \<and> fst u < 0 + int (length l) \<and>
       letter (l ! nat (fst u - 0)) then 255 else weight m u)" by blast
  have add: "addobstacle m (i - 1) l = Some (Inr m1)"
    using m1(1) Cons.prems(3) by (simp add: addobstacle_def)
  have size: "gm_width m1 = gm_width m" "gm_height m1 = gm_height m" using m1(3) by (auto simp: same_size_def)
  have "weight m1 u = 0" if "i + 1 - 1 \<le> snd u" "\<not> out_of_map m1 (fst u) (snd u)" for u
    unfolding m1(4) [rule_format]
    using that Cons.prems(5) [of u] same_size_out_of_map [OF m1(3)] by simp
  moreover have "i + 1 - 1 + int (length lines) \<le> gm_height m1" "1 \<le> i + 1"
    "\<forall>l \<in> set lines. int (length l) \<le> gm_width m1" using Cons.prems(2-4) size by auto
  ultimately obtain m' where m': "newmap_lines m1 (i + 1) lines = Some (Inr m')" "map_wf m'" "same_size m1 m'"
    "\<forall>u. weight m' u = (if blocked_at lines (fst u, snd u - (i + 1 - 1)) then 255 else weight m1 u)"
    using Cons.IH [of m1 "i + 1"] m1(2) by blast
  have "weight m' u = (if blocked_at (l # lines) (fst u, snd u - (i - 1)) then 255 else weight m u)" for u
  proof (cases "snd u \<le> i - 1")
    case True
    then show ?thesis unfolding m'(4) [rule_format] m1(4) [rule_format] by (auto simp: blocked_at_def)
  next
    case False
    then have "nat (snd u - (i - 1)) = Suc (nat (snd u - i))" by linarith
    with False show ?thesis
      unfolding m'(4) [rule_format] m1(4) [rule_format] by (auto simp: blocked_at_def)
  qed
  with add m' m1(3) show ?case by (auto simp: same_size_def)
qed

lemma fresh_map_wf:
  assumes "0 \<le> w * h" "w * h \<le> 2147483647" "w < 2147483648" "h < 2147483648"
  shows "map_wf \<lparr>gm_width = w, gm_height = h, gm_m = replicate (nat (w * h)) 0\<rparr>"
  using assms by (simp add: map_wf_def)

lemma fresh_map_weight:
  assumes "map_wf m" "gm_m m = replicate n 0" "\<not> out_of_map m (fst u) (snd u)"
  shows "weight m u = 0"
proof -
  have "map_get m (fst u) (snd u) \<noteq> None" using map_get_weight [OF assms(1)] by simp
  with assms(3) have "nat (snd u * gm_width m + fst u) < length (gm_m m)"
    by (auto simp: map_get_def out_of_map_def map_cell_def Let_def split: if_splits)
  with assms(2,3) show ?thesis by (simp add: weight_def)
qed

subsection \<open>Bounds\<close>

lemma reach_coordinates:
  "reach m b e s c v \<Longrightarrow> 10 * \<bar>fst v - fst s\<bar> \<le> c \<and> 10 * \<bar>snd v - snd s\<bar> \<le> c"
proof (induction rule: reach.induct)
  case start
  then show ?case by simp
next
  case (move c u w v)
  then obtain dx dy d where "(dx, dy, d) \<in> set OFF" "v = (fst u + dx, snd u + dy)" "w = d + d"
    by (auto simp: edge_def step_cost_OFF)
  moreover from this(1) have "\<bar>dx\<bar> \<le> 1" "\<bar>dy\<bar> \<le> 1" "5 \<le> d" by (auto simp: OFF_def)
  moreover have "10 * \<bar>x + k - y\<bar> \<le> c + (d + d)" if "10 * \<bar>x - y\<bar> \<le> c" "\<bar>k\<bar> \<le> 1" "5 \<le> d" for x y k d :: int
    using that by (simp add: abs_le_iff) arith
  ultimately show ?case using move.IH by simp
qed

lemma node_bounds:
  assumes inv: "nodes_inv m b e s ns cs" and len: "length cs \<le> d" and i: "i < length ns"
  shows "0 \<le> pn_gscore (ns ! i) \<and> pn_gscore (ns ! i) \<le> 14 * int d \<and>
    \<bar>pn_x (ns ! i) - fst s\<bar> \<le> 2 * int d \<and> \<bar>pn_y (ns ! i) - snd s\<bar> \<le> 2 * int d \<and>
    pn_fscore (ns ! i) = pn_gscore (ns ! i) + estimate e (pn_x (ns ! i), pn_y (ns ! i))"
proof -
  have "pn_gscore (ns ! i) \<le> 14 * int d" using nodes_invD(7) [OF inv i] len by linarith
  with reach_coordinates [OF node_reach [OF inv i]] nodes_invD(6,8) [OF inv i] show ?thesis
    unfolding pos_def by simp
qed

lemma estimate_bound:
  assumes "\<bar>x - ex\<bar> \<le> k" "\<bar>y - ey\<bar> \<le> k"
  shows "estimate (ex, ey) (x, y) \<le> 7 * k"
proof -
  have "max \<bar>x - ex\<bar> \<bar>y - ey\<bar> \<le> k" "min \<bar>x - ex\<bar> \<bar>y - ey\<bar> \<le> k" using assms by simp_all
  then show ?thesis unfolding estimate_def dist_alt fst_conv snd_conv by linarith
qed

text \<open>With a body size that is not negative all nodes are on the map, so that there are no more of
  them than cells.\<close>

lemma reach_on_map:
  assumes "0 \<le> b" "\<not> out_of_map m (fst s) (snd s)" "\<not> out_of_map m (fst e) (snd e)"
  shows "reach m b e s c v \<Longrightarrow> \<not> out_of_map m (fst v) (snd v)"
  by (induction rule: reach.induct) (use assms(2) passable_on_map [OF assms(1,3)] in \<open>auto simp: edge_def\<close>)

lemma node_on_map:
  assumes "0 \<le> b" "\<not> out_of_map m (fst s) (snd s)" "\<not> out_of_map m (fst e) (snd e)"
    and inv: "nodes_inv m b e s ns cs"
  shows "i < length ns \<Longrightarrow> \<not> out_of_map m (pn_x (ns ! i)) (pn_y (ns ! i))"
    and "int (length ns) \<le> gm_width m * gm_height m"
proof -
  have on: "pos (ns ! i) \<in> cell_set m" if "i < length ns" for i
    using reach_on_map [OF assms(1-3) node_reach [OF inv that]] by (simp add: cell_set_iff)
  then show "i < length ns \<Longrightarrow> \<not> out_of_map m (pn_x (ns ! i)) (pn_y (ns ! i))"
    by (force simp: cell_set_iff pos_def)
  have "set (map pos ns) \<subseteq> cell_set m" using on by (auto simp: in_set_conv_nth)
  from card_mono [OF cell_set_finite this] distinct_card [OF nodes_invD(1) [OF inv]]
  have "length ns \<le> card (cell_set m)" by simp
  moreover have "s \<in> cell_set m" using assms(2) by (simp add: cell_set_iff)
  ultimately show "int (length ns) \<le> gm_width m * gm_height m" using cell_set_card by fastforce
qed

text \<open>What one move computes fits when the node is near the map and the new score is small.\<close>

lemma move_fits_near:
  assumes m: "map_wf m" and size: "gm_width m \<le> 100000000" "gm_height m \<le> 100000000"
    and e: "\<not> out_of_map m (fst e) (snd e)" and b: "- 2147483648 < b" "b < 2147483648"
    and xy: "\<bar>pn_x pn\<bar> \<le> 120000000" "\<bar>pn_y pn\<bar> \<le> 120000000"
    and on: "0 \<le> b \<Longrightarrow> \<not> out_of_map m (pn_x pn) (pn_y pn)"
    and off: "(dx, dy, d) \<in> set OFF"
    and g: "pn_gscore pn + 14 + estimate e (pn_x pn + dx, pn_y pn + dy) < 2147483648"
  shows "move_fits m b e pn (dx, dy, d)"
proof -
  have step: "\<bar>dx\<bar> \<le> 1" "\<bar>dy\<bar> \<le> 1" "d \<le> 7" using off by (auto simp: OFF_def)
  have near: "\<bar>pn_x pn + dx\<bar> \<le> 120000001" "\<bar>pn_y pn + dy\<bar> \<le> 120000001" using xy step by linarith+
  then have "c_sint (pn_x pn + dx) = Some (pn_x pn + dx)" "c_sint (pn_y pn + dy) = Some (pn_y pn + dy)"
    by (auto intro!: c_sint_ok)
  moreover have "square_blocked m e b (pn_x pn + dx) (pn_y pn + dy) =
      Some (\<not> passable m b e (pn_x pn + dx, pn_y pn + dy))"
  proof -
    consider (neg) "b < 0" | (sums) "0 \<le> b" "b \<le> 1000000000" | (large) "1000000000 < b" by linarith
    then show ?thesis
    proof cases
      case neg
      with b(1) show ?thesis by (rule square_blocked_negative)
    next
      case sums
      with near show ?thesis by (intro square_blocked_sums [OF m]) linarith+
    next
      case large
      then have "0 \<le> pn_x pn" "0 \<le> pn_y pn" using on by (auto simp: out_of_map_def)
      with large near step b show ?thesis by (intro square_blocked_large [OF m e]) linarith+
    qed
  qed
  moreover have "pn_gscore pn + (d + d) + estimate e (pn_x pn + dx, pn_y pn + dy) < 2147483648"
    using g step(3) by linarith
  ultimately show ?thesis unfolding move_fits_def by blast
qed

lemma on_map_near:
  assumes "\<not> out_of_map m x y" "\<not> out_of_map m ex ey" "gm_width m \<le> k" "gm_height m \<le> k"
    "\<bar>dx\<bar> \<le> 1" "\<bar>dy\<bar> \<le> 1"
  shows "estimate (ex, ey) (x + dx, y + dy) \<le> 7 * k"
  using assms by (intro estimate_bound) (auto simp: out_of_map_def)

text \<open>Two ranges in which the searches stay within \<open>int\<close>: a body size that is not negative on a map
  of at most 10^8 cells, with any number of nodes; and any body size but the least \<open>int\<close> on a map of
  at most 10^8 columns and rows, with at most 10^7 nodes.\<close>

lemma within_small_map:
  assumes m: "map_wf m" and s: "\<not> out_of_map m (fst s) (snd s)" and e: "\<not> out_of_map m (fst e) (snd e)"
    and b: "0 \<le> b" "b < 2147483648" and cells: "gm_width m * gm_height m \<le> 100000000"
  shows "within_int m b e s depth"
proof -
  have pos: "1 \<le> gm_width m" "1 \<le> gm_height m" using s by (auto simp: out_of_map_def)
  have "gm_width m * 1 \<le> gm_width m * gm_height m" "1 * gm_height m \<le> gm_width m * gm_height m"
    using pos by (intro mult_left_mono mult_right_mono; simp)+
  then have size: "gm_width m \<le> 100000000" "gm_height m \<le> 100000000" using cells by linarith+
  have fits: "move_fits m b e (ns ! i) (dx, dy, d)"
    if inv: "nodes_inv m b e s ns cs" and len: "length cs \<le> length ns" and i: "i < length ns"
      and off: "(dx, dy, d) \<in> set OFF" for ns cs i dx dy d
  proof (rule move_fits_near [OF m size e _ b(2) _ _ _ off])
    note on = node_on_map [OF b(1) s e inv]
    show "\<not> out_of_map m (pn_x (ns ! i)) (pn_y (ns ! i))" by (rule on(1) [OF i])
    then show "\<bar>pn_x (ns ! i)\<bar> \<le> 120000000" "\<bar>pn_y (ns ! i)\<bar> \<le> 120000000"
      using size by (auto simp: out_of_map_def)
    have "\<bar>dx\<bar> \<le> 1" "\<bar>dy\<bar> \<le> 1" using off by (auto simp: OFF_def)
    from on_map_near [OF on(1) [OF i] e size this]
    have "estimate e (pn_x (ns ! i) + dx, pn_y (ns ! i) + dy) \<le> 700000000" by simp
    moreover have "int (length cs) \<le> 100000000" using on(2) len cells by linarith
    then have "pn_gscore (ns ! i) \<le> 1400000000" using nodes_invD(7) [OF inv i] by linarith
    ultimately show "pn_gscore (ns ! i) + 14 + estimate e (pn_x (ns ! i) + dx, pn_y (ns ! i) + dy) < 2147483648"
      by linarith
  qed (use b(1) in simp)
  have "estimate e s \<le> 700000000" using on_map_near [OF s e size, of 0 0] by simp
  with fits show ?thesis unfolding within_int_def by auto
qed

lemma within_small_depth:
  assumes m: "map_wf m" and s: "\<not> out_of_map m (fst s) (snd s)" and e: "\<not> out_of_map m (fst e) (snd e)"
    and b: "- 2147483648 < b" "b < 2147483648"
    and size: "gm_width m \<le> 100000000" "gm_height m \<le> 100000000" and depth: "int depth \<le> 10000000"
  shows "within_int m b e s depth"
proof -
  have s': "0 \<le> fst s" "fst s < 100000000" "0 \<le> snd s" "snd s < 100000000"
    and e': "0 \<le> fst e" "fst e < 100000000" "0 \<le> snd e" "snd e < 100000000"
    using s e size by (auto simp: out_of_map_def)
  have fits: "move_fits m b e (ns ! i) (dx, dy, d)"
    if inv: "nodes_inv m b e s ns cs" and len: "length cs \<le> length ns" "length ns \<le> depth"
      and i: "i < length ns" and off: "(dx, dy, d) \<in> set OFF" for ns cs i dx dy d
  proof (rule move_fits_near [OF m size e b _ _ _ off])
    have "length cs \<le> depth" using len by simp
    from node_bounds [OF inv this i] have n: "pn_gscore (ns ! i) \<le> 14 * int depth"
      "\<bar>pn_x (ns ! i) - fst s\<bar> \<le> 2 * int depth" "\<bar>pn_y (ns ! i) - snd s\<bar> \<le> 2 * int depth" by auto
    have x: "- 20000000 \<le> pn_x (ns ! i)" "pn_x (ns ! i) \<le> 120000000"
      and y: "- 20000000 \<le> pn_y (ns ! i)" "pn_y (ns ! i) \<le> 120000000"
      using n(2,3) s' depth by linarith+
    then show "\<bar>pn_x (ns ! i)\<bar> \<le> 120000000" "\<bar>pn_y (ns ! i)\<bar> \<le> 120000000" by linarith+
    have "\<bar>dx\<bar> \<le> 1" "\<bar>dy\<bar> \<le> 1" using off by (auto simp: OFF_def)
    then have "\<bar>pn_x (ns ! i) + dx - fst e\<bar> \<le> 120000001" "\<bar>pn_y (ns ! i) + dy - snd e\<bar> \<le> 120000001"
      using x y e' by linarith+
    from estimate_bound [OF this]
    have "estimate e (pn_x (ns ! i) + dx, pn_y (ns ! i) + dy) \<le> 840000007" by simp
    then show "pn_gscore (ns ! i) + 14 + estimate e (pn_x (ns ! i) + dx, pn_y (ns ! i) + dy) < 2147483648"
      using n(1) depth by linarith
    show "\<not> out_of_map m (pn_x (ns ! i)) (pn_y (ns ! i))" if "0 \<le> b"
      by (rule node_on_map(1) [OF that s e inv i])
  qed
  have "estimate e s \<le> 700000000" using on_map_near [OF s e size, of 0 0] by simp
  with fits show ?thesis unfolding within_int_def by auto
qed

subsection \<open>Properties\<close>

text \<open>C7: On a well-formed map of at most 10^8 cells, with both positions on it, a body size that is
  not negative and at least as many nodes as cells (a budget that the caller has to give for maps of more
  than 5000 cells), the search finds a cheapest walk from the start to the target (consecutive cells are
  adjacent, all cells but the first clear of obstacles for the body size), and the start alone exactly
  when there is no walk to the target.  No sum overflows, and the walk is returned unless the Lua stack
  has no room for its coordinates, which is reported as an error.\<close>

theorem lpath_shortest:
  assumes "map_wf m" "\<not> out_of_map m sx sy" "\<not> out_of_map m ex ey"
    "0 \<le> b" "b < 2147483648" "gm_width m * gm_height m \<le> 100000000"
    "gm_width m * gm_height m \<le> d" "d < 2147483648"
  shows "\<exists>ps. lpath room m sx sy ex ey b (Some d) =
      Some (if 2 * length ps \<le> room then Inr ps else Inl StackOverflow) \<and> hd ps = (sx, sy) \<and>
    ((\<exists>c. last ps = (ex, ey) \<and> walk_cost m b (ex, ey) ps = Some c \<and>
        (\<forall>qs c'. hd qs = (sx, sy) \<longrightarrow> last qs = (ex, ey) \<longrightarrow> walk_cost m b (ex, ey) qs = Some c' \<longrightarrow> c \<le> c')) \<or>
     (ps = [(sx, sy)] \<and>
        (\<forall>qs. hd qs = (sx, sy) \<longrightarrow> last qs = (ex, ey) \<longrightarrow> walk_cost m b (ex, ey) qs = None)))"
proof -
  have "0 < gm_width m" "0 < gm_height m" using assms(2) by (auto simp: out_of_map_def)
  then have "0 < gm_width m * gm_height m" by simp
  then have d: "0 < d" using assms(7) by simp
  let ?s = "(sx, sy)" and ?e = "(ex, ey)"
  have "within_int m b ?e ?s (nat d)" by (rule within_small_map) (use assms in auto)
  from lpath_eq [of m ?s ?e d b room, OF _ _ _ d _ _ _ this] assms obtain i ps ns where ps:
    "lpath room m sx sy ex ey b (Some d) = Some (if 2 * length ps \<le> room then Inr ps else Inl StackOverflow)"
    "hd ps = ?s" "last ps = pos (ns ! i)" "walk_cost m b ?e ps = Some (pn_gscore (ns ! i))"
    "fits m b ?e ?s (nat d) \<longrightarrow>
      (pos (ns ! i) = ?e \<and> (\<forall>c. reach m b ?e ?s c ?e \<longrightarrow> pn_gscore (ns ! i) \<le> c)) \<or>
      (ps = [?s] \<and> (\<forall>c. \<not> reach m b ?e ?s c ?e))" by auto
  have "fits m b ?e ?s (nat d)" by (rule fits_map) (use assms d in auto)
  moreover have "reach m b ?e ?s c ?e" if "hd qs = ?s" "last qs = ?e" "walk_cost m b ?e qs = Some c" for qs c
    using walk_cost_reach [OF that(3), of ?s 0] that(1,2) reach.start [of m b ?e ?s] by simp
  ultimately show ?thesis
    using ps by (intro exI [of _ ps]) (metis option.exhaust)
qed

text \<open>C20: On a map of at most 10^8 columns and rows, with any number of nodes up to 10^7 and any
  body size whose negation exists, the search terminates without an overflow, without reading
  uninitialised memory and without leaving its arrays, and returns a walk from the start that ends at
  the target or is the start alone: the node that \<open>nearest\<close> selects when the target is not reached is
  always the start, whose score is the least.  The one other outcome is the error of a Lua stack without
  room for the coordinates of the walk.\<close>

theorem lpath_valid:
  assumes "map_wf m" "\<not> out_of_map m sx sy" "\<not> out_of_map m ex ey"
    "gm_width m \<le> 100000000" "gm_height m \<le> 100000000"
    "- 2147483648 < b" "b < 2147483648" "0 < d" "d \<le> 10000000"
  shows "\<exists>ps c. lpath room m sx sy ex ey b (Some d) =
      Some (if 2 * length ps \<le> room then Inr ps else Inl StackOverflow) \<and> hd ps = (sx, sy) \<and>
    walk_cost m b (ex, ey) ps = Some c \<and> (last ps = (ex, ey) \<or> ps = [(sx, sy)])"
proof -
  have "within_int m b (ex, ey) (sx, sy) (nat d)" by (rule within_small_depth) (use assms in auto)
  from lpath_eq [of m "(sx, sy)" "(ex, ey)" d b room, OF _ _ _ _ _ _ _ this] assms obtain i ps ns where
    "lpath room m sx sy ex ey b (Some d) = Some (if 2 * length ps \<le> room then Inr ps else Inl StackOverflow)"
    "hd ps = (sx, sy)" "last ps = pos (ns ! i)" "walk_cost m b (ex, ey) ps = Some (pn_gscore (ns ! i))"
    "pos (ns ! i) = (ex, ey) \<or> ps = [(sx, sy)]" by auto
  then show ?thesis by (intro exI [of _ ps] exI [of _ "pn_gscore (ns ! i)"]) auto
qed


text \<open>C30: A map is built as its description says: every capital letter of the obstacle lines blocks
  its cell, and every other cell of the map is free.\<close>

theorem lnewmap_cells:
  assumes "0 \<le> w" "0 \<le> h" "w * h \<le> 2147483647" "w < 2147483648" "h < 2147483648"
    "int (length lines) \<le> h" "\<forall>l \<in> set lines. int (length l) \<le> w"
  shows "\<exists>m. lnewmap (Some w) (Some h) lines = Some (Inr m) \<and> map_wf m \<and>
    gm_width m = w \<and> gm_height m = h \<and>
    (\<forall>x y. \<not> out_of_map m x y \<longrightarrow> lblock m x y = Some (Inr (if blocked_at lines (x, y) then 255 else 0)))"
proof -
  let ?m = "\<lparr>gm_width = w, gm_height = h, gm_m = replicate (nat (w * h)) 0\<rparr>"
  have wf: "map_wf ?m" by (rule fresh_map_wf) (use assms in auto)
  have "weight ?m u = 0" if "\<not> out_of_map ?m (fst u) (snd u)" for u
    by (rule fresh_map_weight [OF wf _ that]) simp
  with newmap_lines_spec [OF wf, of 1 lines] assms(6,7) obtain m where m:
    "newmap_lines ?m 1 lines = Some (Inr m)" "map_wf m" "same_size ?m m"
    "\<forall>u. weight m u = (if blocked_at lines (fst u, snd u) then 255 else weight ?m u)" by auto
  have dims: "gm_width m = w" "gm_height m = h" using m(3) by (simp_all add: same_size_def)
  have "to_int32 w = w" "to_int32 h = h" using assms by (auto intro!: to_int32_id)
  then have "lnewmap (Some w) (Some h) lines = Some (Inr m)"
    using m(1) assms by (simp add: lnewmap_def Let_def)
  moreover have "lblock m x y = Some (Inr (if blocked_at lines (x, y) then 255 else 0))"
    if "\<not> out_of_map m x y" for x y
  proof -
    have "to_int32 x = x" "to_int32 y = y" using that assms dims by (auto simp: out_of_map_def intro!: to_int32_id)
    moreover have "\<not> out_of_map ?m x y" using that dims by (simp add: out_of_map_def)
    then have "weight ?m (x, y) = 0" using fresh_map_weight [OF wf, of "nat (w * h)" "(x, y)"] by simp
    then have "weight m (x, y) = (if blocked_at lines (x, y) then 255 else 0)" unfolding m(4) [rule_format] by simp
    ultimately show ?thesis using that map_get_weight [OF m(2)] by (simp add: lblock_def)
  qed
  ultimately show ?thesis using m(2) dims by blast
qed

text \<open>Adding a weight to a cell that is not blocked changes that cell alone, to the low eight bits
  of the weight (a weight of 256 clears the cell); a blocked cell stays blocked, and a position off the
  map is reported.\<close>

lemma ladd_weight_cell:
  assumes "map_wf m" "- 2147483648 \<le> x" "x < 2147483648" "- 2147483648 \<le> y" "y < 2147483648"
    "- 2147483648 \<le> w" "w < 2147483648"
  shows "if out_of_map m x y then ladd_weight m x y w = Some (Inl (OutOfMap x y))
    else \<exists>m'. ladd_weight m x y w = Some (Inr (w, m')) \<and> map_wf m' \<and>
      weight m' = (if weight m (x, y) = 255 then weight m else (weight m)((x, y) := w mod 256))"
proof -
  have [simp]: "to_int32 x = x" "to_int32 y = y" "to_int32 w = w" using assms by (auto intro!: to_int32_id)
  show ?thesis
    using map_set_spec [OF assms(1), of x y w] map_get_weight [OF assms(1), of x y] assms(1)
    by (auto simp: ladd_weight_def)
qed

text \<open>C28: A start off the map (left, right, above or below it) is refused, and then a target off
  the map; positions on the map are never refused; and with a depth of zero the search reads an array
  without elements, with a negative depth its arrays cannot be created (undefined behaviour in both
  cases).\<close>

theorem lpath_edge_cases:
  assumes "- 2147483648 \<le> sx" "sx < 2147483648" "- 2147483648 \<le> sy" "sy < 2147483648"
    "- 2147483648 \<le> ex" "ex < 2147483648" "- 2147483648 \<le> ey" "ey < 2147483648"
  shows "let on = (\<lambda>x y. 0 \<le> x \<and> x < gm_width m \<and> 0 \<le> y \<and> y < gm_height m)
    in if \<not> on sx sy then lpath room m sx sy ex ey b depth = Some (Inl (InvalidPosition sx sy))
     else if \<not> on ex ey then lpath room m sx sy ex ey b depth = Some (Inl (InvalidPosition ex ey))
     else (\<forall>x y. lpath room m sx sy ex ey b depth \<noteq> Some (Inl (InvalidPosition x y))) \<and>
       (\<forall>d \<in> {- 2147483648..0}. lpath room m sx sy ex ey b (Some d) = None)"
proof -
  let ?on = "\<lambda>x y. 0 \<le> x \<and> x < gm_width m \<and> 0 \<le> y \<and> y < gm_height m"
  have [simp]: "to_int32 sx = sx" "to_int32 sy = sy" "to_int32 ex = ex" "to_int32 ey = ey"
    using assms(1-8) by (auto intro!: to_int32_id)
  have on: "out_of_map m x y \<longleftrightarrow> \<not> ?on x y" for x y by (auto simp: out_of_map_def)
  have stop: "path_loop m b c = Some (None, c)" if "ctx_open c = 0" for b c
    using that by (subst path_loop.simps) simp
  have zero: "path_finding m (fresh_path 0) sx sy ex ey b = None" for b
    by (simp add: path_finding_def fresh_path_def add_open_def nearest_def set_at_def arr_get_def stop)
  have "lpath room m sx sy ex ey b (Some d) = None" if "?on sx sy" "?on ex ey" "d \<in> {- 2147483648..0}" for d
  proof -
    have "to_int32 d = d" using that(3) by (auto intro!: to_int32_id)
    with that zero show ?thesis
      by (cases "d = 0") (auto simp: lpath_def check_position_def on fresh_path_def Let_def)
  qed
  moreover have "lpath room m sx sy ex ey b depth \<noteq> Some (Inl (InvalidPosition x y))"
    if "?on sx sy" "?on ex ey" for x y
    using that by (auto simp: lpath_def check_position_def on Let_def bind_eq_Some_conv split: if_splits)
  ultimately show ?thesis
    unfolding Let_def by (auto simp: lpath_def check_position_def on)
qed

subsection \<open>Witnesses\<close>

text \<open>A map of 3 by 2 cells with one obstacle.\<close>

definition example_map :: gmap where
  "example_map = \<lparr>gm_width = 3, gm_height = 2, gm_m = [0, 255, 0, 0, 0, 0]\<rparr>"

lemma example_map_wf [simp]: "map_wf example_map"
  by (simp add: map_wf_def example_map_def)

lemma example_positions [simp]: "\<not> out_of_map example_map 0 0" "\<not> out_of_map example_map 2 0"
  by (simp_all add: out_of_map_def example_map_def)

lemma example_size [simp]: "gm_width example_map = 3" "gm_height example_map = 2"
  by (simp_all add: example_map_def)

theorem lpath_shortest_witness:
  "\<exists>ps. lpath 20 example_map 0 0 2 0 0 (Some 6) =
    Some (if 2 * length ps \<le> 20 then Inr ps else Inl StackOverflow) \<and> hd ps = (0, 0)"
  using lpath_shortest [of example_map 0 0 2 0 0 6 20] by auto

theorem lpath_valid_witness:
  "\<exists>ps c. lpath 20 example_map 0 0 2 0 (- 1) (Some 3) =
      Some (if 2 * length ps \<le> 20 then Inr ps else Inl StackOverflow) \<and> hd ps = (0, 0) \<and>
    walk_cost example_map (- 1) (2, 0) ps = Some c \<and> (last ps = (2, 0) \<or> ps = [(0, 0)])"
  using lpath_valid [of example_map 0 0 2 0 "- 1" 3 20] by auto


theorem lnewmap_cells_witness:
  "\<exists>m. lnewmap (Some 3) (Some 2) [''.A.''] = Some (Inr m) \<and> map_wf m"
  using lnewmap_cells [of 3 2 "[''.A.'']"] by auto

theorem lpath_edge_cases_witness:
  "lpath 20 example_map 3 0 2 0 0 None = Some (Inl (InvalidPosition 3 0)) \<and>
    lpath 20 example_map 0 (- 1) 2 0 0 None = Some (Inl (InvalidPosition 0 (- 1))) \<and>
    lpath 20 example_map 0 0 2 2 0 None = Some (Inl (InvalidPosition 2 2)) \<and>
    lpath 20 example_map 0 0 2 0 0 (Some 0) = None"
  using lpath_edge_cases [of 3 0 2 0 example_map 20 0 None] lpath_edge_cases [of 0 "- 1" 2 0 example_map 20 0 None]
    lpath_edge_cases [of 0 0 2 2 example_map 20 0 None] lpath_edge_cases [of 0 0 2 0 example_map 20 0 None]
  by simp

end
