(* ===== verification/Flowgraph.thy ===== *)
theory Flowgraph
  imports Astar
begin

text \<open>
  The flow graph of \<open>game/lualib-src/pathfinding.c\<close>: from the target cells a wavefront,
  held in a ring of coordinates, relaxes the distance of every cell, and each cell then
  gets the direction of the neighbour that is closest to a target.
\<close>

record route_queue =
  rq_head :: nat
  rq_tail :: nat
  rq_n :: nat
  rq_q :: "cell option list"

text \<open>\<open>new_flowgraph\<close>: a map of the same size passed by the caller is used as it is.\<close>

definition new_flowgraph :: "gmap \<Rightarrow> gmap option \<Rightarrow> gmap" where
  "new_flowgraph m result =
     (let fresh = \<lparr>gm_width = gm_width m, gm_height = gm_height m,
            gm_m = replicate (nat (gm_width m * gm_height m)) 0\<rparr>
      in case result of
           Some r \<Rightarrow> if gm_width m = gm_width r \<and> gm_height m = gm_height r then r else fresh
         | None \<Rightarrow> fresh)"

fun addtarget_loop :: "gmap \<Rightarrow> char \<Rightarrow> int \<Rightarrow> int \<Rightarrow> string \<Rightarrow> gmap option" where
  "addtarget_loop m mark x y [] = Some m"
| "addtarget_loop m mark x y (c # cs) =
     (if c = CHR 0x00 then Some m
      else if c = CHR 0x0A
      then (if y + 1 \<ge> gm_height m then Some m else addtarget_loop m mark 0 (y + 1) cs)
      else if c = CHR 0x0D then addtarget_loop m mark x y cs
      else do {
        m \<leftarrow> (if c = mark \<and> x < gm_width m
              then do { (_, m) \<leftarrow> map_set m x y 1; Some m }
              else Some m);
        addtarget_loop m mark (x + 1) y cs })"

definition addtarget_map :: "gmap \<Rightarrow> string \<Rightarrow> char \<Rightarrow> gmap option" where
  "addtarget_map m target mark = addtarget_loop m mark 0 0 target"

subsection \<open>The queue of the wavefront\<close>

definition create_queue :: "nat \<Rightarrow> route_queue" where
  "create_queue n = \<lparr>rq_head = 0, rq_tail = 0, rq_n = n, rq_q = replicate n None\<rparr>"

definition enter_queue :: "route_queue \<Rightarrow> int \<Rightarrow> int \<Rightarrow> route_queue option" where
  "enter_queue q x y = do {
     a \<leftarrow> arr_set (rq_q q) (rq_tail q) (Some (x, y));
     let tail = ring_next (rq_n q) (rq_tail q);
     c_assert (rq_head q \<noteq> tail);
     Some (q\<lparr>rq_q := a, rq_tail := tail\<rparr>) }"

definition leave_queue :: "route_queue \<Rightarrow> (cell option \<times> route_queue) option" where
  "leave_queue q =
     (if rq_head q = rq_tail q then Some (None, q)
      else do {
        c \<leftarrow> arr_get (rq_q q) (rq_head q);
        c \<leftarrow> c;
        Some (Some c, q\<lparr>rq_head := ring_next (rq_n q) (rq_head q)\<rparr>) })"

text \<open>The loop of \<open>queue_exist\<close> wraps its index with \<open>head > q->n\<close>, where the other operations use
  \<open>>=\<close>: it reads one element past the array.\<close>

partial_function (option) exist_loop :: "route_queue \<Rightarrow> int \<Rightarrow> int \<Rightarrow> nat \<Rightarrow> bool option" where
  "exist_loop q x y head =
     (if head = rq_tail q then Some False
      else do {
        c \<leftarrow> arr_get (rq_q q) head;
        c \<leftarrow> c;
        (if c = (x, y) then Some True
         else exist_loop q x y (if head + 1 > rq_n q then 0 else head + 1)) })"

declare exist_loop.simps [code]

definition queue_exist :: "route_queue \<Rightarrow> int \<Rightarrow> int \<Rightarrow> bool option" where
  "queue_exist q x y = exist_loop q x y (rq_head q)"

subsection \<open>Routes\<close>

definition route_get :: "gmap \<Rightarrow> int list \<Rightarrow> int \<Rightarrow> int \<Rightarrow> int option" where
  "route_get m route x y =
     (let i = y * gm_width m + x in if 0 \<le> i then arr_get route (nat i) else None)"

definition route_set :: "gmap \<Rightarrow> int list \<Rightarrow> int \<Rightarrow> int \<Rightarrow> int \<Rightarrow> int list option" where
  "route_set m route x y v =
     (let i = y * gm_width m + x in if 0 \<le> i then arr_set route (nat i) v else None)"

text \<open>The cells in the order of the loops \<open>for (i=0;i<height;i++) for (j=0;j<width;j++)\<close>.\<close>

definition map_cells :: "gmap \<Rightarrow> cell list" where
  "map_cells m = concat (map (\<lambda>i. map (\<lambda>j. (j, i)) [0..gm_width m - 1]) [0..gm_height m - 1])"

fun init_loop :: "gmap \<Rightarrow> gmap \<Rightarrow> cell list \<Rightarrow> int list \<Rightarrow> route_queue \<Rightarrow> (int list \<times> route_queue) option" where
  "init_loop block m [] route q = Some (route, q)"
| "init_loop block m ((j, i) # cells) route q = do {
     w \<leftarrow> map_cell m j i;
     b \<leftarrow> map_cell block j i;
     (if w \<noteq> 0 \<and> uint b \<noteq> BLOCK_WEIGHT
      then do {
        dis \<leftarrow> c_sint (uint w + uint b * 5);
        route \<leftarrow> route_set m route j i dis;
        q \<leftarrow> enter_queue q j i;
        init_loop block m cells route q }
      else init_loop block m cells route q) }"

definition init_route :: "gmap \<Rightarrow> gmap \<Rightarrow> int list \<Rightarrow> route_queue \<Rightarrow> (int list \<times> route_queue) option" where
  "init_route block m route q = init_loop block m (map_cells m) route q"

text \<open>The inner loop of \<open>gen_route\<close> over the neighbours of a cell.  The coordinates of a neighbour of a
  cell of the map do not overflow; the distance is tested.\<close>

fun relax :: "gmap \<Rightarrow> cell \<Rightarrow> int \<Rightarrow> (int \<times> int \<times> int) list \<Rightarrow> int list \<Rightarrow> route_queue \<Rightarrow>
    (int list \<times> route_queue) option" where
  "relax m c odis [] route q = Some (route, q)"
| "relax m c odis ((dx, dy, d) # offs) route q =
     (let x = fst c + dx; y = snd c + dy in
      if x \<ge> 0 \<and> x < gm_width m \<and> y \<ge> 0 \<and> y < gm_height m
      then do {
        cell \<leftarrow> map_cell m x y;
        dis \<leftarrow> c_sint (odis + d + uint cell * 5);
        w \<leftarrow> route_get m route x y;
        (if w = 0
         then do {
           route \<leftarrow> route_set m route x y dis;
           q \<leftarrow> enter_queue q x y;
           relax m c odis offs route q }
         else if w > dis
         then do {
           route \<leftarrow> route_set m route x y dis;
           present \<leftarrow> queue_exist q x y;
           q \<leftarrow> (if \<not> present then enter_queue q x y else Some q);
           relax m c odis offs route q }
         else relax m c odis offs route q) }
      else relax m c odis offs route q)"

partial_function (option) gen_route :: "gmap \<Rightarrow> int list \<Rightarrow> route_queue \<Rightarrow> int list option" where
  "gen_route m route q = do {
     (c, q) \<leftarrow> leave_queue q;
     (case c of
        None \<Rightarrow> Some route
      | Some c \<Rightarrow> do {
          weight \<leftarrow> map_cell m (fst c) (snd c);
          (if uint weight = BLOCK_WEIGHT then gen_route m route q
           else do {
             odis \<leftarrow> route_get m route (fst c) (snd c);
             (route, q) \<leftarrow> relax m c odis OFF route q;
             gen_route m route q }) }) }"

declare gen_route.simps [code]

text \<open>The direction of a cell: \<open>k + 1\<close> for the neighbour \<open>OFF[k]\<close> of least distance, 0 for none.\<close>

fun min_dir :: "gmap \<Rightarrow> int list \<Rightarrow> int \<Rightarrow> int \<Rightarrow> int \<Rightarrow> (int \<times> int \<times> int) list \<Rightarrow> int \<Rightarrow> int \<Rightarrow> int option" where
  "min_dir m route j i k [] best min_id = Some min_id"
| "min_dir m route j i k ((dx, dy, d) # offs) best min_id =
     (let x = j + dx; y = i + dy in
      if x \<ge> 0 \<and> x < gm_width m \<and> y \<ge> 0 \<and> y < gm_height m
      then do {
        r \<leftarrow> route_get m route x y;
        weight \<leftarrow> c_sint (r + d);
        (if weight > 0 \<and> weight < best then min_dir m route j i (k + 1) offs weight (k + 1)
         else min_dir m route j i (k + 1) offs best min_id) }
      else min_dir m route j i (k + 1) offs best min_id)"

fun convert_loop :: "int list \<Rightarrow> cell list \<Rightarrow> gmap \<Rightarrow> gmap option" where
  "convert_loop route [] m = Some m"
| "convert_loop route ((j, i) # cells) m = do {
     w \<leftarrow> route_get m route j i;
     min_id \<leftarrow> (if w > 1 then do { best \<leftarrow> c_sint (w + 7); min_dir m route j i 0 OFF best 0 } else Some 0);
     (_, m) \<leftarrow> map_set m j i min_id;
     convert_loop route cells m }"

definition convert_route :: "int list \<Rightarrow> gmap \<Rightarrow> gmap option" where
  "convert_route route m = convert_loop route (map_cells m) m"

text \<open>\<open>lflowgraph\<close>: the first two entries of the target table, when they are strings, and the map
  passed for the result.\<close>

definition lflowgraph :: "gmap \<Rightarrow> string option \<Rightarrow> string option \<Rightarrow> gmap option \<Rightarrow> (lua_error + gmap) option" where
  "lflowgraph m target mark result =
     (let r = new_flowgraph m result; n = nat (gm_width m * gm_height m) in
      case (target, mark) of
        (Some _, None) \<Rightarrow> Some (Inl InvalidTargetMap)
      | _ \<Rightarrow> do {
          r \<leftarrow> (case (target, mark) of
                  (Some t, Some mk) \<Rightarrow> addtarget_map r t (case mk of [] \<Rightarrow> CHR 0x00 | c # _ \<Rightarrow> c)
                | _ \<Rightarrow> Some r);
          (route, q) \<leftarrow> init_route m r (replicate n 0) (create_queue n);
          route \<leftarrow> gen_route m route q;
          r \<leftarrow> convert_route route r;
          Some (Inr r) })"

subsection \<open>The ring is a queue\<close>

definition rq_ok :: "route_queue \<Rightarrow> bool" where
  "rq_ok q \<longleftrightarrow> ring_ok (rq_n q) (rq_head q) (rq_tail q) (rq_q q) \<and> length (rq_q q) = rq_n q \<and>
     None \<notin> set (ring_contents (rq_n q) (rq_head q) (rq_tail q) (rq_q q))"

definition rq_contents :: "route_queue \<Rightarrow> cell list" where
  "rq_contents q = map the (ring_contents (rq_n q) (rq_head q) (rq_tail q) (rq_q q))"

definition rq_push :: "route_queue \<Rightarrow> cell \<Rightarrow> route_queue option" where
  "rq_push q c = enter_queue q (fst c) (snd c)"

definition rq_limit :: "route_queue \<Rightarrow> nat" where
  "rq_limit q = rq_n q - 1"

text \<open>Entering succeeds exactly while fewer than \<open>n - 1\<close> cells are queued.\<close>

lemma enter_queue_iff:
  assumes ok: "rq_ok q"
  shows "enter_queue q x y = (if length (rq_contents q) < rq_limit q
    then Some (q\<lparr>rq_q := (rq_q q)[rq_tail q := Some (x, y)], rq_tail := ring_next (rq_n q) (rq_tail q)\<rparr>)
    else None)"
proof -
  have b: "rq_head q < rq_n q" "rq_tail q < rq_n q" "rq_tail q < length (rq_q q)"
    using ok by (auto simp: rq_ok_def ring_ok_def)
  have len: "length (rq_contents q) = ring_len (rq_n q) (rq_head q) (rq_tail q)"
    by (simp add: rq_contents_def)
  have "rq_head q \<noteq> ring_next (rq_n q) (rq_tail q) \<longleftrightarrow> length (rq_contents q) < rq_limit q"
  proof (cases "ring_next (rq_n q) (rq_tail q) = rq_head q")
    case True
    with ring_len_full [OF b(1,2) True] len show ?thesis by (simp add: rq_limit_def)
  next
    case False
    with ring_len_push [OF b(1,2) False] ring_len_less [OF b(1), of "ring_next (rq_n q) (rq_tail q)"] b len
    show ?thesis by (auto simp: rq_limit_def)
  qed
  with b show ?thesis by (auto simp: enter_queue_def c_simps)
qed

lemma enter_queue_spec:
  assumes ok: "rq_ok q" and "enter_queue q x y = Some q'"
  shows "rq_ok q' \<and> rq_contents q' = rq_contents q @ [(x, y)] \<and> rq_n q' = rq_n q"
proof -
  have b: "rq_head q < rq_n q" "rq_tail q < rq_n q" using ok by (auto simp: rq_ok_def ring_ok_def)
  from assms(2) have q': "q' = q\<lparr>rq_q := (rq_q q)[rq_tail q := Some (x, y)],
      rq_tail := ring_next (rq_n q) (rq_tail q)\<rparr>" "ring_next (rq_n q) (rq_tail q) \<noteq> rq_head q"
    by (auto simp: enter_queue_def bind_eq_Some_conv Let_def)
  from ok have r: "ring_ok (rq_n q) (rq_head q) (rq_tail q) (rq_q q)" by (simp add: rq_ok_def)
  note push = ring_contents_push [OF r q'(2), of "Some (x, y)"]
  from ok b push show ?thesis
    by (auto simp: q'(1) rq_ok_def rq_contents_def ring_ok_def)
qed

lemma leave_queue_spec:
  assumes ok: "rq_ok q"
  shows "(case rq_contents q of
      [] \<Rightarrow> leave_queue q = Some (None, q)
    | c # cs \<Rightarrow> \<exists>q'. leave_queue q = Some (Some c, q') \<and> rq_ok q' \<and> rq_contents q' = cs \<and> rq_n q' = rq_n q)"
proof -
  have b: "rq_head q < rq_n q" "rq_tail q < rq_n q" and
    r: "ring_ok (rq_n q) (rq_head q) (rq_tail q) (rq_q q)" and len: "length (rq_q q) = rq_n q"
    using ok by (auto simp: rq_ok_def ring_ok_def)
  show ?thesis
  proof (cases "rq_head q = rq_tail q")
    case True
    then show ?thesis by (simp add: leave_queue_def rq_contents_def)
  next
    case False
    note pop = ring_contents_pop [OF r False]
    from ok pop obtain c where c: "rq_q q ! rq_head q = Some c" by (cases "rq_q q ! rq_head q") (auto simp: rq_ok_def)
    let ?q = "q\<lparr>rq_head := ring_next (rq_n q) (rq_head q)\<rparr>"
    have "leave_queue q = Some (Some c, ?q)" using False b len c by (simp add: leave_queue_def c_simps)
    moreover have "rq_contents q = c # rq_contents ?q" using pop c by (simp add: rq_contents_def)
    moreover have "rq_ok ?q" using ok pop b by (auto simp: rq_ok_def ring_ok_def)
    ultimately show ?thesis by simp
  qed
qed

interpretation rq: fifo rq_ok rq_limit rq_contents rq_push leave_queue
proof
  fix q x assume ok: "rq_ok q" and "length (rq_contents q) < rq_limit q"
  then obtain q' where "enter_queue q (fst x) (snd x) = Some q'" by (simp add: enter_queue_iff)
  with enter_queue_spec [OF ok this] show "\<exists>q'. rq_push q x = Some q' \<and> rq_ok q' \<and>
      rq_contents q' = rq_contents q @ [x] \<and> rq_limit q' = rq_limit q"
    by (simp add: rq_push_def rq_limit_def)
qed (use leave_queue_spec in \<open>fastforce simp: rq_limit_def split: list.splits\<close>)+







subsection \<open>Distances\<close>












definition improves :: "(cell \<Rightarrow> int) \<Rightarrow> (cell \<Rightarrow> int) \<Rightarrow> bool" where
  "improves R R' \<longleftrightarrow> (\<forall>v. R v \<noteq> 0 \<longrightarrow> R' v \<noteq> 0 \<and> R' v \<le> R v)"

lemma improves_refl [simp]: "improves R R"
  and improves_trans: "improves R R' \<Longrightarrow> improves R' R'' \<Longrightarrow> improves R R''"
  unfolding improves_def by simp (meson order_trans)



























subsection \<open>Initial wavefront\<close>








subsection \<open>Directions\<close>










subsection \<open>Properties\<close>




text \<open>C29: The queue of the wavefront is first in first out under every sequence of entering and
  leaving, also across the end of its array, as long as it never holds more than one cell less than the
  map has: the results are those of a list, and leaving an empty queue reports it.  Entering one cell
  more fails the assertion of \<open>enter_queue\<close>.\<close>

theorem route_queue_fifo:
  assumes "0 < n" "queue_fits (n - 1) ops []"
  shows "\<exists>q. run_queue rq_push leave_queue ops (create_queue n) = Some (fst (queue_spec ops []), q) \<and>
    (length (snd (queue_spec ops [])) = n - 1 \<longrightarrow> rq_push q c = None)"
proof -
  have q: "rq_ok (create_queue n)" "rq_contents (create_queue n) = []" "rq_limit (create_queue n) = n - 1"
    using assms(1) by (auto simp: rq_ok_def create_queue_def ring_ok_def rq_contents_def rq_limit_def)
  from rq.run_queue_refines [OF q(1), of ops] assms(2) q obtain q' where
    "run_queue rq_push leave_queue ops (create_queue n) = Some (fst (queue_spec ops []), q')" "rq_ok q'"
    "rq_contents q' = snd (queue_spec ops [])" "rq_limit q' = n - 1" by auto
  then show ?thesis by (auto simp: rq_push_def enter_queue_iff)
qed

text \<open>The distances count a blocked cell with its weight instead of leaving it out, so that on this
  map (target at the top left, walls marked 255) the direction stored for the free cell at the top
  right is 1, left, into the wall beside it.\<close>

definition wall_map :: gmap where
  "wall_map = \<lparr>gm_width = 3, gm_height = 3, gm_m = [0, 255, 0, 0, 255, 0, 255, 254, 0]\<rparr>"

lemma flowgraph_into_wall:
  "(case lflowgraph wall_map (Some ''X'') (Some ''X'') None of
      Some (Inr r) \<Rightarrow> lblock r 2 0 = Some (Inr 1) \<and> lblock wall_map 1 0 = Some (Inr 255)
    | _ \<Rightarrow> False)"
  by code_simp

subsection \<open>Witnesses\<close>




theorem route_queue_fifo_witness:
  "\<exists>q. run_queue rq_push leave_queue
      [Qpush (0, 1), Qpush (1, 1), Qpop, Qpush (2, 1), Qpop, Qpop, Qpop, Qpush (3, 1), Qpush (4, 1)] (create_queue 3) =
    Some ([Some (0, 1), Some (1, 1), Some (2, 1), None], q) \<and> rq_push q (5, 1) = None"
  using route_queue_fifo [of 3 "[Qpush (0, 1), Qpush (1, 1), Qpop, Qpush (2, 1), Qpop, Qpop, Qpop,
    Qpush (3, 1), Qpush (4, 1)]" "(5, 1)"] by simp

end
