(* ===== verification/Netpack.thy ===== *)
theory Netpack
  imports Prelude
begin

text \<open>
  The framing of socket data, \<open>3rd/skynet/lualib-src/lua-netpack.c\<close>: each package is a two
  byte big-endian size and that many bytes.  Socket messages cut the stream of a connection
  anywhere; the partial package of a connection waits in a hash table, complete packages go
  to a ring buffer or straight to the caller.

  A Lua value that is a queue or nil is an option.  Memory from \<open>skynet_malloc\<close> is a list of
  \<open>u8 option\<close>, \<open>None\<close> for a byte that has not been written; a package is delivered as bytes,
  and delivering an unwritten byte is a fault.
\<close>

definition QUEUESIZE :: nat where "QUEUESIZE = 1024"
definition HASHSIZE :: nat where "HASHSIZE = 4096"

record netpack =
  np_id :: int
  np_size :: nat
  np_buffer :: "u8 list"

record uncomplete =
  uc_id :: int
  uc_size :: nat
  uc_buffer :: "u8 option list"
  uc_read :: int
  uc_header :: int

text \<open>The hash table is indexed by \<open>hash_fd\<close>; a chain is the list of its nodes.\<close>

record pack_queue =
  pq_cap :: nat
  pq_head :: nat
  pq_tail :: nat
  pq_hash :: "nat \<Rightarrow> uncomplete list"
  pq_queue :: "netpack option list"

text \<open>What \<open>lfilter\<close> leaves on the Lua stack beside the queue.\<close>

datatype filter_result =
    Nothing
  | Data int "u8 list"
  | More
  | Closed int
  | Opened int "u8 list"
  | Failed int "u8 list"
  | Warning int int

subsection \<open>Memory\<close>

text \<open>\<open>memcpy(dst + off, src, n)\<close> with \<open>src\<close> of length \<open>n\<close>.\<close>

definition memcpy_at :: "u8 option list \<Rightarrow> nat \<Rightarrow> u8 list \<Rightarrow> u8 option list option" where
  "memcpy_at dst off src =
     (if off + length src \<le> length dst
      then Some (take off dst @ map Some src @ drop (off + length src) dst) else None)"

text \<open>The first \<open>n\<close> bytes of a buffer, or a fault if it is shorter.\<close>

definition read_bytes :: "u8 list \<Rightarrow> nat \<Rightarrow> u8 list option" where
  "read_bytes buf n = (if n \<le> length buf then Some (take n buf) else None)"

fun initialised :: "u8 option list \<Rightarrow> u8 list option" where
  "initialised [] = Some []"
| "initialised (b # bs) = do { x \<leftarrow> b; xs \<leftarrow> initialised bs; Some (x # xs) }"

subsection \<open>The queue\<close>

definition lclear :: "pack_queue option \<Rightarrow> pack_queue option" where
  "lclear q = map_option (\<lambda>q. q\<lparr>pq_hash := \<lambda>_. [], pq_head := 0, pq_tail := 0\<rparr>) q"

text \<open>The sum does not fit an \<open>int\<close> only for descriptors within 2^19 of its maximum; it is read as its
  bit pattern there.\<close>

definition hash_fd :: "int \<Rightarrow> nat" where
  "hash_fd fd =
     (let a = drop_bit 24 fd; b = drop_bit 12 fd; c = fd
      in unat (word_of_int (a + b + c) :: u32) mod HASHSIZE)"

text \<open>The search of a chain: the node with the descriptor, unlinked from it.\<close>

fun unlink_fd :: "int \<Rightarrow> uncomplete list \<Rightarrow> (uncomplete \<times> uncomplete list) option" where
  "unlink_fd fd [] = None"
| "unlink_fd fd (uc # rest) =
     (if uc_id uc = fd then Some (uc, rest)
      else map_option (\<lambda>(u, r). (u, uc # r)) (unlink_fd fd rest))"

definition find_uncomplete :: "pack_queue option \<Rightarrow> int \<Rightarrow> uncomplete option \<times> pack_queue option" where
  "find_uncomplete q fd =
     (case q of
        None \<Rightarrow> (None, None)
      | Some q \<Rightarrow>
          let h = hash_fd fd in
          case unlink_fd fd (pq_hash q h) of
            None \<Rightarrow> (None, Some q)
          | Some (uc, rest) \<Rightarrow> (Some uc, Some (q\<lparr>pq_hash := (pq_hash q)(h := rest)\<rparr>)))"

definition get_queue :: "pack_queue option \<Rightarrow> pack_queue" where
  "get_queue q =
     (case q of
        Some q \<Rightarrow> q
      | None \<Rightarrow> \<lparr>pq_cap = QUEUESIZE, pq_head = 0, pq_tail = 0, pq_hash = \<lambda>_. [],
                 pq_queue = replicate QUEUESIZE None\<rparr>)"

definition expand_pack_queue :: "pack_queue \<Rightarrow> pack_queue option" where
  "expand_pack_queue q = do {
     cap \<leftarrow> c_int (pq_cap q + QUEUESIZE);
     Some \<lparr>pq_cap = cap, pq_head = 0, pq_tail = pq_cap q, pq_hash = pq_hash q,
       pq_queue = map (\<lambda>i. pq_queue q ! ((pq_head q + i) mod pq_cap q)) [0..<pq_cap q] @
         replicate QUEUESIZE None\<rparr> }"

definition push_data :: "pack_queue option \<Rightarrow> int \<Rightarrow> u8 list \<Rightarrow> pack_queue option" where
  "push_data q fd buffer = do {
     let q = get_queue q;
     a \<leftarrow> arr_set (pq_queue q) (pq_tail q) (Some \<lparr>np_id = fd, np_size = length buffer, np_buffer = buffer\<rparr>);
     let tail = (if pq_tail q + 1 \<ge> pq_cap q then pq_tail q + 1 - pq_cap q else pq_tail q + 1);
     let q = q\<lparr>pq_queue := a, pq_tail := tail\<rparr>;
     (if pq_head q = pq_tail q then expand_pack_queue q else Some q) }"

text \<open>\<open>save_uncomplete\<close> with the fields the caller fills in.\<close>

definition save_uncomplete :: "pack_queue option \<Rightarrow> int \<Rightarrow> uncomplete \<Rightarrow> pack_queue" where
  "save_uncomplete q fd uc =
     (let q = get_queue q; h = hash_fd fd
      in q\<lparr>pq_hash := (pq_hash q)(h := uc\<lparr>uc_id := fd\<rparr> # pq_hash q h)\<rparr>)"

definition header_only :: "int \<Rightarrow> uncomplete" where
  "header_only b = \<lparr>uc_id = 0, uc_size = 0, uc_buffer = [], uc_read = - 1, uc_header = b\<rparr>"

definition part_read :: "nat \<Rightarrow> u8 list \<Rightarrow> uncomplete option" where
  "part_read pack_size buffer = do {
     b \<leftarrow> memcpy_at (replicate pack_size None) 0 buffer;
     Some \<lparr>uc_id = 0, uc_size = pack_size, uc_buffer = b, uc_read = int (length buffer), uc_header = 0\<rparr> }"

definition read_size :: "u8 list \<Rightarrow> nat option" where
  "read_size buffer =
     (case buffer of a # b # _ \<Rightarrow> Some (unat a * 256 + unat b) | _ \<Rightarrow> None)"

function push_more :: "pack_queue option \<Rightarrow> int \<Rightarrow> u8 list \<Rightarrow> pack_queue option" where
  "push_more q fd buffer =
     (if length buffer = 1 then Some (save_uncomplete q fd (header_only (uint (hd buffer))))
      else do {
        pack_size \<leftarrow> read_size buffer;
        let buffer' = drop 2 buffer;
        (if length buffer' < pack_size
         then do { uc \<leftarrow> part_read pack_size buffer'; Some (save_uncomplete q fd uc) }
         else do {
           d \<leftarrow> read_bytes buffer' pack_size;
           q \<leftarrow> push_data q fd d;
           let buffer'' = drop pack_size buffer';
           (if length buffer'' > 0 then push_more (Some q) fd buffer'' else Some q) }) })"
  by pat_completeness auto
termination
  by (relation "measure (\<lambda>(q, fd, buffer). length buffer)")
    (auto simp: read_size_def split: list.splits)

declare push_more.simps [simp del]

definition close_uncomplete :: "pack_queue option \<Rightarrow> int \<Rightarrow> pack_queue option" where
  "close_uncomplete q fd = snd (find_uncomplete q fd)"

text \<open>The branch of \<open>filter_data_\<close> for a connection with a partial package: first the size, if only one of
  its bytes is known, then the rest.\<close>

definition fill_rest ::
    "pack_queue \<Rightarrow> int \<Rightarrow> uncomplete \<Rightarrow> u8 list \<Rightarrow> (filter_result \<times> pack_queue) option" where
  "fill_rest q fd uc buffer = do {
     let need = int (uc_size uc) - uc_read uc;
     (if int (length buffer) < need
      then do {
        b \<leftarrow> memcpy_at (uc_buffer uc) (nat (uc_read uc)) buffer;
        let uc = uc\<lparr>uc_buffer := b, uc_read := uc_read uc + int (length buffer)\<rparr>;
        let h = hash_fd fd;
        Some (Nothing, q\<lparr>pq_hash := (pq_hash q)(h := uc # pq_hash q h)\<rparr>) }
      else do {
        c_assert (0 \<le> need);
        d \<leftarrow> read_bytes buffer (nat need);
        b \<leftarrow> memcpy_at (uc_buffer uc) (nat (uc_read uc)) d;
        pack \<leftarrow> initialised b;
        let buffer = drop (nat need) buffer;
        (if length buffer = 0 then Some (Data fd pack, q)
         else do {
           q \<leftarrow> push_data (Some q) fd pack;
           q \<leftarrow> push_more (Some q) fd buffer;
           Some (More, q) }) }) }"

definition fill_uncomplete ::
    "pack_queue \<Rightarrow> int \<Rightarrow> uncomplete \<Rightarrow> u8 list \<Rightarrow> (filter_result \<times> pack_queue) option" where
  "fill_uncomplete q fd uc buffer = do {
     (uc, buffer) \<leftarrow> (if uc_read uc < 0
       then do {
         c_assert (uc_read uc = - 1);
         b \<leftarrow> arr_get buffer 0;
         let pack_size = nat (uint b OR push_bit 8 (uc_header uc));
         Some (uc\<lparr>uc_size := pack_size, uc_buffer := replicate pack_size None, uc_read := 0\<rparr>, drop 1 buffer) }
       else Some (uc, buffer));
     fill_rest q fd uc buffer }"

definition filter_data ::
    "pack_queue option \<Rightarrow> int \<Rightarrow> u8 list \<Rightarrow> (filter_result \<times> pack_queue option) option" where
  "filter_data q fd buffer =
     (case find_uncomplete q fd of
        (Some uc, Some q) \<Rightarrow> map_option (\<lambda>(r, q). (r, Some q)) (fill_uncomplete q fd uc buffer)
      | (_, q) \<Rightarrow>
          if length buffer = 1 then Some (Nothing, Some (save_uncomplete q fd (header_only (uint (hd buffer)))))
          else do {
            pack_size \<leftarrow> read_size buffer;
            let buffer = drop 2 buffer;
            (if length buffer < pack_size
             then do { uc \<leftarrow> part_read pack_size buffer; Some (Nothing, Some (save_uncomplete q fd uc)) }
             else if length buffer = pack_size then Some (Data fd buffer, q)
             else do {
               d \<leftarrow> read_bytes buffer pack_size;
               q \<leftarrow> push_data q fd d;
               q \<leftarrow> push_more (Some q) fd (drop pack_size buffer);
               Some (More, Some q) }) })"

text \<open>A socket message: its type, its identifier, its number and its buffer (\<open>None\<close> when the text is
  padded after the message).\<close>

datatype socket_type = SDATA | SCONNECT | SCLOSE | SACCEPT | SERROR | SWARNING | SUDP

definition lfilter :: "pack_queue option \<Rightarrow> socket_type \<Rightarrow> int \<Rightarrow> int \<Rightarrow> u8 list option \<Rightarrow> u8 list \<Rightarrow>
    (filter_result \<times> pack_queue option) option" where
  "lfilter q type sid ud buffer padding =
     (let text = (case buffer of None \<Rightarrow> Some padding | Some _ \<Rightarrow> None)
      in case type of
        SDATA \<Rightarrow> do {
          b \<leftarrow> buffer;
          c_assert (int (length b) = ud);
          filter_data q sid b }
      | SCONNECT \<Rightarrow> Some (Nothing, q)
      | SCLOSE \<Rightarrow> Some (Closed sid, close_uncomplete q sid)
      | SACCEPT \<Rightarrow> do { t \<leftarrow> text; Some (Opened ud t, q) }
      | SERROR \<Rightarrow> do { t \<leftarrow> text; Some (Failed sid t, close_uncomplete q sid) }
      | SWARNING \<Rightarrow> Some (Warning sid ud, q)
      | SUDP \<Rightarrow> Some (Nothing, q))"

definition lpop :: "pack_queue option \<Rightarrow> (netpack option \<times> pack_queue option) option" where
  "lpop q =
     (case q of
        None \<Rightarrow> Some (None, None)
      | Some q \<Rightarrow>
          if pq_head q = pq_tail q then Some (None, Some q)
          else do {
            np \<leftarrow> arr_get (pq_queue q) (pq_head q);
            np \<leftarrow> np;
            let head = (if pq_head q + 1 \<ge> pq_cap q then 0 else pq_head q + 1);
            Some (Some np, Some (q\<lparr>pq_head := head\<rparr>)) })"

subsection \<open>Packing\<close>

datatype pack_error = TooLong nat

definition write_size :: "nat \<Rightarrow> u8 list" where
  "write_size len = [word_of_nat (len div 256), word_of_nat len]"

definition lpack :: "u8 list \<Rightarrow> pack_error + u8 list" where
  "lpack data =
     (if length data \<ge> 0x10000 then Inl (TooLong (length data))
      else Inr (write_size (length data) @ data))"

subsection \<open>Frames of a byte stream\<close>

text \<open>The complete packages at the front of a stream, and the bytes left over.\<close>

function frames :: "u8 list \<Rightarrow> u8 list list \<times> u8 list" where
  "frames s =
     (case s of
        a # b # rest \<Rightarrow>
          let n = unat a * 256 + unat b in
          if n \<le> length rest
          then (take n rest # fst (frames (drop n rest)), snd (frames (drop n rest)))
          else ([], s)
      | _ \<Rightarrow> ([], s))"
  by pat_completeness auto
termination
  by (relation "measure length") auto

declare frames.simps [simp del]

lemma frames_short [simp]: "frames [] = ([], [])" "frames [a] = ([], [a])"
  by (subst frames.simps, simp)+

lemma frames_part:
  "length rest < unat a * 256 + unat b \<Longrightarrow> frames (a # b # rest) = ([], a # b # rest)"
  by (subst frames.simps) simp

lemma frames_cons:
  assumes "n = unat a * 256 + unat b" "n \<le> length rest"
  shows "frames (a # b # rest) = (take n rest # fst (frames (drop n rest)), snd (frames (drop n rest)))"
  using assms by (subst frames.simps) (simp add: Let_def)

lemma frames_idle: "fst (frames s) = [] \<Longrightarrow> frames s = ([], s)"
  using frames.simps [of s] by (auto simp: Let_def split: list.splits if_splits)

text \<open>Framing is independent of how the stream is cut.\<close>

lemma frames_append:
  "frames (s @ t) = (fst (frames s) @ fst (frames (snd (frames s) @ t)), snd (frames (snd (frames s) @ t)))"
proof (induction s rule: length_induct)
  case (1 s)
  show ?case
  proof (cases "\<exists>a b rest. s = a # b # rest \<and> unat a * 256 + unat b \<le> length rest")
    case True
    then obtain a b rest where s: "s = a # b # rest" and n: "unat a * 256 + unat b \<le> length rest" by blast
    let ?n = "unat a * 256 + unat b"
    from 1 s have IH: "frames (drop ?n rest @ t) = (fst (frames (drop ?n rest)) @
        fst (frames (snd (frames (drop ?n rest)) @ t)), snd (frames (snd (frames (drop ?n rest)) @ t)))" by simp
    have "frames (s @ t) = (take ?n rest # fst (frames (drop ?n rest @ t)), snd (frames (drop ?n rest @ t)))"
      using frames_cons [of ?n a b "rest @ t"] n s by simp
    with IH show ?thesis using frames_cons [OF refl n] s by simp
  next
    case False
    then have "frames s = ([], s)"
      by (subst frames.simps) (auto simp: Let_def split: list.splits)
    then show ?thesis by simp
  qed
qed

lemma frames_count: "2 * length (fst (frames s)) \<le> length s"
proof (induction s rule: frames.induct)
  case (1 s)
  show ?case
  proof (cases "\<exists>a b rest. s = a # b # rest \<and> unat a * 256 + unat b \<le> length rest")
    case True
    then obtain a b rest where s: "s = a # b # rest" and n: "unat a * 256 + unat b \<le> length rest" by blast
    with 1 [OF s _ refl n] show ?thesis using frames_cons [OF refl n] by simp
  next
    case False
    then have "frames s = ([], s)" by (subst frames.simps) (auto simp: Let_def split: list.splits)
    then show ?thesis by simp
  qed
qed

subsection \<open>The table of partial packages\<close>

definition uc_ok :: "uncomplete \<Rightarrow> bool" where
  "uc_ok uc \<longleftrightarrow> (uc_read uc = - 1 \<and> 0 \<le> uc_header uc \<and> uc_header uc < 256) \<or>
     (0 \<le> uc_read uc \<and> uc_read uc < int (uc_size uc) \<and> uc_size uc < 65536 \<and>
      length (uc_buffer uc) = uc_size uc \<and> None \<notin> set (take (nat (uc_read uc)) (uc_buffer uc)))"

text \<open>The bytes of the stream that a partial package stands for.\<close>

definition uc_bytes :: "uncomplete \<Rightarrow> u8 list" where
  "uc_bytes uc =
     (if uc_read uc < 0 then [word_of_int (uc_header uc)]
      else write_size (uc_size uc) @ map the (take (nat (uc_read uc)) (uc_buffer uc)))"

definition chain_ok :: "nat \<Rightarrow> uncomplete list \<Rightarrow> bool" where
  "chain_ok h ucs \<longleftrightarrow> distinct (map uc_id ucs) \<and> (\<forall>uc \<in> set ucs. uc_ok uc \<and> hash_fd (uc_id uc) = h)"

definition pq_wf :: "pack_queue \<Rightarrow> bool" where
  "pq_wf q \<longleftrightarrow> ring_ok (pq_cap q) (pq_head q) (pq_tail q) (pq_queue q) \<and> length (pq_queue q) = pq_cap q \<and>
     None \<notin> set (ring_contents (pq_cap q) (pq_head q) (pq_tail q) (pq_queue q)) \<and>
     (\<forall>h. chain_ok h (pq_hash q h))"

definition pq_items :: "pack_queue \<Rightarrow> (int \<times> u8 list) list" where
  "pq_items q = map (\<lambda>np. (np_id (the np), np_buffer (the np)))
     (ring_contents (pq_cap q) (pq_head q) (pq_tail q) (pq_queue q))"

definition pq_part :: "pack_queue \<Rightarrow> int \<Rightarrow> u8 list" where
  "pq_part q fd = (case find (\<lambda>uc. uc_id uc = fd) (pq_hash q (hash_fd fd)) of
     None \<Rightarrow> [] | Some uc \<Rightarrow> uc_bytes uc)"

text \<open>The contents of the ring must leave room for a larger array.\<close>

definition pq_limit :: nat where
  "pq_limit = INT_MAX - QUEUESIZE"

definition wf_queue :: "pack_queue option \<Rightarrow> bool" where
  "wf_queue q \<longleftrightarrow> pq_wf (get_queue q)"

definition items :: "pack_queue option \<Rightarrow> (int \<times> u8 list) list" where
  "items q = pq_items (get_queue q)"

definition part :: "pack_queue option \<Rightarrow> int \<Rightarrow> u8 list" where
  "part q = pq_part (get_queue q)"

lemma wf_new_queue: "wf_queue None" and items_new_queue: "items None = []" and part_new_queue: "part None fd = []"
  by (simp_all add: wf_queue_def pq_wf_def items_def pq_items_def part_def pq_part_def get_queue_def
      ring_ok_def chain_ok_def QUEUESIZE_def)

lemma get_queue_Some [simp]: "get_queue (Some q) = q"
  by (simp add: get_queue_def)

lemma uc_bytes_not_empty: "uc_bytes uc \<noteq> []"
  by (simp add: uc_bytes_def write_size_def)

lemma expand_pack_queue_spec:
  assumes "ring_ok (pq_cap q) (pq_head q) t b" "length b = pq_cap q" "ring_next (pq_cap q) t = pq_head q"
    "pq_cap q + QUEUESIZE \<le> INT_MAX" "pq_queue q = b[t := v]"
  shows "\<exists>q'. expand_pack_queue q = Some q' \<and> pq_hash q' = pq_hash q \<and>
    ring_ok (pq_cap q') (pq_head q') (pq_tail q') (pq_queue q') \<and> length (pq_queue q') = pq_cap q' \<and>
    ring_contents (pq_cap q') (pq_head q') (pq_tail q') (pq_queue q') =
      ring_contents (pq_cap q) (pq_head q) t b @ [v]"
proof -
  let ?l = "map (\<lambda>i. pq_queue q ! ((pq_head q + i) mod pq_cap q)) [0..<pq_cap q]"
  let ?q = "\<lparr>pq_cap = pq_cap q + QUEUESIZE, pq_head = 0, pq_tail = pq_cap q, pq_hash = pq_hash q,
    pq_queue = ?l @ replicate QUEUESIZE None\<rparr>"
  have "expand_pack_queue q = Some ?q" using assms(4) by (simp add: expand_pack_queue_def c_simps)
  moreover have "?l = ring_contents (pq_cap q) (pq_head q) t b @ [v]"
    unfolding assms(5) by (rule ring_rotation [OF assms(1,3)])
  moreover have "ring_contents (pq_cap q + QUEUESIZE) 0 (pq_cap q) (?l @ replicate QUEUESIZE None) = ?l"
    by (subst ring_contents_flat) (simp_all add: QUEUESIZE_def)
  moreover have "0 < QUEUESIZE" by (simp add: QUEUESIZE_def)
  moreover have "Suc (ring_len (pq_cap q) (pq_head q) t) = pq_cap q"
    using assms(1) by (intro ring_len_full assms(3)) (auto simp: ring_ok_def)
  ultimately show ?thesis by (intro exI [of _ ?q]) (simp add: ring_ok_def)
qed

lemma push_data_spec:
  assumes wf: "wf_queue q" and room: "length (items q) < pq_limit"
  shows "\<exists>q'. push_data q fd b = Some q' \<and> pq_wf q' \<and> pq_items q' = items q @ [(fd, b)] \<and>
    pq_hash q' = pq_hash (get_queue q)"
proof -
  let ?q = "get_queue q" and ?v = "Some \<lparr>np_id = fd, np_size = length b, np_buffer = b\<rparr>"
  let ?cap = "pq_cap ?q" and ?h = "pq_head ?q" and ?t = "pq_tail ?q" and ?a = "pq_queue ?q"
  from wf have r: "ring_ok ?cap ?h ?t ?a" and len: "length ?a = ?cap"
    and none: "None \<notin> set (ring_contents ?cap ?h ?t ?a)" and chains: "\<forall>h. chain_ok h (pq_hash ?q h)"
    by (simp_all add: wf_queue_def pq_wf_def)
  have lt: "?h < ?cap" "?t < ?cap" using r by (auto simp: ring_ok_def)
  have tail: "(if ?t + 1 \<ge> ?cap then ?t + 1 - ?cap else ?t + 1) = ring_next ?cap ?t"
    using lt by (auto simp: ring_next_def)
  let ?q1 = "?q\<lparr>pq_queue := ?a[?t := ?v], pq_tail := ring_next ?cap ?t\<rparr>"
  show ?thesis
  proof (cases "ring_next ?cap ?t = ?h")
    case False
    have "push_data q fd b = Some ?q1"
      using lt len tail False by (simp add: push_data_def c_simps Let_def)
    moreover note push = ring_contents_push [OF r False, of ?v]
    have "pq_wf ?q1" using r len none chains push lt by (auto simp: pq_wf_def ring_ok_def)
    moreover have "pq_items ?q1 = items q @ [(fd, b)]" using push by (simp add: pq_items_def items_def)
    ultimately show ?thesis by (intro exI [of _ ?q1]) simp
  next
    case True
    have full: "Suc (length (items q)) = ?cap"
      using ring_len_full [OF lt True] by (simp add: items_def pq_items_def)
    have "?cap + QUEUESIZE \<le> INT_MAX"
      using room full by (simp add: pq_limit_def INT_MAX_def QUEUESIZE_def)
    with expand_pack_queue_spec [of ?q1 ?t ?a ?v] r len True obtain q' where
      q': "expand_pack_queue ?q1 = Some q'" "pq_hash q' = pq_hash ?q"
        "ring_ok (pq_cap q') (pq_head q') (pq_tail q') (pq_queue q')" "length (pq_queue q') = pq_cap q'"
        "ring_contents (pq_cap q') (pq_head q') (pq_tail q') (pq_queue q') = ring_contents ?cap ?h ?t ?a @ [?v]"
      by auto
    have "push_data q fd b = Some q'"
      using lt len tail True q'(1) by (simp add: push_data_def c_simps Let_def)
    moreover have "pq_wf q'" using q'(2-5) none chains by (auto simp: pq_wf_def)
    moreover have "pq_items q' = items q @ [(fd, b)]" using q'(5) by (simp add: pq_items_def items_def)
    ultimately show ?thesis using q'(2) by blast
  qed
qed

text \<open>The effect of an operation on the streams: what it adds to the ring, and what it leaves of the
  stream of one connection.\<close>

definition feeds :: "pack_queue option \<Rightarrow> int \<Rightarrow> u8 list list \<Rightarrow> u8 list \<Rightarrow> pack_queue option \<Rightarrow> bool" where
  "feeds q fd fs rest q' \<longleftrightarrow> wf_queue q' \<and> items q' = items q @ map (Pair fd) fs \<and>
     part q' = (part q)(fd := rest)"

lemma items_frame: "pq_items (q\<lparr>pq_hash := t\<rparr>) = pq_items q"
  by (simp add: pq_items_def)

lemma part_other_hash:
  "pq_hash q' = pq_hash q \<Longrightarrow> pq_part q' = pq_part q"
  by (simp add: pq_part_def fun_eq_iff)

lemma find_id_None: "find (\<lambda>uc. uc_id uc = fd) ucs = None \<longleftrightarrow> fd \<notin> uc_id ` set ucs"
  by (auto simp: find_None_iff)

text \<open>Linking a partial package of a connection that has none.\<close>

lemma link_feeds:
  assumes wf: "wf_queue q" and uc: "uc_ok uc" "uc_id uc = fd" and none: "part q fd = []"
  shows "feeds q fd [] (uc_bytes uc)
    (Some ((get_queue q)\<lparr>pq_hash := (pq_hash (get_queue q))(hash_fd fd := uc # pq_hash (get_queue q) (hash_fd fd))\<rparr>))"
proof -
  let ?q = "get_queue q"
  let ?q' = "?q\<lparr>pq_hash := (pq_hash ?q)(hash_fd fd := uc # pq_hash ?q (hash_fd fd))\<rparr>"
  have "find (\<lambda>uc. uc_id uc = fd) (pq_hash ?q (hash_fd fd)) = None"
    using none uc_bytes_not_empty by (auto simp: part_def pq_part_def split: option.splits)
  then have fresh: "fd \<notin> uc_id ` set (pq_hash ?q (hash_fd fd))" unfolding find_id_None .
  from wf have "\<forall>h. chain_ok h (pq_hash ?q h)" by (simp add: wf_queue_def pq_wf_def)
  with fresh uc have "\<forall>h. chain_ok h (pq_hash ?q' h)" by (auto simp: chain_ok_def)
  with wf have "pq_wf ?q'" by (simp add: wf_queue_def pq_wf_def)
  moreover have "pq_part ?q' x = ((part q)(fd := uc_bytes uc)) x" for x
    using uc by (auto simp: pq_part_def part_def)
  ultimately show ?thesis by (simp add: feeds_def wf_queue_def items_def part_def items_frame fun_eq_iff)
qed

lemma save_feeds:
  assumes "wf_queue q" "uc_ok uc" "part q fd = []"
  shows "feeds q fd [] (uc_bytes uc) (Some (save_uncomplete q fd uc))"
proof -
  have "uc_ok (uc\<lparr>uc_id := fd\<rparr>)" "uc_bytes (uc\<lparr>uc_id := fd\<rparr>) = uc_bytes uc"
    using assms(2) by (simp_all add: uc_ok_def uc_bytes_def)
  with link_feeds [OF assms(1), of "uc\<lparr>uc_id := fd\<rparr>" fd] assms(3) show ?thesis
    by (simp add: save_uncomplete_def Let_def)
qed

lemma header_only_ok: "uc_ok (header_only (uint b))" "uc_bytes (header_only (uint b)) = [b]"
  using uint_bounded [of b] by (simp_all add: uc_ok_def header_only_def uc_bytes_def)

lemma byte_less: "unat b < 256" for b :: u8
proof -
  have "unat b < 2 ^ LENGTH(8)" by (rule unsigned_less)
  then show ?thesis by simp
qed

lemma write_size_bytes:
  "write_size (unat a * 256 + unat b) = [a, b]" for a b :: u8
proof -
  have b: "unat b < 256" by (rule byte_less)
  have "word_of_nat ((unat a * 256 + unat b) div 256) = a"
    using b by (simp add: div_add1_eq [of "unat a * 256"])
  moreover have mod: "unat (word_of_nat n :: u8) = n mod 256" for n by (simp add: unat_of_nat)
  have "unat (word_of_nat (unat a * 256 + unat b) :: u8) = unat b"
    unfolding mod mod_mult_self3 using b by simp
  then have "(word_of_nat (unat a * 256 + unat b) :: u8) = b" by (rule word_unat_eq_iff [THEN iffD2])
  ultimately show ?thesis by (simp add: write_size_def)
qed

lemma size_bound: "unat a * 256 + unat b < 65536" for a b :: u8
  using byte_less [of a] byte_less [of b] by simp

lemma part_read_spec:
  assumes "length rest < n" "n = unat a * 256 + unat b"
  shows "\<exists>uc. part_read n rest = Some uc \<and> uc_ok uc \<and> uc_bytes uc = a # b # rest"
  using assms(1) size_bound [of a b, folded assms(2)] write_size_bytes [of a b, folded assms(2)]
  by (simp add: part_read_def memcpy_at_def uc_ok_def uc_bytes_def image_iff o_def)

lemma feeds_trans:
  assumes "feeds q fd fs r q'" "feeds q' fd fs' r' q''"
  shows "feeds q fd (fs @ fs') r' q''"
  using assms by (auto simp: feeds_def)

lemma push_feeds:
  assumes "wf_queue q" "length (items q) < pq_limit" "part q fd = []"
  shows "\<exists>q'. push_data q fd b = Some q' \<and> feeds q fd [b] [] (Some q')"
proof -
  from push_data_spec [OF assms(1,2)] obtain q' where
    "push_data q fd b = Some q'" "pq_wf q'" "pq_items q' = items q @ [(fd, b)]"
    "pq_hash q' = pq_hash (get_queue q)" by blast
  moreover from this(4) have "part (Some q') = part q"
    by (simp add: part_def part_other_hash [of q' "get_queue q"])
  ultimately show ?thesis using assms(3) by (auto simp: feeds_def wf_queue_def items_def)
qed

lemma feeds_part: "feeds q fd fs r q' \<Longrightarrow> part q' fd = r"
  and feeds_wf: "feeds q fd fs r q' \<Longrightarrow> wf_queue q'"
  and feeds_items: "feeds q fd fs r q' \<Longrightarrow> length (items q') = length (items q) + length fs"
  by (simp_all add: feeds_def)

lemma push_more_spec:
  assumes "wf_queue q" "part q fd = []" "buffer \<noteq> []" "length (items q) + length buffer \<le> pq_limit"
  shows "\<exists>q'. push_more q fd buffer = Some q' \<and>
    feeds q fd (fst (frames buffer)) (snd (frames buffer)) (Some q')"
  using assms
proof (induction buffer arbitrary: q rule: length_induct)
  case (1 buffer)
  show ?case
  proof (cases "length buffer = 1")
    case True
    then obtain b where b: "buffer = [b]" by (cases buffer) auto
    with save_feeds [OF "1.prems"(1) header_only_ok(1) "1.prems"(2)] show ?thesis
      by (subst push_more.simps) (simp add: header_only_ok)
  next
    case False
    with "1.prems"(3) obtain a b rest where buf: "buffer = a # b # rest"
      by (cases buffer; cases "tl buffer") auto
    let ?n = "unat a * 256 + unat b"
    have size: "read_size buffer = Some ?n" by (simp add: read_size_def buf)
    show ?thesis
    proof (cases "length rest < ?n")
      case True
      from part_read_spec [OF True refl] obtain uc where uc: "part_read ?n rest = Some uc" "uc_ok uc"
        "uc_bytes uc = buffer" by (auto simp: buf)
      with save_feeds [OF "1.prems"(1) uc(2) "1.prems"(2)] True frames_part [OF True] False size show ?thesis
        by (subst push_more.simps) (simp add: buf)
    next
      case le: False
      let ?rest = "drop ?n rest"
      have n: "?n \<le> length rest" using le by simp
      from push_feeds [OF "1.prems"(1) _ "1.prems"(2), of "take ?n rest"] "1.prems"(4) buf obtain q1 where
        q1: "push_data q fd (take ?n rest) = Some q1" "feeds q fd [take ?n rest] [] (Some q1)" by auto
      have eq: "push_more q fd buffer = (if length ?rest > 0 then push_more (Some q1) fd ?rest else Some q1)"
        using False size le q1(1) by (subst push_more.simps) (simp add: buf read_bytes_def Let_def)
      show ?thesis
      proof (cases "?rest = []")
        case True
        with eq q1(2) frames_cons [OF refl n] show ?thesis by (simp add: buf)
      next
        case ne: False
        have "length ?rest < length buffer" by (simp add: buf)
        moreover have "length (items (Some q1)) + length ?rest \<le> pq_limit"
          using feeds_items [OF q1(2)] "1.prems"(4) buf by simp
        ultimately obtain q' where
          q': "push_more (Some q1) fd ?rest = Some q'"
            "feeds (Some q1) fd (fst (frames ?rest)) (snd (frames ?rest)) (Some q')"
          using "1.IH" feeds_wf [OF q1(2)] feeds_part [OF q1(2)] ne by blast
        with eq ne feeds_trans [OF q1(2) q'(2)] frames_cons [OF refl n] show ?thesis by (simp add: buf)
      qed
    qed
  qed
qed

subsection \<open>Filtering a socket message\<close>

lemma unlink_fd_spec:
  "case unlink_fd fd ucs of
     None \<Rightarrow> fd \<notin> uc_id ` set ucs
   | Some (uc, rest) \<Rightarrow> uc_id uc = fd \<and> (\<exists>xs ys. ucs = xs @ uc # ys \<and> rest = xs @ ys \<and> fd \<notin> uc_id ` set xs)"
proof (induction ucs)
  case Nil
  then show ?case by simp
next
  case (Cons u ucs)
  show ?case
  proof (cases "uc_id u = fd")
    case True
    then show ?thesis by (auto intro: exI [of _ "[]"])
  next
    case False
    show ?thesis
    proof (cases "unlink_fd fd ucs")
      case None
      with Cons False show ?thesis by auto
    next
      case (Some p)
      then obtain uc rest where p: "unlink_fd fd ucs = Some (uc, rest)" by (cases p) auto
      with Cons obtain xs ys where "uc_id uc = fd" "ucs = xs @ uc # ys" "rest = xs @ ys" "fd \<notin> uc_id ` set xs"
        by auto
      with p False show ?thesis
        by (simp, intro exI [of _ "u # xs"] exI [of _ ys]) simp
    qed
  qed
qed

text \<open>Looking up the partial package of a connection removes it.\<close>

lemma find_uncomplete_spec:
  assumes wf: "wf_queue q"
  shows "(\<exists>uc q'. find_uncomplete q fd = (Some uc, Some q') \<and> uc_ok uc \<and> uc_id uc = fd \<and>
      part q fd = uc_bytes uc \<and> feeds q fd [] [] (Some q')) \<or>
    (find_uncomplete q fd = (None, q) \<and> part q fd = [])"
proof (cases q)
  case None
  then show ?thesis by (simp add: find_uncomplete_def part_new_queue)
next
  case (Some pq)
  let ?c = "pq_hash pq (hash_fd fd)"
  show ?thesis
  proof (cases "unlink_fd fd ?c")
    case None
    with unlink_fd_spec [of fd ?c] have "find (\<lambda>uc. uc_id uc = fd) ?c = None" by (simp add: find_id_None)
    with None Some show ?thesis by (simp add: find_uncomplete_def part_def pq_part_def Let_def)
  next
    case (Some p)
    then obtain uc rest where p: "unlink_fd fd ?c = Some (uc, rest)" by (cases p) auto
    with unlink_fd_spec [of fd ?c] obtain xs ys where
      c: "uc_id uc = fd" "?c = xs @ uc # ys" "rest = xs @ ys" "fd \<notin> uc_id ` set xs" by auto
    from wf \<open>q = Some pq\<close> have chains: "\<And>h. chain_ok h (pq_hash pq h)" by (simp add: wf_queue_def pq_wf_def)
    then have "chain_ok (hash_fd fd) ?c" .
    then have rest: "chain_ok (hash_fd fd) rest" "fd \<notin> uc_id ` set rest" "uc_ok uc"
      using c by (auto simp: chain_ok_def)
    let ?q = "pq\<lparr>pq_hash := (pq_hash pq)(hash_fd fd := rest)\<rparr>"
    have find: "find (\<lambda>u. uc_id u = fd) ?c = Some uc" unfolding c(2)
      using c(1,4) by (induction xs) auto
    have other: "find (\<lambda>u. uc_id u = x) (pq_hash ?q (hash_fd x)) = find (\<lambda>u. uc_id u = x) (pq_hash pq (hash_fd x))"
      if "x \<noteq> fd" for x
    proof (cases "hash_fd x = hash_fd fd")
      case True
      have "find (\<lambda>u. uc_id u = x) (xs @ ys) = find (\<lambda>u. uc_id u = x) (xs @ uc # ys)"
        using that c(1) by (induction xs) auto
      with True c(2,3) show ?thesis by simp
    qed simp
    have "pq_wf ?q" using wf \<open>q = Some pq\<close> rest(1) by (simp add: wf_queue_def pq_wf_def)
    moreover have "pq_part ?q x = ((pq_part pq)(fd := [])) x" for x
    proof (cases "x = fd")
      case True
      from rest(2) have "find (\<lambda>u. uc_id u = fd) rest = None" by (simp add: find_id_None)
      with True show ?thesis by (simp add: pq_part_def)
    next
      case False
      with other [OF False] show ?thesis by (simp add: pq_part_def)
    qed
    ultimately have "feeds q fd [] [] (Some ?q)"
      using \<open>q = Some pq\<close> by (simp add: feeds_def wf_queue_def items_def items_frame part_def fun_eq_iff)
    moreover have "part q fd = uc_bytes uc" using find \<open>q = Some pq\<close> by (simp add: part_def pq_part_def)
    ultimately show ?thesis using p c(1) rest(3) \<open>q = Some pq\<close> by (simp add: find_uncomplete_def Let_def)
  qed
qed

lemma initialised_map_Some: "initialised (map Some xs) = Some xs"
  by (induction xs) simp_all

lemma no_None_map: "None \<notin> set xs \<Longrightarrow> map Some (map the xs) = xs"
  by (induction xs) auto

text \<open>A result of the filter that agrees with the frames of the stream.\<close>

definition filtered :: "pack_queue option \<Rightarrow> int \<Rightarrow> u8 list \<Rightarrow> filter_result \<times> pack_queue option \<Rightarrow> bool" where
  "filtered q fd s r \<longleftrightarrow>
     (case r of
        (Nothing, q') \<Rightarrow> fst (frames s) = [] \<and> feeds q fd [] (snd (frames s)) q'
      | (Data fd' b, q') \<Rightarrow> fd' = fd \<and> frames s = ([b], []) \<and> feeds q fd [] [] q'
      | (More, q') \<Rightarrow> feeds q fd (fst (frames s)) (snd (frames s)) q'
      | _ \<Rightarrow> False)"

lemma filtered_first:
  assumes "wf_queue q" "part q fd = []" "buffer \<noteq> []" "length (items q) + length buffer \<le> pq_limit"
    "find_uncomplete q fd = (None, q)"
  shows "\<exists>r. filter_data q fd buffer = Some r \<and> filtered q fd buffer r"
proof (cases "length buffer = 1")
  case True
  then obtain b where b: "buffer = [b]" by (cases buffer) auto
  with save_feeds [OF assms(1) header_only_ok(1) assms(2)] assms(5) show ?thesis
    by (simp add: filter_data_def filtered_def header_only_ok)
next
  case False
  with assms(3) obtain a b rest where buf: "buffer = a # b # rest" by (cases buffer; cases "tl buffer") auto
  let ?n = "unat a * 256 + unat b"
  have size: "read_size buffer = Some ?n" by (simp add: read_size_def buf)
  consider (part) "length rest < ?n" | (one) "length rest = ?n" | (more) "?n < length rest" by linarith
  then show ?thesis
  proof cases
    case part
    from part_read_spec [OF part refl] obtain uc where uc: "part_read ?n rest = Some uc" "uc_ok uc"
      "uc_bytes uc = buffer" by (auto simp: buf)
    with save_feeds [OF assms(1) uc(2) assms(2)] part frames_part [OF part] False size assms(5) show ?thesis
      by (simp add: filter_data_def filtered_def buf)
  next
    case one
    have "feeds q fd [] [] q" using assms(1,2) by (auto simp: feeds_def)
    with one False size assms(5) frames_cons [OF refl, of a b rest] show ?thesis
      by (simp add: filter_data_def filtered_def buf)
  next
    case more
    from push_feeds [OF assms(1) _ assms(2), of "take ?n rest"] assms(4) buf obtain q1 where
      q1: "push_data q fd (take ?n rest) = Some q1" "feeds q fd [take ?n rest] [] (Some q1)" by auto
    have "length (items (Some q1)) + length (drop ?n rest) \<le> pq_limit"
      using feeds_items [OF q1(2)] assms(4) buf by simp
    with push_more_spec [OF feeds_wf [OF q1(2)] feeds_part [OF q1(2)], of "drop ?n rest"] more obtain q' where
      q': "push_more (Some q1) fd (drop ?n rest) = Some q'"
        "feeds (Some q1) fd (fst (frames (drop ?n rest))) (snd (frames (drop ?n rest))) (Some q')" by auto
    with more False size assms(5) q1(1) feeds_trans [OF q1(2) q'(2)] frames_cons [OF refl, of a b rest] show ?thesis
      by (simp add: filter_data_def filtered_def buf read_bytes_def)
  qed
qed

lemma header_or: "0 \<le> b \<Longrightarrow> b < 256 \<Longrightarrow> b OR push_bit 8 h = h * 256 + b" for b h :: int
proof -
  assume "0 \<le> b" "b < 256"
  then have "take_bit 8 b = b" by (simp add: take_bit_eq_mod)
  moreover have "take_bit 8 b OR push_bit 8 h = take_bit 8 b + push_bit 8 h"
    using concat_bit_eq [of 8 b h] by (simp only: concat_bit_def)
  ultimately show ?thesis by (simp add: push_bit_eq_mult)
qed

lemma header_size:
  fixes b :: u8
  assumes "0 \<le> h" "h < 256"
  shows "nat (uint b OR push_bit 8 h) = unat (word_of_int h :: u8) * 256 + unat b"
proof -
  have b: "0 \<le> uint b" "uint b < 256" using uint_bounded [of b] by simp_all
  have "int (unat (word_of_int h :: u8)) = h" using assms by (simp add: uint_word_of_int)
  then have "int (unat (word_of_int h :: u8) * 256 + unat b) = h * 256 + uint b" by simp
  then show ?thesis unfolding header_or [OF b] by (metis nat_int)
qed

lemma write_size_read:
  assumes "n < 65536"
  obtains a b where "write_size n = [a, b]" "n = unat a * 256 + unat b"
proof
  show "write_size n = [word_of_nat (n div 256), word_of_nat n]" by (simp add: write_size_def)
  have "n div 256 < 256" using assms by (simp add: less_mult_imp_div_less)
  then show "n = unat (word_of_nat (n div 256) :: u8) * 256 + unat (word_of_nat n :: u8)"
    by (simp add: unat_of_nat)
qed

text \<open>A package whose two size bytes are known: what is still missing of it arrives.\<close>

lemma resume_spec:
  assumes wf: "wf_queue (Some q)" and none: "part (Some q) fd = []"
    and uc: "uc_id uc = fd" "0 \<le> uc_read uc" "uc_read uc \<le> int (uc_size uc)" "uc_size uc < 65536"
      "length (uc_buffer uc) = uc_size uc" "None \<notin> set (take (nat (uc_read uc)) (uc_buffer uc))"
    and buf: "length (items (Some q)) + length buffer + 1 \<le> pq_limit"
    and s: "s = write_size (uc_size uc) @ map the (take (nat (uc_read uc)) (uc_buffer uc)) @ buffer"
  shows "\<exists>r q'. fill_rest q fd uc buffer = Some (r, q') \<and> filtered (Some q) fd s (r, Some q')"
proof -
  let ?k = "nat (uc_read uc)" and ?n = "uc_size uc"
  let ?have = "map the (take ?k (uc_buffer uc))"
  have k: "?k \<le> ?n" "length ?have = ?k" using uc by auto
  have prefix: "take ?k (uc_buffer uc) = map Some ?have" by (rule no_None_map [OF uc(6), symmetric])
  from write_size_read [OF uc(4)] obtain a b where ab: "write_size ?n = [a, b]" "?n = unat a * 256 + unat b" .
  have s': "s = a # b # ?have @ buffer" using s ab(1) by simp
  show ?thesis
  proof (cases "length buffer < ?n - ?k")
    case True
    let ?b = "take ?k (uc_buffer uc) @ map Some buffer @ drop (?k + length buffer) (uc_buffer uc)"
    let ?uc = "uc\<lparr>uc_buffer := ?b, uc_read := uc_read uc + int (length buffer)\<rparr>"
    have lt: "int (length buffer) < int ?n - uc_read uc" "uc_read uc + int (length buffer) < int ?n"
      using True uc(2) k(1) by linarith+
    have copy: "memcpy_at (uc_buffer uc) ?k buffer = Some ?b" using True uc(5) k by (simp add: memcpy_at_def)
    have nat_read: "nat (uc_read uc + int (length buffer)) = ?k + length buffer" using uc(2) by linarith
    have tk: "take (?k + length buffer) ?b = take ?k (uc_buffer uc) @ map Some buffer"
      using k uc(5) by simp
    have ok: "uc_ok ?uc" using uc lt(2) True k nat_read tk by (auto simp: uc_ok_def)
    have bytes: "uc_bytes ?uc = s"
      using uc(2) ab(1) s' nat_read tk by (simp add: uc_bytes_def o_def)
    have "frames s = ([], s)" using frames_part [of "?have @ buffer" a b] True k ab(2) s' by simp
    with link_feeds [OF wf ok _ none] uc(1) bytes lt(1) copy show ?thesis
      by (simp add: fill_rest_def filtered_def Let_def)
  next
    case False
    let ?d = "take (?n - ?k) buffer" and ?rest = "drop (?n - ?k) buffer"
    let ?pack = "?have @ ?d"
    have need: "\<not> int (length buffer) < int ?n - uc_read uc" "nat (int ?n - uc_read uc) = ?n - ?k"
      "0 \<le> int ?n - uc_read uc" using False uc(2,3) by linarith+
    have "memcpy_at (uc_buffer uc) ?k ?d = Some (map Some ?pack)"
      using False k uc(5) prefix by (simp add: memcpy_at_def)
    note mem = this initialised_map_Some [of ?pack]
    have fr: "frames s = (?pack # fst (frames ?rest), snd (frames ?rest))"
      using frames_cons [OF refl, of a b "?have @ buffer"] ab(2) s' k False by simp
    show ?thesis
    proof (cases "?rest = []")
      case True
      have "feeds (Some q) fd [] [] (Some q)" using wf none by (auto simp: feeds_def)
      with True need mem fr False show ?thesis by (simp add: fill_rest_def filtered_def Let_def read_bytes_def)
    next
      case ne: False
      from push_feeds [OF wf _ none, of ?pack] buf obtain q1 where
        q1: "push_data (Some q) fd ?pack = Some q1" "feeds (Some q) fd [?pack] [] (Some q1)" by auto
      have "length (items (Some q1)) + length ?rest \<le> pq_limit" using feeds_items [OF q1(2)] buf by simp
      with push_more_spec [OF feeds_wf [OF q1(2)] feeds_part [OF q1(2)] ne] obtain q' where
        q': "push_more (Some q1) fd ?rest = Some q'"
          "feeds (Some q1) fd (fst (frames ?rest)) (snd (frames ?rest)) (Some q')" by auto
      with ne need mem fr False q1(1) feeds_trans [OF q1(2) q'(2)] show ?thesis
        by (simp add: fill_rest_def filtered_def Let_def read_bytes_def)
    qed
  qed
qed

lemma fill_spec:
  assumes wf: "wf_queue (Some q)" and none: "part (Some q) fd = []" and uc: "uc_ok uc" "uc_id uc = fd"
    and buf: "buffer \<noteq> []" "length (items (Some q)) + length buffer + 1 \<le> pq_limit"
  shows "\<exists>r q'. fill_uncomplete q fd uc buffer = Some (r, q') \<and>
    filtered (Some q) fd (uc_bytes uc @ buffer) (r, Some q')"
proof (cases "uc_read uc < 0")
  case True
  with uc(1) have h: "uc_read uc = - 1" "0 \<le> uc_header uc" "uc_header uc < 256" by (auto simp: uc_ok_def)
  from buf(1) obtain b rest where b: "buffer = b # rest" by (cases buffer) auto
  let ?n = "nat (uint b OR push_bit 8 (uc_header uc))"
  let ?uc = "uc\<lparr>uc_size := ?n, uc_buffer := replicate ?n None, uc_read := 0\<rparr>"
  have "write_size ?n = [word_of_int (uc_header uc), b]"
    unfolding header_size [OF h(2,3)] by (rule write_size_bytes)
  then have bytes: "uc_bytes uc @ buffer = write_size ?n @ rest" using True b by (simp add: uc_bytes_def)
  have n: "?n < 65536" unfolding header_size [OF h(2,3)] by (rule size_bound)
  have "\<exists>r q'. fill_uncomplete q fd uc buffer = Some (r, q') \<and> filtered (Some q) fd (write_size ?n @ rest) (r, Some q')"
    using resume_spec [OF wf none, of ?uc rest "write_size ?n @ rest"] uc(2) n h b buf(2)
    unfolding fill_uncomplete_def by (simp add: c_simps Let_def)
  with bytes show ?thesis by simp
next
  case False
  with uc(1) have r: "0 \<le> uc_read uc" "uc_read uc < int (uc_size uc)" "uc_size uc < 65536"
    "length (uc_buffer uc) = uc_size uc" "None \<notin> set (take (nat (uc_read uc)) (uc_buffer uc))"
    by (auto simp: uc_ok_def)
  with resume_spec [OF wf none uc(2), of buffer "uc_bytes uc @ buffer"] buf(2) False show ?thesis
    unfolding fill_uncomplete_def by (simp add: uc_bytes_def)
qed

lemma filtered_trans:
  assumes "feeds q fd [] [] q1" "filtered q1 fd s r"
  shows "filtered q fd s r"
proof -
  have tr: "feeds q1 fd fs x y \<Longrightarrow> feeds q fd fs x y" for fs x y
    using feeds_trans [OF assms(1), of fs x y] by simp
  from assms(2) show ?thesis
    by (auto simp: filtered_def intro: tr split: filter_result.splits prod.splits)
qed

lemma filter_data_spec:
  assumes wf: "wf_queue q" and buf: "buffer \<noteq> []" "length (items q) + length buffer + 1 \<le> pq_limit"
  shows "\<exists>r. filter_data q fd buffer = Some r \<and> filtered q fd (part q fd @ buffer) r"
  using find_uncomplete_spec [OF wf, of fd]
proof
  assume "find_uncomplete q fd = (None, q) \<and> part q fd = []"
  with filtered_first [OF wf, of fd buffer] buf show ?thesis by simp
next
  assume "\<exists>uc q'. find_uncomplete q fd = (Some uc, Some q') \<and> uc_ok uc \<and> uc_id uc = fd \<and>
      part q fd = uc_bytes uc \<and> feeds q fd [] [] (Some q')"
  then obtain uc q1 where q1: "find_uncomplete q fd = (Some uc, Some q1)" "uc_ok uc" "uc_id uc = fd"
    "part q fd = uc_bytes uc" "feeds q fd [] [] (Some q1)" by blast
  have "length (items (Some q1)) + length buffer + 1 \<le> pq_limit" using feeds_items [OF q1(5)] buf(2) by simp
  from fill_spec [OF feeds_wf [OF q1(5)] feeds_part [OF q1(5)] q1(2,3) buf(1) this] obtain r q' where
    "fill_uncomplete q1 fd uc buffer = Some (r, q')" "filtered (Some q1) fd (uc_bytes uc @ buffer) (r, Some q')"
    by blast
  with q1 filtered_trans show ?thesis by (auto simp: filter_data_def)
qed

subsection \<open>The ring of complete packages\<close>

definition pack_push :: "pack_queue option \<Rightarrow> int \<times> u8 list \<Rightarrow> pack_queue option option" where
  "pack_push q x = map_option Some (push_data q (fst x) (snd x))"

definition pack_pop :: "pack_queue option \<Rightarrow> ((int \<times> u8 list) option \<times> pack_queue option) option" where
  "pack_pop q = map_option (map_prod (map_option (\<lambda>np. (np_id np, np_buffer np))) (\<lambda>q. q)) (lpop q)"

lemma lpop_spec:
  assumes wf: "wf_queue q"
  shows "case items q of
      [] \<Rightarrow> pack_pop q = Some (None, q)
    | x # xs \<Rightarrow> \<exists>q'. pack_pop q = Some (Some x, q') \<and> wf_queue q' \<and> items q' = xs \<and> part q' = part q"
proof (cases q)
  case None
  then show ?thesis by (simp add: items_new_queue pack_pop_def lpop_def)
next
  case (Some pq)
  let ?cap = "pq_cap pq" and ?h = "pq_head pq" and ?t = "pq_tail pq" and ?a = "pq_queue pq"
  from wf Some have r: "ring_ok ?cap ?h ?t ?a" and len: "length ?a = ?cap"
    and none: "None \<notin> set (ring_contents ?cap ?h ?t ?a)" by (simp_all add: wf_queue_def pq_wf_def)
  have lt: "?h < ?cap" "?t < ?cap" using r by (auto simp: ring_ok_def)
  show ?thesis
  proof (cases "?h = ?t")
    case True
    then show ?thesis using Some by (simp add: items_def pq_items_def pack_pop_def lpop_def)
  next
    case False
    note pop = ring_contents_pop [OF r False]
    from none pop obtain np where np: "?a ! ?h = Some np" by (cases "?a ! ?h") auto
    let ?q = "pq\<lparr>pq_head := ring_next ?cap ?h\<rparr>"
    have next_head: "(if ?h + 1 \<ge> ?cap then 0 else ?h + 1) = ring_next ?cap ?h" by (simp add: ring_next_def)
    have "pack_pop q = Some (Some (np_id np, np_buffer np), Some ?q)"
      using Some False lt len np next_head by (simp add: pack_pop_def lpop_def c_simps Let_def)
    moreover have "items q = (np_id np, np_buffer np) # items (Some ?q)"
      using Some pop np by (simp add: items_def pq_items_def)
    moreover have "wf_queue (Some ?q)"
      using wf Some pop lt none by (auto simp: wf_queue_def pq_wf_def ring_ok_def)
    moreover have "part (Some ?q) = part q" using Some by (simp add: part_def part_other_hash [of ?q pq])
    ultimately show ?thesis by simp
  qed
qed

interpretation np: fifo wf_queue "\<lambda>_. pq_limit" items pack_push pack_pop
proof
  fix q x assume "wf_queue q" "length (items q) < pq_limit"
  from push_data_spec [OF this, of "fst x" "snd x"] show "\<exists>q'. pack_push q x = Some q' \<and> wf_queue q' \<and>
      items q' = items q @ [x] \<and> pq_limit = pq_limit"
    by (auto simp: pack_push_def wf_queue_def items_def)
qed (use lpop_spec in \<open>fastforce split: list.splits\<close>)+

lemma pop_all_part:
  assumes "pop_all pack_pop n q = Some (xs, q')" "wf_queue q"
  shows "part q' = part q"
  using assms
proof (induction n arbitrary: q xs)
  case (Suc n)
  show ?case
  proof (cases "items q")
    case Nil
    with lpop_spec [OF Suc.prems(2)] Suc.prems(1) show ?thesis by simp
  next
    case (Cons x ys)
    with lpop_spec [OF Suc.prems(2)] obtain q1 where q1: "pack_pop q = Some (Some x, q1)" "wf_queue q1"
      "part q1 = part q" by auto
    with Suc.prems(1) obtain zs where "pop_all pack_pop n q1 = Some (zs, q')" by (auto simp: bind_eq_Some_conv)
    from Suc.IH [OF this q1(2)] q1(3) show ?thesis by simp
  qed
qed simp

subsection \<open>Receiving\<close>

text \<open>The receiver, as \<open>lualib/snax/gateserver.lua\<close> drives the module: a package that the filter returns is
  delivered, and after \<open>more\<close> the queue is popped until it is empty.\<close>

definition receive :: "pack_queue option \<Rightarrow> int \<Rightarrow> u8 list \<Rightarrow> ((int \<times> u8 list) list \<times> pack_queue option) option" where
  "receive q fd chunk = do {
     (r, q) \<leftarrow> filter_data q fd chunk;
     (case r of
        Data fd b \<Rightarrow> Some ([(fd, b)], q)
      | More \<Rightarrow> pop_all pack_pop (Suc (length (items q))) q
      | _ \<Rightarrow> Some ([], q)) }"

fun receive_all :: "pack_queue option \<Rightarrow> (int \<times> u8 list) list \<Rightarrow> ((int \<times> u8 list) list \<times> pack_queue option) option" where
  "receive_all q [] = Some ([], q)"
| "receive_all q ((fd, chunk) # evs) = do {
     (out, q) \<leftarrow> receive q fd chunk;
     (outs, q) \<leftarrow> receive_all q evs;
     Some (out @ outs, q) }"

definition stream :: "int \<Rightarrow> (int \<times> u8 list) list \<Rightarrow> u8 list" where
  "stream fd evs = concat (map snd (filter (\<lambda>e. fst e = fd) evs))"

definition delivered :: "int \<Rightarrow> (int \<times> u8 list) list \<Rightarrow> u8 list list" where
  "delivered fd out = map snd (filter (\<lambda>e. fst e = fd) out)"

lemma receive_spec:
  assumes wf: "wf_queue q" and empty: "items q = []" and c: "chunk \<noteq> []" "length chunk < pq_limit"
  shows "\<exists>q'. receive q fd chunk = Some (map (Pair fd) (fst (frames (part q fd @ chunk))), q') \<and>
    wf_queue q' \<and> items q' = [] \<and> part q' = (part q)(fd := snd (frames (part q fd @ chunk)))"
proof -
  let ?s = "part q fd @ chunk"
  from filter_data_spec [OF wf c(1), of fd] c(2) empty obtain r q1 where
    r: "filter_data q fd chunk = Some (r, q1)" "filtered q fd ?s (r, q1)" by auto
  show ?thesis
  proof (cases r)
    case Nothing
    with r empty show ?thesis by (auto simp: receive_def filtered_def feeds_def)
  next
    case (Data fd' b)
    with r empty show ?thesis by (auto simp: receive_def filtered_def feeds_def)
  next
    case More
    with r(2) empty have f: "wf_queue q1" "items q1 = map (Pair fd) (fst (frames ?s))"
      "part q1 = (part q)(fd := snd (frames ?s))" by (auto simp: filtered_def feeds_def)
    from np.pop_all_contents [OF f(1), of "Suc (length (items q1))"] obtain q2 where
      q2: "pop_all pack_pop (Suc (length (items q1))) q1 = Some (items q1, q2)" "wf_queue q2" "items q2 = []" by auto
    have "receive q fd chunk = Some (items q1, q2)"
      using r(1) More q2(1) by (simp add: receive_def del: pop_all.simps)
    with pop_all_part [OF q2(1) f(1)] f q2(2,3) show ?thesis by auto
  qed (use r(2) in \<open>auto simp: filtered_def\<close>)
qed

lemma receive_all_spec:
  assumes "wf_queue q" "items q = []" "\<forall>(fd, chunk) \<in> set evs. chunk \<noteq> [] \<and> length chunk < pq_limit"
    "\<And>fd. fst (frames (part q fd)) = []"
  shows "\<exists>out q'. receive_all q evs = Some (out, q') \<and> wf_queue q' \<and> items q' = [] \<and>
    (\<forall>fd. delivered fd out = fst (frames (part q fd @ stream fd evs)) \<and>
      part q' fd = snd (frames (part q fd @ stream fd evs)))"
  using assms
proof (induction evs arbitrary: q)
  case Nil
  have "snd (frames (part q fd)) = part q fd" for fd
    using frames_idle [OF Nil.prems(4) [of fd]] by simp
  with Nil show ?case by (simp add: delivered_def stream_def)
next
  case (Cons ev evs)
  obtain fd chunk where ev: "ev = (fd, chunk)" by (cases ev) auto
  let ?s = "part q fd @ chunk"
  from receive_spec [OF Cons.prems(1,2), of chunk fd] Cons.prems(3) ev obtain q1 where
    q1: "receive q fd chunk = Some (map (Pair fd) (fst (frames ?s)), q1)" "wf_queue q1" "items q1 = []"
      "part q1 = (part q)(fd := snd (frames ?s))" by auto
  have idle: "fst (frames (snd (frames s))) = []" for s
    using frames_append [of s "[]"] by (metis append.right_neutral append_self_conv fst_conv)
  have "fst (frames (part q1 x)) = []" for x using Cons.prems(4) q1(4) idle by simp
  with Cons.IH [OF q1(2,3)] Cons.prems(3) obtain out q' where
    r: "receive_all q1 evs = Some (out, q')" "wf_queue q'" "items q' = []"
      "\<forall>fd. delivered fd out = fst (frames (part q1 fd @ stream fd evs)) \<and>
        part q' fd = snd (frames (part q1 fd @ stream fd evs))" by (auto simp del: split_paired_Ex)
  have "receive_all q (ev # evs) = Some (map (Pair fd) (fst (frames ?s)) @ out, q')"
    using q1(1) r(1) ev by simp
  moreover have "delivered x (map (Pair fd) (fst (frames ?s)) @ out) =
        fst (frames (part q x @ stream x (ev # evs))) \<and>
      part q' x = snd (frames (part q x @ stream x (ev # evs)))" for x
  proof (cases "x = fd")
    case True
    have "delivered fd (map (Pair fd) (fst (frames ?s)) @ out) = fst (frames ?s) @ delivered fd out"
      by (simp add: delivered_def filter_map o_def)
    with True r(4) [rule_format, of fd] q1(4) frames_append [of ?s "stream fd evs"] show ?thesis
      by (simp add: ev stream_def)
  next
    case False
    have "delivered x (map (Pair fd) (fst (frames ?s)) @ out) = delivered x out"
      using False by (simp add: delivered_def filter_map o_def)
    with False r(4) [rule_format, of x] q1(4) show ?thesis by (simp add: ev stream_def)
  qed
  ultimately show ?case using r(2,3) by blast
qed

text \<open>The frames of packed messages are the messages.\<close>

definition packed :: "u8 list \<Rightarrow> u8 list" where
  "packed d = (case lpack d of Inr b \<Rightarrow> b | Inl _ \<Rightarrow> [])"

lemma frames_packed:
  assumes "\<forall>d \<in> set ds. length d < 65536"
  shows "frames (concat (map packed ds) @ s) = (ds @ fst (frames s), snd (frames s))"
  using assms
proof (induction ds)
  case (Cons d ds)
  from Cons.prems have d: "length d < 65536" by simp
  from write_size_read [OF d] obtain a b where ab: "write_size (length d) = [a, b]"
    "length d = unat a * 256 + unat b" by blast
  have "packed d = a # b # d" using d ab by (simp add: packed_def lpack_def)
  with frames_cons [OF ab(2), of "d @ concat (map packed ds) @ s"] Cons show ?case by simp
qed simp

subsection \<open>Properties\<close>

text \<open>C6: However the packed messages of several connections are cut into socket messages and
  interleaved, every connection's messages are delivered complete, once and in order, and no
  unwritten byte is delivered; nothing is left over when the streams end with a package.\<close>

theorem netpack_roundtrip:
  assumes "\<forall>(fd, chunk) \<in> set evs. chunk \<noteq> [] \<and> length chunk < pq_limit"
    "\<forall>fd. \<forall>d \<in> set (msgs fd). length d < 65536"
    "\<forall>fd. stream fd evs = concat (map packed (msgs fd))"
  shows "\<exists>out q. receive_all None evs = Some (out, q) \<and> items q = [] \<and>
    (\<forall>fd. delivered fd out = msgs fd \<and> part q fd = [])"
proof -
  from receive_all_spec [OF wf_new_queue items_new_queue assms(1)] obtain out q where
    "receive_all None evs = Some (out, q)" "items q = []"
    "\<forall>fd. delivered fd out = fst (frames (stream fd evs)) \<and> part q fd = snd (frames (stream fd evs))"
    by (auto simp: part_new_queue)
  moreover have "frames (stream fd evs) = (msgs fd, [])" for fd
    using frames_packed [of "msgs fd" "[]"] assms(2,3) by simp
  ultimately show ?thesis by auto
qed

text \<open>C17: The bytes a connection has sent so far determine what has been delivered and what is kept:
  the delivered packages are the frames of the stream and the partial package is the rest, for
  streams that need not be well-formed.\<close>

theorem netpack_refines_frames:
  assumes "\<forall>(fd, chunk) \<in> set evs. chunk \<noteq> [] \<and> length chunk < pq_limit"
  shows "\<exists>out q. receive_all None evs = Some (out, q) \<and> wf_queue q \<and>
    (\<forall>fd. delivered fd out = fst (frames (stream fd evs)) \<and> part q fd = snd (frames (stream fd evs)))"
  using receive_all_spec [OF wf_new_queue items_new_queue assms] by (auto simp: part_new_queue)

text \<open>C31: Closing a connection, or an error on it, drops its partial package and changes nothing of the
  queued packages or the other connections; a longer message than 65535 bytes is refused.\<close>

theorem netpack_close_and_errors:
  assumes "wf_queue q" "type \<in> {SCLOSE, SERROR}"
  shows "(\<exists>r q'. lfilter q type fd ud None txt = Some (r, q') \<and> feeds q fd [] [] q' \<and>
      r = (if type = SCLOSE then Closed fd else Failed fd txt)) \<and>
    (0x10000 \<le> length d \<longrightarrow> lpack d = Inl (TooLong (length d)))"
proof -
  have "feeds q fd [] [] (close_uncomplete q fd)"
    using find_uncomplete_spec [OF assms(1), of fd] assms(1)
    by (auto simp: close_uncomplete_def feeds_def)
  with assms(2) show ?thesis by (auto simp: lfilter_def lpack_def)
qed

text \<open>C32: The ring of complete packages is a first in first out queue: any sequence of pushes and pops,
  interleaved in any way, wherever the ring stands in its array and however often the array grows on
  the way, gives the packages that the same operations on a list give, and an empty queue gives
  none.\<close>

theorem pack_queue_fifo:
  assumes "wf_queue q" "queue_fits pq_limit ops (items q)"
  shows "\<exists>q'. run_queue pack_push pack_pop ops q = Some (fst (queue_spec ops (items q)), q') \<and>
    wf_queue q' \<and> items q' = snd (queue_spec ops (items q))"
  using np.run_queue_refines [OF assms] by blast

subsection \<open>Witnesses\<close>

lemma pq_limit_large: "1000 < pq_limit"
  by (simp add: pq_limit_def INT_MAX_def QUEUESIZE_def)

theorem netpack_roundtrip_witness:
  "\<exists>out q. receive_all None [(7, [0]), (8, [0, 0]), (7, [2, 5, 6, 0, 1]), (7, [9])] = Some (out, q) \<and>
     delivered 7 out = [[5, 6], [9]] \<and> delivered 8 out = [[]]"
proof -
  let ?evs = "[(7, [0]), (8, [0, 0]), (7, [2, 5, 6, 0, 1]), (7, [9])] :: (int \<times> u8 list) list"
  let ?msgs = "\<lambda>fd :: int. if fd = 7 then [[5, 6], [9]] else if fd = 8 then [[]] else [] :: u8 list list"
  have "\<forall>(fd, chunk) \<in> set ?evs. chunk \<noteq> [] \<and> length chunk < pq_limit" using pq_limit_large by simp
  moreover have "\<forall>fd. \<forall>d \<in> set (?msgs fd). length d < 65536" by simp
  moreover have "\<forall>fd. stream fd ?evs = concat (map packed (?msgs fd))"
    by (simp add: stream_def packed_def lpack_def write_size_def)
  ultimately show ?thesis using netpack_roundtrip [of ?evs ?msgs] by auto
qed

theorem netpack_refines_frames_witness:
  "\<exists>out q. receive_all None [(3, [0, 9, 1])] = Some (out, q) \<and> delivered 3 out = [] \<and> part q 3 = [0, 9, 1]"
proof -
  have "\<forall>(fd, chunk) \<in> set [(3 :: int, [0, 9, 1 :: u8])]. chunk \<noteq> [] \<and> length chunk < pq_limit"
    using pq_limit_large by simp
  from netpack_refines_frames [OF this] obtain out q where
    r: "receive_all None [(3, [0, 9, 1])] = Some (out, q)" "delivered 3 out = fst (frames [0, 9, 1])"
      "part q 3 = snd (frames [0, 9, 1])" by (auto simp: stream_def)
  moreover have "frames [0, 9, 1] = ([], [0, 9, 1])" by (rule frames_part) simp
  ultimately show ?thesis by auto
qed

theorem netpack_close_and_errors_witness:
  "\<exists>r q'. lfilter None SCLOSE 5 0 None [] = Some (r, q') \<and> r = Closed 5"
  using netpack_close_and_errors [OF wf_new_queue, of SCLOSE 5 0 "[]" "[]"] by auto

theorem pack_queue_fifo_witness:
  "\<exists>q. run_queue pack_push pack_pop [Qpush (1, [7]), Qpush (2, [8]), Qpop, Qpush (3, [9]), Qpop, Qpop, Qpop] None =
     Some ([Some (1, [7]), Some (2, [8]), Some (3, [9]), None], q)"
  using pack_queue_fifo [OF wf_new_queue, of "[Qpush (1, [7]), Qpush (2, [8]), Qpop, Qpush (3, [9]), Qpop, Qpop, Qpop]"]
    pq_limit_large by (auto simp: items_new_queue)

end
