(* ===== verification/Des.thy ===== *)
theory Des
  imports Prelude
begin

text \<open>
  The DES cipher of \<open>lualib-src/lua-crypt.c\<close>: the tables, the key schedule
  \<open>des_main_ks\<close>, the block transformation \<open>des_crypt\<close> and the padding of
  \<open>ldesencode\<close> and \<open>ldesdecode\<close>.  A C array of bytes is a list of 8 bit words and
  \<open>uint32_t\<close> is \<^typ>\<open>u32\<close>.  The output buffer, which is a local array of
  \<open>SMALL_CHUNK\<close> bytes or a block of memory of the computed size, is a list that is filled
  from its start; filling it past its size is undefined behaviour, and so is returning
  bytes that were never written.

  The main result is that decoding inverts encoding for every key and text.  It rests on
  two facts of the block transformation: the bit permutation before the rounds and the
  one after them are inverse to each other, and a round is undone by the same round.
\<close>

text \<open>The eight DES S-boxes and the two halves of the first permuted choice.\<close>

definition SB1 :: "u32 list" where
  "SB1 = [0x01010400, 0x00000000, 0x00010000, 0x01010404, 0x01010004, 0x00010404,
    0x00000004, 0x00010000, 0x00000400, 0x01010400, 0x01010404, 0x00000400,
    0x01000404, 0x01010004, 0x01000000, 0x00000004, 0x00000404, 0x01000400,
    0x01000400, 0x00010400, 0x00010400, 0x01010000, 0x01010000, 0x01000404,
    0x00010004, 0x01000004, 0x01000004, 0x00010004, 0x00000000, 0x00000404,
    0x00010404, 0x01000000, 0x00010000, 0x01010404, 0x00000004, 0x01010000,
    0x01010400, 0x01000000, 0x01000000, 0x00000400, 0x01010004, 0x00010000,
    0x00010400, 0x01000004, 0x00000400, 0x00000004, 0x01000404, 0x00010404,
    0x01010404, 0x00010004, 0x01010000, 0x01000404, 0x01000004, 0x00000404,
    0x00010404, 0x01010400, 0x00000404, 0x01000400, 0x01000400, 0x00000000,
    0x00010004, 0x00010400, 0x00000000, 0x01010004]"

definition SB2 :: "u32 list" where
  "SB2 = [0x80108020, 0x80008000, 0x00008000, 0x00108020, 0x00100000, 0x00000020,
    0x80100020, 0x80008020, 0x80000020, 0x80108020, 0x80108000, 0x80000000,
    0x80008000, 0x00100000, 0x00000020, 0x80100020, 0x00108000, 0x00100020,
    0x80008020, 0x00000000, 0x80000000, 0x00008000, 0x00108020, 0x80100000,
    0x00100020, 0x80000020, 0x00000000, 0x00108000, 0x00008020, 0x80108000,
    0x80100000, 0x00008020, 0x00000000, 0x00108020, 0x80100020, 0x00100000,
    0x80008020, 0x80100000, 0x80108000, 0x00008000, 0x80100000, 0x80008000,
    0x00000020, 0x80108020, 0x00108020, 0x00000020, 0x00008000, 0x80000000,
    0x00008020, 0x80108000, 0x00100000, 0x80000020, 0x00100020, 0x80008020,
    0x80000020, 0x00100020, 0x00108000, 0x00000000, 0x80008000, 0x00008020,
    0x80000000, 0x80100020, 0x80108020, 0x00108000]"

definition SB3 :: "u32 list" where
  "SB3 = [0x00000208, 0x08020200, 0x00000000, 0x08020008, 0x08000200, 0x00000000,
    0x00020208, 0x08000200, 0x00020008, 0x08000008, 0x08000008, 0x00020000,
    0x08020208, 0x00020008, 0x08020000, 0x00000208, 0x08000000, 0x00000008,
    0x08020200, 0x00000200, 0x00020200, 0x08020000, 0x08020008, 0x00020208,
    0x08000208, 0x00020200, 0x00020000, 0x08000208, 0x00000008, 0x08020208,
    0x00000200, 0x08000000, 0x08020200, 0x08000000, 0x00020008, 0x00000208,
    0x00020000, 0x08020200, 0x08000200, 0x00000000, 0x00000200, 0x00020008,
    0x08020208, 0x08000200, 0x08000008, 0x00000200, 0x00000000, 0x08020008,
    0x08000208, 0x00020000, 0x08000000, 0x08020208, 0x00000008, 0x00020208,
    0x00020200, 0x08000008, 0x08020000, 0x08000208, 0x00000208, 0x08020000,
    0x00020208, 0x00000008, 0x08020008, 0x00020200]"

definition SB4 :: "u32 list" where
  "SB4 = [0x00802001, 0x00002081, 0x00002081, 0x00000080, 0x00802080, 0x00800081,
    0x00800001, 0x00002001, 0x00000000, 0x00802000, 0x00802000, 0x00802081,
    0x00000081, 0x00000000, 0x00800080, 0x00800001, 0x00000001, 0x00002000,
    0x00800000, 0x00802001, 0x00000080, 0x00800000, 0x00002001, 0x00002080,
    0x00800081, 0x00000001, 0x00002080, 0x00800080, 0x00002000, 0x00802080,
    0x00802081, 0x00000081, 0x00800080, 0x00800001, 0x00802000, 0x00802081,
    0x00000081, 0x00000000, 0x00000000, 0x00802000, 0x00002080, 0x00800080,
    0x00800081, 0x00000001, 0x00802001, 0x00002081, 0x00002081, 0x00000080,
    0x00802081, 0x00000081, 0x00000001, 0x00002000, 0x00800001, 0x00002001,
    0x00802080, 0x00800081, 0x00002001, 0x00002080, 0x00800000, 0x00802001,
    0x00000080, 0x00800000, 0x00002000, 0x00802080]"

definition SB5 :: "u32 list" where
  "SB5 = [0x00000100, 0x02080100, 0x02080000, 0x42000100, 0x00080000, 0x00000100,
    0x40000000, 0x02080000, 0x40080100, 0x00080000, 0x02000100, 0x40080100,
    0x42000100, 0x42080000, 0x00080100, 0x40000000, 0x02000000, 0x40080000,
    0x40080000, 0x00000000, 0x40000100, 0x42080100, 0x42080100, 0x02000100,
    0x42080000, 0x40000100, 0x00000000, 0x42000000, 0x02080100, 0x02000000,
    0x42000000, 0x00080100, 0x00080000, 0x42000100, 0x00000100, 0x02000000,
    0x40000000, 0x02080000, 0x42000100, 0x40080100, 0x02000100, 0x40000000,
    0x42080000, 0x02080100, 0x40080100, 0x00000100, 0x02000000, 0x42080000,
    0x42080100, 0x00080100, 0x42000000, 0x42080100, 0x02080000, 0x00000000,
    0x40080000, 0x42000000, 0x00080100, 0x02000100, 0x40000100, 0x00080000,
    0x00000000, 0x40080000, 0x02080100, 0x40000100]"

definition SB6 :: "u32 list" where
  "SB6 = [0x20000010, 0x20400000, 0x00004000, 0x20404010, 0x20400000, 0x00000010,
    0x20404010, 0x00400000, 0x20004000, 0x00404010, 0x00400000, 0x20000010,
    0x00400010, 0x20004000, 0x20000000, 0x00004010, 0x00000000, 0x00400010,
    0x20004010, 0x00004000, 0x00404000, 0x20004010, 0x00000010, 0x20400010,
    0x20400010, 0x00000000, 0x00404010, 0x20404000, 0x00004010, 0x00404000,
    0x20404000, 0x20000000, 0x20004000, 0x00000010, 0x20400010, 0x00404000,
    0x20404010, 0x00400000, 0x00004010, 0x20000010, 0x00400000, 0x20004000,
    0x20000000, 0x00004010, 0x20000010, 0x20404010, 0x00404000, 0x20400000,
    0x00404010, 0x20404000, 0x00000000, 0x20400010, 0x00000010, 0x00004000,
    0x20400000, 0x00404010, 0x00004000, 0x00400010, 0x20004010, 0x00000000,
    0x20404000, 0x20000000, 0x00400010, 0x20004010]"

definition SB7 :: "u32 list" where
  "SB7 = [0x00200000, 0x04200002, 0x04000802, 0x00000000, 0x00000800, 0x04000802,
    0x00200802, 0x04200800, 0x04200802, 0x00200000, 0x00000000, 0x04000002,
    0x00000002, 0x04000000, 0x04200002, 0x00000802, 0x04000800, 0x00200802,
    0x00200002, 0x04000800, 0x04000002, 0x04200000, 0x04200800, 0x00200002,
    0x04200000, 0x00000800, 0x00000802, 0x04200802, 0x00200800, 0x00000002,
    0x04000000, 0x00200800, 0x04000000, 0x00200800, 0x00200000, 0x04000802,
    0x04000802, 0x04200002, 0x04200002, 0x00000002, 0x00200002, 0x04000000,
    0x04000800, 0x00200000, 0x04200800, 0x00000802, 0x00200802, 0x04200800,
    0x00000802, 0x04000002, 0x04200802, 0x04200000, 0x00200800, 0x00000000,
    0x00000002, 0x04200802, 0x00000000, 0x00200802, 0x04200000, 0x00000800,
    0x04000002, 0x04000800, 0x00000800, 0x00200002]"

definition SB8 :: "u32 list" where
  "SB8 = [0x10001040, 0x00001000, 0x00040000, 0x10041040, 0x10000000, 0x10001040,
    0x00000040, 0x10000000, 0x00040040, 0x10040000, 0x10041040, 0x00041000,
    0x10041000, 0x00041040, 0x00001000, 0x00000040, 0x10040000, 0x10000040,
    0x10001000, 0x00001040, 0x00041000, 0x00040040, 0x10040040, 0x10041000,
    0x00001040, 0x00000000, 0x00000000, 0x10040040, 0x10000040, 0x10001000,
    0x00041040, 0x00040000, 0x00041040, 0x00040000, 0x10041000, 0x00001000,
    0x00000040, 0x10040040, 0x00001000, 0x00041040, 0x10001000, 0x00000040,
    0x10000040, 0x10040000, 0x10040040, 0x10000000, 0x00040000, 0x10001040,
    0x00000000, 0x10041040, 0x00040040, 0x10000040, 0x10040000, 0x10001000,
    0x10001040, 0x00000000, 0x10041040, 0x00041000, 0x00041000, 0x00001040,
    0x00001040, 0x00040040, 0x10000000, 0x10041000]"

definition LHs :: "u32 list" where
  "LHs = [0x00000000, 0x00000001, 0x00000100, 0x00000101, 0x00010000, 0x00010001,
    0x00010100, 0x00010101, 0x01000000, 0x01000001, 0x01000100, 0x01000101,
    0x01010000, 0x01010001, 0x01010100, 0x01010101]"

definition RHs :: "u32 list" where
  "RHs = [0x00000000, 0x01000000, 0x00010000, 0x01010000, 0x00000100, 0x01000100,
    0x00010100, 0x01010100, 0x00000001, 0x01000001, 0x00010001, 0x01010001,
    0x00000101, 0x01000101, 0x00010101, 0x01010101]"

subsection \<open>The macros of the block transformation\<close>

definition GET_UINT32 :: "u8 list \<Rightarrow> nat \<Rightarrow> u32" where
  "GET_UINT32 b i = push_bit 24 (ucast (b ! i)) OR push_bit 16 (ucast (b ! (i + 1)))
     OR push_bit 8 (ucast (b ! (i + 2))) OR ucast (b ! (i + 3))"

definition PUT_UINT32 :: "u32 \<Rightarrow> u8 list" where
  "PUT_UINT32 n = [ucast (drop_bit 24 n), ucast (drop_bit 16 n), ucast (drop_bit 8 n), ucast n]"

text \<open>One line of the permutation macros,
  \<open>T = ((A >> n) ^ B) & m; B ^= T; A ^= (T << n)\<close>, which exchanges the bits of
  \<open>B\<close> under the mask with the bits of \<open>A\<close> that are \<open>n\<close> positions higher.\<close>

definition bit_swap :: "nat \<Rightarrow> u32 \<Rightarrow> u32 \<Rightarrow> u32 \<Rightarrow> u32 \<times> u32" where
  "bit_swap n m A B = (let T = (drop_bit n A XOR B) AND m in (A XOR push_bit n T, B XOR T))"

text \<open>The rotations \<open>((X << 1) | (X >> 31)) & 0xFFFFFFFF\<close> and
  \<open>((X << 31) | (X >> 1)) & 0xFFFFFFFF\<close>.\<close>

definition rot_left1 :: "u32 \<Rightarrow> u32" where
  "rot_left1 X = (push_bit 1 X OR drop_bit 31 X) AND 0xFFFFFFFF"

definition rot_right1 :: "u32 \<Rightarrow> u32" where
  "rot_right1 X = (push_bit 31 X OR drop_bit 1 X) AND 0xFFFFFFFF"

definition DES_IP :: "u32 \<Rightarrow> u32 \<Rightarrow> u32 \<times> u32" where
  "DES_IP X Y =
    (let (X, Y) = bit_swap 4 0x0F0F0F0F X Y;
         (X, Y) = bit_swap 16 0x0000FFFF X Y;
         (Y, X) = bit_swap 2 0x33333333 Y X;
         (Y, X) = bit_swap 8 0x00FF00FF Y X;
         Y = rot_left1 Y;
         (X, Y) = bit_swap 0 0xAAAAAAAA X Y;
         X = rot_left1 X
     in (X, Y))"

definition DES_FP :: "u32 \<Rightarrow> u32 \<Rightarrow> u32 \<times> u32" where
  "DES_FP X Y =
    (let X = rot_right1 X;
         (X, Y) = bit_swap 0 0xAAAAAAAA X Y;
         Y = rot_right1 Y;
         (Y, X) = bit_swap 8 0x00FF00FF Y X;
         (Y, X) = bit_swap 2 0x33333333 Y X;
         (X, Y) = bit_swap 16 0x0000FFFF X Y;
         (X, Y) = bit_swap 4 0x0F0F0F0F X Y
     in (X, Y))"

text \<open>A six bit index into a box.\<close>

definition sbox :: "u32 list \<Rightarrow> u32 \<Rightarrow> u32" where
  "sbox SB T = SB ! unat (T AND 0x3F)"

text \<open>\<open>DES_ROUND(X, Y)\<close> with the two words of \<open>SK\<close> it consumes; the result is the new \<open>Y\<close>.\<close>

definition DES_ROUND :: "u32 \<Rightarrow> u32 \<Rightarrow> u32 \<Rightarrow> u32 \<Rightarrow> u32" where
  "DES_ROUND k1 k2 X Y =
    (let T = k1 XOR X;
         Y = Y XOR (sbox SB8 T XOR sbox SB6 (drop_bit 8 T) XOR sbox SB4 (drop_bit 16 T)
               XOR sbox SB2 (drop_bit 24 T));
         T = k2 XOR (push_bit 28 X OR drop_bit 4 X);
         Y = Y XOR (sbox SB7 T XOR sbox SB5 (drop_bit 8 T) XOR sbox SB3 (drop_bit 16 T)
               XOR sbox SB1 (drop_bit 24 T))
     in Y)"

subsection \<open>Key schedule\<close>

definition lhs :: "u32 \<Rightarrow> u32" where
  "lhs X = LHs ! unat (X AND 0xF)"

definition rhs :: "u32 \<Rightarrow> u32" where
  "rhs X = RHs ! unat (X AND 0xF)"

text \<open>Permuted choice 1: the 28 bit halves of the key.\<close>

definition ks_pc1 :: "u32 \<Rightarrow> u32 \<Rightarrow> u32 \<times> u32" where
  "ks_pc1 X Y =
    (let (Y, X) = bit_swap 4 0x0F0F0F0F Y X;
         (Y, X) = bit_swap 0 0x10101010 Y X;
         X = push_bit 3 (lhs X) OR push_bit 2 (lhs (drop_bit 8 X))
           OR push_bit 1 (lhs (drop_bit 16 X)) OR lhs (drop_bit 24 X)
           OR push_bit 7 (lhs (drop_bit 5 X)) OR push_bit 6 (lhs (drop_bit 13 X))
           OR push_bit 5 (lhs (drop_bit 21 X)) OR push_bit 4 (lhs (drop_bit 29 X));
         Y = push_bit 3 (rhs (drop_bit 1 Y)) OR push_bit 2 (rhs (drop_bit 9 Y))
           OR push_bit 1 (rhs (drop_bit 17 Y)) OR rhs (drop_bit 25 Y)
           OR push_bit 7 (rhs (drop_bit 4 Y)) OR push_bit 6 (rhs (drop_bit 12 Y))
           OR push_bit 5 (rhs (drop_bit 20 Y)) OR push_bit 4 (rhs (drop_bit 28 Y))
     in (X AND 0x0FFFFFFF, Y AND 0x0FFFFFFF))"

text \<open>The rotation of a half in round \<open>i\<close>.\<close>

definition ks_rotate :: "nat \<Rightarrow> u32 \<Rightarrow> u32" where
  "ks_rotate i X =
    (if i < 2 \<or> i = 8 \<or> i = 15 then (push_bit 1 X OR drop_bit 27 X) AND 0x0FFFFFFF
     else (push_bit 2 X OR drop_bit 26 X) AND 0x0FFFFFFF)"

text \<open>Permuted choice 2: the two words of a round's subkey.\<close>

definition ks_pc2_first :: "u32 \<Rightarrow> u32 \<Rightarrow> u32" where
  "ks_pc2_first X Y =
       (push_bit 4 X AND 0x24000000) OR (push_bit 28 X AND 0x10000000)
    OR (push_bit 14 X AND 0x08000000) OR (push_bit 18 X AND 0x02080000)
    OR (push_bit 6 X AND 0x01000000) OR (push_bit 9 X AND 0x00200000)
    OR (drop_bit 1 X AND 0x00100000) OR (push_bit 10 X AND 0x00040000)
    OR (push_bit 2 X AND 0x00020000) OR (drop_bit 10 X AND 0x00010000)
    OR (drop_bit 13 Y AND 0x00002000) OR (drop_bit 4 Y AND 0x00001000)
    OR (push_bit 6 Y AND 0x00000800) OR (drop_bit 1 Y AND 0x00000400)
    OR (drop_bit 14 Y AND 0x00000200) OR (Y AND 0x00000100)
    OR (drop_bit 5 Y AND 0x00000020) OR (drop_bit 10 Y AND 0x00000010)
    OR (drop_bit 3 Y AND 0x00000008) OR (drop_bit 18 Y AND 0x00000004)
    OR (drop_bit 26 Y AND 0x00000002) OR (drop_bit 24 Y AND 0x00000001)"

definition ks_pc2_second :: "u32 \<Rightarrow> u32 \<Rightarrow> u32" where
  "ks_pc2_second X Y =
       (push_bit 15 X AND 0x20000000) OR (push_bit 17 X AND 0x10000000)
    OR (push_bit 10 X AND 0x08000000) OR (push_bit 22 X AND 0x04000000)
    OR (drop_bit 2 X AND 0x02000000) OR (push_bit 1 X AND 0x01000000)
    OR (push_bit 16 X AND 0x00200000) OR (push_bit 11 X AND 0x00100000)
    OR (push_bit 3 X AND 0x00080000) OR (drop_bit 6 X AND 0x00040000)
    OR (push_bit 15 X AND 0x00020000) OR (drop_bit 4 X AND 0x00010000)
    OR (drop_bit 2 Y AND 0x00002000) OR (push_bit 8 Y AND 0x00001000)
    OR (drop_bit 14 Y AND 0x00000808) OR (drop_bit 9 Y AND 0x00000400)
    OR (Y AND 0x00000200) OR (push_bit 7 Y AND 0x00000100)
    OR (drop_bit 7 Y AND 0x00000020) OR (drop_bit 3 Y AND 0x00000011)
    OR (push_bit 2 Y AND 0x00000004) OR (drop_bit 21 Y AND 0x00000002)"

text \<open>The loop over the rounds, from round \<open>i\<close> with \<open>n\<close> rounds to go; it appends two words to
  \<open>SK\<close> in each.\<close>

fun ks_loop :: "nat \<Rightarrow> nat \<Rightarrow> u32 \<Rightarrow> u32 \<Rightarrow> u32 list" where
  "ks_loop 0 i X Y = []"
| "ks_loop (Suc n) i X Y =
    (let X = ks_rotate i X; Y = ks_rotate i Y
     in ks_pc2_first X Y # ks_pc2_second X Y # ks_loop n (i + 1) X Y)"

definition des_main_ks :: "u8 list \<Rightarrow> u32 list" where
  "des_main_ks key =
    (let (X, Y) = ks_pc1 (GET_UINT32 key 0) (GET_UINT32 key 4) in ks_loop 16 0 X Y)"

subsection \<open>The block transformation\<close>

text \<open>The sixteen rounds, in pairs \<open>DES_ROUND( Y, X );  DES_ROUND( X, Y );\<close>, while
  \<open>SK\<close> advances.\<close>

fun des_rounds :: "u32 list \<Rightarrow> u32 \<Rightarrow> u32 \<Rightarrow> u32 \<times> u32" where
  "des_rounds (k1 # k2 # k3 # k4 # SK) X Y =
    (let X = DES_ROUND k1 k2 Y X; Y = DES_ROUND k3 k4 X Y in des_rounds SK X Y)"
| "des_rounds _ X Y = (X, Y)"

definition des_crypt :: "u32 list \<Rightarrow> u8 list \<Rightarrow> u8 list" where
  "des_crypt SK input =
    (let (X, Y) = DES_IP (GET_UINT32 input 0) (GET_UINT32 input 4);
         (X, Y) = des_rounds SK X Y;
         (Y, X) = DES_FP Y X
     in PUT_UINT32 Y @ PUT_UINT32 X)"

subsection \<open>Encoding and decoding of texts\<close>

text \<open>The errors of the Lua functions, by their messages.\<close>

datatype crypt_error =
    Invalid_key_size
  | Invalid_des_crypt_text_length
  | Invalid_des_crypt_text
  | Invalid_hex_text_size
  | Invalid_hex_text
  | Invalid_uint64_x
  | Invalid_uint64_y
  | Invalid_uint64_key
  | Invalid_dh_uint64_key
  | Cant_be_0
  | Invalid_base64_text
  | Cant_xor_empty_string

definition SMALL_CHUNK :: nat where
  "SMALL_CHUNK = 256"

text \<open>The size of the output buffer for \<open>n\<close> bytes: the local array, or a block of memory of
  that size where the array is too small.\<close>

definition out_size :: "nat \<Rightarrow> nat" where
  "out_size n = (if n > SMALL_CHUNK then n else SMALL_CHUNK)"

text \<open>Writing the bytes that follow those already written, and handing the first \<open>n\<close> bytes to
  Lua.\<close>

definition put_bytes :: "nat \<Rightarrow> u8 list \<Rightarrow> u8 list \<Rightarrow> u8 list option" where
  "put_bytes cap out bs = (if length out + length bs \<le> cap then Some (out @ bs) else None)"

definition take_bytes :: "nat \<Rightarrow> u8 list \<Rightarrow> u8 list option" where
  "take_bytes n out = (if n \<le> length out then Some (take n out) else None)"

text \<open>The counters of the loops are of type \<open>int\<close>.\<close>

definition int_length :: "u8 list \<Rightarrow> bool" where
  "int_length text \<longleftrightarrow> int (length text) + 8 \<le> 2147483647"

definition des_key :: "u8 list \<Rightarrow> crypt_error + u32 list" where
  "des_key key = (if length key \<noteq> 8 then Inl Invalid_key_size else Inr (des_main_ks key))"

text \<open>The loop \<open>for (i=0;i<(int)textsz-7;i+=8)\<close>: the whole blocks; it returns the bytes that
  are left.\<close>

fun des_blocks :: "u32 list \<Rightarrow> nat \<Rightarrow> u8 list \<Rightarrow> u8 list \<Rightarrow> (u8 list \<times> u8 list) option" where
  "des_blocks SK cap text out =
    (if 0 < int (length text) - 7
     then do {
       out \<leftarrow> put_bytes cap out (des_crypt SK (take 8 text));
       des_blocks SK cap (drop 8 text) out }
     else Some (text, out))"

definition des_tail :: "u8 list \<Rightarrow> u8 list" where
  "des_tail text =
    map (\<lambda>j. if j < length text then text ! j else if j = length text then 0x80 else 0) [0..<8]"

definition ldesencode :: "u8 list \<Rightarrow> u8 list \<Rightarrow> (crypt_error + u8 list) option" where
  "ldesencode key text =
    (case des_key key of
       Inl e \<Rightarrow> Some (Inl e)
     | Inr SK \<Rightarrow>
         (if int_length text then
           (let chunksz = (length text + 8) div 8 * 8; cap = out_size chunksz in
            do {
              (rest, out) \<leftarrow> des_blocks SK cap text [];
              out \<leftarrow> put_bytes cap out (des_crypt SK (des_tail rest));
              out \<leftarrow> take_bytes chunksz out;
              Some (Inr out) })
          else None))"

text \<open>The loop \<open>for (i=0;i<textsz;i+=8)\<close> of the decoder; a last block of fewer than eight bytes
  would be read past the end of the text.\<close>

fun decode_blocks :: "u32 list \<Rightarrow> nat \<Rightarrow> u8 list \<Rightarrow> u8 list \<Rightarrow> u8 list option" where
  "decode_blocks SK cap text out =
    (if text = [] then Some out
     else if length text < 8 then None
     else do {
       out \<leftarrow> put_bytes cap out (des_crypt SK (take 8 text));
       decode_blocks SK cap (drop 8 text) out })"

text \<open>The key schedule in reverse, in pairs of words.\<close>

definition reverse_ks :: "u32 list \<Rightarrow> u32 list" where
  "reverse_ks ESK = concat (map (\<lambda>i. [ESK ! (30 - 2 * i), ESK ! (31 - 2 * i)]) [0..<16])"

text \<open>
  The scan for the padding, \<open>for (i=textsz-1;i>=textsz-8;i--)\<close>.  The comparison is one of
  \<open>size_t\<close>, so that \<open>i = -1\<close> is not below \<open>textsz-8 = 0\<close> for a text of one block: the scan
  then goes on and reads before the start of the buffer.  The result is the padding, or the
  error.
\<close>

fun padding_loop :: "u8 list \<Rightarrow> nat \<Rightarrow> int \<Rightarrow> nat \<Rightarrow> (crypt_error + nat) option" where
  "padding_loop buffer 0 i padding = None"
| "padding_loop buffer (Suc fuel) i padding =
    (if (i mod 2 ^ 64) \<ge> int (length buffer) - 8
     then (if i < 0 then None
           else do {
             b \<leftarrow> arr_get buffer (nat i);
             if b = 0 then padding_loop buffer fuel (i - 1) (padding + 1)
             else if b = 0x80 then Some (Inr padding)
             else Some (Inl Invalid_des_crypt_text) })
     else Some (Inr padding))"

definition ldesdecode :: "u8 list \<Rightarrow> u8 list \<Rightarrow> (crypt_error + u8 list) option" where
  "ldesdecode key text =
    (case des_key key of
       Inl e \<Rightarrow> Some (Inl e)
     | Inr ESK \<Rightarrow>
         (if length text mod 8 \<noteq> 0 \<or> text = [] then Some (Inl Invalid_des_crypt_text_length)
          else if int_length text then
            do {
              buffer \<leftarrow> decode_blocks (reverse_ks ESK) (out_size (length text)) text [];
              r \<leftarrow> padding_loop buffer 10 (int (length text) - 1) 1;
              (case r of
                 Inl e \<Rightarrow> Some (Inl e)
               | Inr padding \<Rightarrow>
                   (if padding > 8 then Some (Inl Invalid_des_crypt_text)
                    else do { out \<leftarrow> take_bytes (length text - padding) buffer; Some (Inr out) })) }
          else None))"

declare des_blocks.simps [simp del] decode_blocks.simps [simp del]

subsection \<open>Inverse permutations\<close>

lemma bit_swap_swap:
  assumes "drop_bit n (push_bit n m) = m" and "bit_swap n m A B = (A', B')"
  shows "bit_swap n m A' B' = (A, B)"
proof -
  define T where "T = (drop_bit n A XOR B) AND m"
  have eq: "A' = A XOR push_bit n T" "B' = B XOR T"
    using assms(2) by (simp_all add: bit_swap_def Let_def T_def)
  have "drop_bit n (push_bit n T) = T"
  proof (rule bit_word_eqI)
    fix k assume k: "k < LENGTH(32)"
    have "bit (drop_bit n (push_bit n m)) k = bit m k" using assms(1) by simp
    then show "bit (drop_bit n (push_bit n T)) k = bit T k" using k by (auto simp: T_def bit_simps)
  qed
  then have "(drop_bit n A' XOR B') = (drop_bit n A XOR T) XOR (B XOR T)"
    by (simp only: eq drop_bit_xor)
  also have "\<dots> = (drop_bit n A XOR B)"
    by (rule bit_word_eqI) (auto simp only: bit_xor_iff)
  finally have "(drop_bit n A' XOR B') AND m = T" by (simp only: T_def)
  moreover have "(A XOR push_bit n T) XOR push_bit n T = A" "(B XOR T) XOR T = B"
    by (rule bit_word_eqI, auto simp only: bit_xor_iff)+
  ultimately show ?thesis by (simp only: bit_swap_def Let_def eq)
qed

lemma bit_swap_inverse:
  assumes "drop_bit n (push_bit n m) = m"
  shows "(case bit_swap n m A B of (A', B') \<Rightarrow> bit_swap n m A' B') = (A, B)"
  using bit_swap_swap [OF assms, of A B] by (cases "bit_swap n m A B") simp

lemma rot_or:
  fixes X :: u32
  assumes "j + k = 32" "k < 32" "j < 32"
  shows "push_bit j (push_bit k X OR drop_bit j X) OR drop_bit k (push_bit k X OR drop_bit j X) = X"
proof (rule bit_word_eqI)
  fix n assume "n < LENGTH(32)"
  then show "bit (push_bit j (push_bit k X OR drop_bit j X)
      OR drop_bit k (push_bit k X OR drop_bit j X)) n = bit X n"
    using assms by (auto simp: bit_simps dest: bit_imp_le_length)
qed

lemma rot_left1_alt: "rot_left1 X = push_bit 1 X OR drop_bit 31 X"
  and rot_right1_alt: "rot_right1 X = push_bit 31 X OR drop_bit 1 X"
proof -
  have "(0xFFFFFFFF :: u32) = - 1" by simp
  then have "Y AND 0xFFFFFFFF = Y" for Y :: u32 by (simp only: and.right_neutral)
  then show "rot_left1 X = push_bit 1 X OR drop_bit 31 X" "rot_right1 X = push_bit 31 X OR drop_bit 1 X"
    by (simp_all only: rot_left1_def rot_right1_def)
qed

lemma rot_right1_left1 [simp]: "rot_right1 (rot_left1 X) = X"
  unfolding rot_left1_alt rot_right1_alt by (rule rot_or) simp_all

lemma rot_left1_right1 [simp]: "rot_left1 (rot_right1 X) = X"
  unfolding rot_left1_alt rot_right1_alt by (rule rot_or) simp_all

lemma swap_masks:
  "drop_bit 4 (push_bit 4 0x0F0F0F0F) = (0x0F0F0F0F :: u32)"
  "drop_bit 16 (push_bit 16 0x0000FFFF) = (0x0000FFFF :: u32)"
  "drop_bit 2 (push_bit 2 0x33333333) = (0x33333333 :: u32)"
  "drop_bit 8 (push_bit 8 0x00FF00FF) = (0x00FF00FF :: u32)"
  "drop_bit 0 (push_bit 0 0xAAAAAAAA) = (0xAAAAAAAA :: u32)"
  by simp_all

lemmas des_swaps = swap_masks [THEN bit_swap_swap]

lemma DES_FP_IP:
  assumes "DES_IP X Y = (X', Y')"
  shows "DES_FP X' Y' = (X, Y)"
proof -
  obtain X1 Y1 where 1: "bit_swap 4 0x0F0F0F0F X Y = (X1, Y1)" by (rule prod.exhaust)
  obtain X2 Y2 where 2: "bit_swap 16 0x0000FFFF X1 Y1 = (X2, Y2)" by (rule prod.exhaust)
  obtain Y3 X3 where 3: "bit_swap 2 0x33333333 Y2 X2 = (Y3, X3)" by (rule prod.exhaust)
  obtain Y4 X4 where 4: "bit_swap 8 0x00FF00FF Y3 X3 = (Y4, X4)" by (rule prod.exhaust)
  obtain X5 Y5 where 5: "bit_swap 0 0xAAAAAAAA X4 (rot_left1 Y4) = (X5, Y5)" by (rule prod.exhaust)
  have "X' = rot_left1 X5" "Y' = Y5"
    using assms by (simp_all only: DES_IP_def Let_def 1 2 3 4 5 prod.case prod.inject)
  then show ?thesis
    by (simp only: DES_FP_def Let_def rot_right1_left1 prod.case
        des_swaps(1) [OF 1] des_swaps(2) [OF 2] des_swaps(3) [OF 3] des_swaps(4) [OF 4] des_swaps(5) [OF 5])
qed

lemma DES_IP_FP:
  assumes "DES_FP X Y = (X', Y')"
  shows "DES_IP X' Y' = (X, Y)"
proof -
  obtain X1 Y1 where 1: "bit_swap 0 0xAAAAAAAA (rot_right1 X) Y = (X1, Y1)" by (rule prod.exhaust)
  obtain Y2 X2 where 2: "bit_swap 8 0x00FF00FF (rot_right1 Y1) X1 = (Y2, X2)" by (rule prod.exhaust)
  obtain Y3 X3 where 3: "bit_swap 2 0x33333333 Y2 X2 = (Y3, X3)" by (rule prod.exhaust)
  obtain X4 Y4 where 4: "bit_swap 16 0x0000FFFF X3 Y3 = (X4, Y4)" by (rule prod.exhaust)
  obtain X5 Y5 where 5: "bit_swap 4 0x0F0F0F0F X4 Y4 = (X5, Y5)" by (rule prod.exhaust)
  have "X' = X5" "Y' = Y5"
    using assms by (simp_all only: DES_FP_def Let_def 1 2 3 4 5 prod.case prod.inject)
  then show ?thesis
    by (simp only: DES_IP_def Let_def rot_left1_right1 prod.case
        des_swaps(5) [OF 1] des_swaps(4) [OF 2] des_swaps(3) [OF 3] des_swaps(2) [OF 4] des_swaps(1) [OF 5])
qed

subsection \<open>Words and bytes\<close>

lemma GET_PUT: "GET_UINT32 (PUT_UINT32 a @ bs) 0 = a"
proof (rule bit_word_eqI)
  fix n assume "n < LENGTH(32)"
  then consider "n < 8" | "8 \<le> n" "n < 16" | "16 \<le> n" "n < 24" | "24 \<le> n" "n < 32" by fastforce
  then show "bit (GET_UINT32 (PUT_UINT32 a @ bs) 0) n = bit a n"
    by cases (auto simp: GET_UINT32_def PUT_UINT32_def bit_simps dest: bit_imp_le_length)
qed

lemma GET_PUT_4: "GET_UINT32 (PUT_UINT32 a @ bs) 4 = GET_UINT32 bs 0"
  by (simp add: GET_UINT32_def PUT_UINT32_def nth_append numeral_2_eq_2)

lemma PUT_GET_0: "PUT_UINT32 (GET_UINT32 (a # b # c # d # bs) 0) = [a, b, c, d]"
proof -
  define w :: u32 where "w = push_bit 24 (ucast a) OR push_bit 16 (ucast b) OR push_bit 8 (ucast c) OR ucast d"
  have "ucast w = d" "ucast (drop_bit 8 w) = c" "ucast (drop_bit 16 w) = b" "ucast (drop_bit 24 w) = a"
    unfolding w_def by (rule bit_word_eqI; auto simp: bit_simps dest: bit_imp_le_length)+
  then show ?thesis by (simp add: GET_UINT32_def PUT_UINT32_def w_def)
qed

lemma PUT_GET:
  assumes "length bs = 8"
  shows "PUT_UINT32 (GET_UINT32 bs 0) @ PUT_UINT32 (GET_UINT32 bs 4) = bs"
proof -
  from assms obtain a b c d e f g h where bs: "bs = [a, b, c, d, e, f, g, h]"
    by (auto simp: length_Suc_conv eval_nat_numeral)
  have "GET_UINT32 bs 4 = GET_UINT32 [e, f, g, h] 0" by (simp add: bs GET_UINT32_def)
  then show ?thesis by (simp add: bs PUT_GET_0)
qed

lemma length_PUT [simp]: "length (PUT_UINT32 a) = 4"
  by (simp add: PUT_UINT32_def)

lemma length_des_crypt [simp]: "length (des_crypt SK b) = 8"
  by (simp add: des_crypt_def split: prod.split)

subsection \<open>A Feistel network is undone by its keys in reverse\<close>

definition des_f :: "u32 \<times> u32 \<Rightarrow> u32 \<Rightarrow> u32" where
  "des_f k X = DES_ROUND (fst k) (snd k) X 0"

lemma DES_ROUND_xor: "DES_ROUND k1 k2 X Y = (Y XOR des_f (k1, k2) X)"
  by (simp add: DES_ROUND_def des_f_def Let_def xor.assoc)

fun feistel :: "('k \<Rightarrow> u32 \<Rightarrow> u32) \<Rightarrow> 'k list \<Rightarrow> u32 \<Rightarrow> u32 \<Rightarrow> u32 \<times> u32" where
  "feistel f [] X Y = (X, Y)"
| "feistel f (k # ks) X Y = feistel f ks Y (X XOR f k Y)"

lemma feistel_snoc:
  "feistel f (ks @ [k]) X Y = (case feistel f ks X Y of (X, Y) \<Rightarrow> (Y, X XOR f k Y))"
  by (induction ks arbitrary: X Y) simp_all

lemma feistel_rev: "feistel f ks X Y = (X', Y') \<Longrightarrow> feistel f (rev ks) Y' X' = (Y, X)"
proof (induction ks arbitrary: X Y)
  case Nil
  then show ?case by simp
next
  case (Cons k ks)
  then have "feistel f (rev ks) Y' X' = (X XOR f k Y, Y)" by simp
  then show ?case by (simp add: feistel_snoc xor.assoc)
qed

definition flat_ks :: "(u32 \<times> u32) list \<Rightarrow> u32 list" where
  "flat_ks ps = concat (map (\<lambda>(a, b). [a, b]) ps)"

lemma flat_ks_simps [simp]:
  "flat_ks [] = []" "flat_ks (p # ps) = fst p # snd p # flat_ks ps"
  by (simp_all add: flat_ks_def split: prod.split)

lemma length_flat_ks [simp]: "length (flat_ks ps) = 2 * length ps"
  by (induction ps) simp_all

lemma flat_ks_nth:
  assumes "i < length ps"
  shows "flat_ks ps ! (2 * i) = fst (ps ! i)" "flat_ks ps ! (2 * i + 1) = snd (ps ! i)"
  using assms by (induction ps arbitrary: i; auto simp: nth_Cons' less_Suc_eq_0_disj)+

lemma des_rounds_feistel: "length ps = 2 * n \<Longrightarrow> des_rounds (flat_ks ps) X Y = feistel des_f ps X Y"
proof (induction n arbitrary: ps X Y)
  case 0
  then show ?case by simp
next
  case (Suc n)
  then obtain p q qs where "ps = p # q # qs" "length qs = 2 * n"
    by (auto simp: length_Suc_conv)
  with Suc.IH show ?case by (simp add: DES_ROUND_xor Let_def)
qed

lemma reverse_ks_flat: "length ps = 16 \<Longrightarrow> reverse_ks (flat_ks ps) = flat_ks (rev ps)"
proof -
  assume len: "length ps = 16"
  have "[flat_ks ps ! (30 - 2 * i), flat_ks ps ! (31 - 2 * i)] = [fst (ps ! (15 - i)), snd (ps ! (15 - i))]"
    if "i < 16" for i
  proof -
    have "30 - 2 * i = 2 * (15 - i)" "31 - 2 * i = 2 * (15 - i) + 1" using that by simp_all
    then show ?thesis using flat_ks_nth [of "15 - i" ps] len by simp
  qed
  then have "reverse_ks (flat_ks ps) = concat (map (\<lambda>i. [fst (ps ! (15 - i)), snd (ps ! (15 - i))]) [0..<16])"
    unfolding reverse_ks_def by (intro arg_cong [where f = concat] map_cong) auto
  also have "\<dots> = flat_ks (map (\<lambda>i. ps ! (15 - i)) [0..<16])"
    by (simp add: flat_ks_def split_def comp_def)
  also have "map (\<lambda>i. ps ! (15 - i)) [0..<16] = rev ps"
    using len by (intro nth_equalityI) (auto simp: rev_nth)
  finally show ?thesis .
qed

lemma ks_loop_flat: "\<exists>ps. ks_loop n i X Y = flat_ks ps \<and> length ps = n"
proof (induction n arbitrary: i X Y)
  case 0
  then show ?case by simp
next
  case (Suc n)
  define X' Y' where "X' = ks_rotate i X" "Y' = ks_rotate i Y"
  from Suc obtain ps where "ks_loop n (i + 1) X' Y' = flat_ks ps" "length ps = n" by blast
  then show ?case
    by (intro exI [of _ "(ks_pc2_first X' Y', ks_pc2_second X' Y') # ps"]) (simp add: X'_Y'_def Let_def)
qed

lemma des_main_ks_flat: obtains ps where "des_main_ks key = flat_ks ps" "length ps = 16"
proof -
  obtain X Y where "ks_pc1 (GET_UINT32 key 0) (GET_UINT32 key 4) = (X, Y)" by (rule prod.exhaust)
  with ks_loop_flat [of 16 0 X Y] that show ?thesis by (auto simp: des_main_ks_def)
qed

text \<open>Decrypting a block is encrypting it with the reversed key schedule.\<close>

lemma des_crypt_inverse:
  assumes "length b = 8"
  shows "des_crypt (reverse_ks (des_main_ks key)) (des_crypt (des_main_ks key) b) = b"
proof -
  obtain ps where ks: "des_main_ks key = flat_ks ps" and len: "length ps = 16"
    by (rule des_main_ks_flat)
  obtain X Y where ip: "DES_IP (GET_UINT32 b 0) (GET_UINT32 b 4) = (X, Y)" by (rule prod.exhaust)
  obtain X' Y' where fe: "feistel des_f ps X Y = (X', Y')" by (rule prod.exhaust)
  obtain Y2 X2 where fp: "DES_FP Y' X' = (Y2, X2)" by (rule prod.exhaust)
  have enc: "des_crypt (flat_ks ps) b = PUT_UINT32 Y2 @ PUT_UINT32 X2"
    using len by (simp add: des_crypt_def ks ip des_rounds_feistel [of ps 8] fe fp)
  have "GET_UINT32 (PUT_UINT32 Y2 @ PUT_UINT32 X2) 4 = X2"
    using GET_PUT [of X2 "[]"] by (simp add: GET_PUT_4)
  then show ?thesis
    unfolding ks enc using len PUT_GET [OF assms]
    by (simp add: reverse_ks_flat des_crypt_def GET_PUT DES_IP_FP [OF fp]
        des_rounds_feistel [of "rev ps" 8] feistel_rev [OF fe] DES_FP_IP [OF ip])
qed

subsection \<open>Texts\<close>

text \<open>The blocks of a text, each transformed on its own.\<close>

fun ecb :: "u32 list \<Rightarrow> u8 list \<Rightarrow> u8 list" where
  "ecb SK text = (if length text < 8 then [] else des_crypt SK (take 8 text) @ ecb SK (drop 8 text))"

declare ecb.simps [simp del]

lemma ecb_short [simp]: "length text < 8 \<Longrightarrow> ecb SK text = []"
  by (simp add: ecb.simps)

lemma ecb_block [simp]: "length b = 8 \<Longrightarrow> ecb SK (b @ text) = des_crypt SK b @ ecb SK text"
  by (simp add: ecb.simps [of _ "b @ text"])

text \<open>Induction over the blocks of a text.\<close>

lemma blocks_induct [consumes 1, case_names empty block]:
  assumes "length ts = 8 * n" "P []" "\<And>b t m. length b = 8 \<Longrightarrow> length t = 8 * m \<Longrightarrow> P t \<Longrightarrow> P (b @ t)"
  shows "P ts"
  using assms(1)
proof (induction n arbitrary: ts)
  case 0
  then show ?case using assms(2) by simp
next
  case (Suc n)
  then have "P (take 8 ts @ drop 8 ts)" by (intro assms(3) [of _ _ n]) simp_all
  then show ?case by simp
qed

lemma length_ecb: "length text = 8 * n \<Longrightarrow> length (ecb SK text) = 8 * n"
proof -
  assume *: "length text = 8 * n"
  from * have "length (ecb SK text) = length text" by (induction rule: blocks_induct) simp_all
  with * show ?thesis by simp
qed

lemma ecb_append: "length a = 8 * n \<Longrightarrow> ecb SK (a @ b) = ecb SK a @ ecb SK b"
  by (induction rule: blocks_induct) simp_all

lemma ecb_inverse:
  "length text = 8 * n \<Longrightarrow> ecb (reverse_ks (des_main_ks key)) (ecb (des_main_ks key) text) = text"
  by (induction rule: blocks_induct) (simp_all add: des_crypt_inverse)

lemma decode_blocks_ecb:
  assumes "length text = 8 * n" "length out + length text \<le> cap"
  shows "decode_blocks SK cap text out = Some (out @ ecb SK text)"
  using assms
proof (induction arbitrary: out rule: blocks_induct)
  case empty
  then show ?case by (simp add: decode_blocks.simps)
next
  case (block b t m)
  then show ?case by (subst decode_blocks.simps) (auto simp: put_bytes_def)
qed

lemma des_blocks_ecb:
  assumes "length text = 8 * n" "length rest < 8" "length out + length text \<le> cap"
  shows "des_blocks SK cap (text @ rest) out = Some (rest, out @ ecb SK text)"
  using assms
proof (induction arbitrary: out rule: blocks_induct)
  case empty
  then show ?case by (simp add: des_blocks.simps)
next
  case (block b t m)
  then show ?case by (simp add: des_blocks.simps [of _ _ "b @ t @ rest"] put_bytes_def)
qed

lemma split_blocks:
  obtains a r n where "text = a @ r" "length a = 8 * n" "length r < 8" "n = length text div 8"
proof
  show "text = take (8 * (length text div 8)) text @ drop (8 * (length text div 8)) text" by simp
qed (auto simp: minus_mult_div_eq_mod)

lemma des_tail_eq:
  assumes "length r < 8"
  shows "des_tail r = r @ 0x80 # replicate (7 - length r) 0"
  using assms by (intro nth_equalityI) (auto simp: des_tail_def nth_append nth_Cons')

text \<open>What \<open>ldesencode\<close> returns: the blocks of the text followed by the byte \<open>0x80\<close> and by
  zeros up to a full block.\<close>

definition des_pad :: "u8 list \<Rightarrow> u8 list" where
  "des_pad text = text @ 0x80 # replicate (7 - length text mod 8) 0"

lemma length_des_pad: "length (des_pad text) = 8 * (length text div 8 + 1)"
proof -
  have "l + Suc (7 - m) = 8 * (q + 1)" if "l = 8 * q + m" "m < 8" for l q m :: nat
    using that by arith
  from this [of "length text" "length text div 8" "length text mod 8"]
  show ?thesis by (simp add: des_pad_def del: Suc_diff_le)
qed

lemma ldesencode_eq:
  assumes "length key = 8" "int_length text"
  shows "ldesencode key text = Some (Inr (ecb (des_main_ks key) (des_pad text)))"
proof -
  obtain a r n where s: "text = a @ r" "length a = 8 * n" "length r < 8" "n = length text div 8"
    by (rule split_blocks)
  have chunk: "(length text + 8) div 8 * 8 = 8 * n + 8"
    unfolding s(4) div_add_self2 [OF numeral_neq_zero] by simp
  then have cap: "8 * n + 8 \<le> out_size ((length text + 8) div 8 * 8)" by (simp add: out_size_def)
  have pad: "des_pad text = a @ des_tail r"
  proof -
    have "length text mod 8 = length r" unfolding s(1) length_append s(2) using s(3) by simp
    then show ?thesis using s(3) by (simp add: des_pad_def des_tail_eq s(1))
  qed
  have len: "length (des_tail r) = 8" by (simp add: des_tail_def)
  have e: "length (ecb (des_main_ks key) a) = 8 * n" by (rule length_ecb [OF s(2)])
  have "ecb (des_main_ks key) (des_pad text) = ecb (des_main_ks key) a @ des_crypt (des_main_ks key) (des_tail r)"
    using ecb_block [OF len, of _ "[]"] by (simp add: pad ecb_append [OF s(2)])
  moreover have "des_blocks SK (out_size (8 * n + 8)) text [] = Some (r, ecb SK a)" for SK
    using des_blocks_ecb [OF s(2,3), of "[]" "out_size (8 * n + 8)"] cap [unfolded chunk] s(2)
    by (simp add: s(1))
  ultimately show ?thesis
    unfolding ldesencode_def des_key_def Let_def chunk using assms cap [unfolded chunk] e
    by (simp add: put_bytes_def take_bytes_def)
qed

subsection \<open>Decoding\<close>

lemma padding_loop_step:
  assumes "p < length buffer" "length buffer \<le> p + 8" "int (length buffer) \<le> 2 ^ 63"
  shows "padding_loop buffer (Suc fuel) (int p) m =
    (if buffer ! p = 0 then padding_loop buffer fuel (int p - 1) (m + 1)
     else Some (if buffer ! p = 0x80 then Inr m else Inl Invalid_des_crypt_text))"
proof -
  have "int p mod 2 ^ 64 = int p" by (rule mod_pos_pos_trivial) (use assms in simp_all)
  then show ?thesis using assms(1,2) by (simp add: arr_get_def)
qed

text \<open>The scan reads the zeros at the end of the buffer and stops at the byte before them.\<close>

lemma padding_loop_zeros:
  assumes "k < fuel" "length buffer \<le> p + 8" "int (length buffer) \<le> 2 ^ 63"
    "p + k < length buffer" "\<forall>j. p < j \<and> j \<le> p + k \<longrightarrow> buffer ! j = 0"
  shows "padding_loop buffer fuel (int (p + k)) m = padding_loop buffer (fuel - k) (int p) (m + k)"
  using assms
proof (induction k arbitrary: fuel m)
  case 0
  then show ?case by simp
next
  case (Suc k)
  obtain f where f: "fuel = Suc f" using Suc.prems(1) by (cases fuel) auto
  have "int (p + Suc k) - 1 = int (p + k)" by simp
  moreover have "buffer ! (p + Suc k) = 0" using Suc.prems(5) by simp
  ultimately have "padding_loop buffer fuel (int (p + Suc k)) m = padding_loop buffer f (int (p + k)) (m + 1)"
    unfolding f by (subst padding_loop_step) (use Suc.prems in simp_all)
  also have "\<dots> = padding_loop buffer (f - k) (int p) (m + 1 + k)"
    by (rule Suc.IH) (use Suc.prems f in auto)
  finally show ?case by (simp add: f)
qed

text \<open>The text that a last block \<open>b\<close> stands for, if its padding is right.\<close>

definition des_unpad :: "u8 list \<Rightarrow> u8 list option" where
  "des_unpad b = (case dropWhile (\<lambda>x. x = 0) (rev b) of
     [] \<Rightarrow> None | x # xs \<Rightarrow> if x = 0x80 then Some (rev xs) else None)"

lemma last_nonzero:
  assumes "dropWhile (\<lambda>x. x = 0) (rev b) = x # xs"
  obtains k where "b = rev xs @ x # replicate k 0" "x \<noteq> 0"
proof
  define z where "z = takeWhile (\<lambda>x. x = 0) (rev b)"
  have "rev b = z @ x # xs" using assms takeWhile_dropWhile_id [of "\<lambda>x. x = 0" "rev b"] by (simp add: z_def)
  moreover have "z = replicate (length z) 0"
    using set_takeWhileD [of _ "\<lambda>x. x = 0" "rev b"] unfolding z_def by (intro replicate_eqI) auto
  ultimately have "rev b = replicate (length z) 0 @ x # xs" by simp
  then have "rev (rev b) = rev xs @ x # replicate (length z) 0" by simp
  then show "b = rev xs @ x # replicate (length z) 0" by simp
  show "x \<noteq> 0" using hd_dropWhile [of "\<lambda>x. x = 0" "rev b"] assms by auto
qed

lemma dropWhile_zeros: "dropWhile (\<lambda>x. x = 0) (replicate k (0::u8) @ 0x80 # xs) = 0x80 # xs"
  by (induction k) simp_all

lemma dropWhile_zeros_Nil:
  assumes "dropWhile (\<lambda>x. x = 0) (rev b) = []"
  shows "b = replicate (length b) 0"
  using assms by (intro replicate_eqI) (auto simp: dropWhile_eq_Nil_conv)

text \<open>The scan of a buffer that ends with the block \<open>b\<close>.\<close>

lemma padding_loop_block:
  assumes len: "length b = 8" and small: "int (length (a @ b)) \<le> 2 ^ 63"
  shows "padding_loop (a @ b) 10 (int (length (a @ b)) - 1) 1 =
    (case dropWhile (\<lambda>x. x = 0) (rev b) of
       [] \<Rightarrow> if a = [] then None else Some (Inr 9)
     | x # xs \<Rightarrow> Some (if x = 0x80 then Inr (8 - length xs) else Inl Invalid_des_crypt_text))"
proof (cases "dropWhile (\<lambda>x. x = 0) (rev b)")
  case Nil
  then have b: "b = replicate 8 0" using dropWhile_zeros_Nil len by metis
  have z: "\<forall>j. length a < j \<and> j \<le> length a + 7 \<longrightarrow> (a @ b) ! j = 0" by (auto simp: b nth_append)
  have "padding_loop (a @ b) 10 (int (length a + 7)) 1 = padding_loop (a @ b) 3 (int (length a)) 8"
    using padding_loop_zeros [OF _ _ small _ z, of 10 1] len by simp
  also have "\<dots> = padding_loop (a @ b) 2 (int (length a) - 1) 9"
    using padding_loop_step [of "length a" "a @ b" 2 8] small by (simp add: b nth_append numeral_3_eq_3)
  also have "\<dots> = (if a = [] then None else Some (Inr 9))"
  proof (cases "a = []")
    case True
    then show ?thesis by (simp add: len numeral_2_eq_2)
  next
    case False
    then have "(int (length a) - 1) mod 2 ^ 64 = int (length a) - 1"
      using small by (intro mod_pos_pos_trivial) (auto simp: Suc_le_eq simp flip: length_greater_0_conv)
    then show ?thesis using False by (simp add: len numeral_2_eq_2)
  qed
  finally show ?thesis unfolding Nil list.case using len by (simp add: add.commute)
next
  case (Cons x xs)
  then obtain k where b: "b = rev xs @ x # replicate k 0" "x \<noteq> 0" by (rule last_nonzero)
  with len have k: "length xs + k = 7" by simp
  define p where "p = length a + length xs"
  have "padding_loop (a @ b) 10 (int (p + k)) 1 = padding_loop (a @ b) (10 - k) (int p) (1 + k)"
    using k small len by (intro padding_loop_zeros) (auto simp: p_def b nth_append nth_Cons')
  also have "\<dots> = Some (if x = 0x80 then Inr (1 + k) else Inl Invalid_des_crypt_text)"
  proof -
    have "Suc (9 - k) = 10 - k" "p < length (a @ b)" "length (a @ b) \<le> p + 8" "(a @ b) ! p = x"
      using k len b by (simp_all add: p_def nth_append)
    then show ?thesis using padding_loop_step [of p "a @ b" "9 - k" "1 + k"] small b(2) by metis
  qed
  moreover have "int (p + k) = int (length (a @ b)) - 1" "1 + k = 8 - length xs"
    using k len by (simp_all add: p_def)
  ultimately show ?thesis unfolding Cons list.case by metis
qed

text \<open>What \<open>ldesdecode\<close> computes from a text whose decrypted form ends with the block \<open>b\<close>.\<close>

lemma ldesdecode_eq:
  assumes key: "length key = 8" and len: "length s = 8 * n" "s \<noteq> []" "int_length s"
    and dec: "ecb (reverse_ks (des_main_ks key)) s = a @ b" "length b = 8"
  shows "ldesdecode key s =
    (if a = [] \<and> b = replicate 8 0 then None
     else Some (case des_unpad b of None \<Rightarrow> Inl Invalid_des_crypt_text | Some r \<Rightarrow> Inr (a @ r)))"
proof -
  have lab: "length s = length a + 8" "length (a @ b) = length s"
    using length_ecb [OF len(1), of "reverse_ks (des_main_ks key)"] dec len(1) by simp_all
  have small: "int (length (a @ b)) \<le> 2 ^ 63" using len(3) lab by (simp add: int_length_def)
  have "decode_blocks (reverse_ks (des_main_ks key)) (out_size (length s)) s [] = Some (a @ b)"
    using decode_blocks_ecb [OF len(1), of "[]" "out_size (length s)"] dec(1) by (simp add: out_size_def)
  then have *: "ldesdecode key s = do {
      r \<leftarrow> padding_loop (a @ b) 10 (int (length (a @ b)) - 1) 1;
      (case r of
         Inl e \<Rightarrow> Some (Inl e)
       | Inr padding \<Rightarrow>
           (if padding > 8 then Some (Inl Invalid_des_crypt_text)
            else do { out \<leftarrow> take_bytes (length s - padding) (a @ b); Some (Inr out) })) }"
    using key len lab(2) by (simp add: ldesdecode_def des_key_def del: padding_loop.simps length_append)
  show ?thesis
  proof (cases "dropWhile (\<lambda>x. x = 0) (rev b)")
    case Nil
    then have "b = replicate 8 0" using dropWhile_zeros_Nil dec(2) by metis
    with Nil show ?thesis
      unfolding * padding_loop_block [OF dec(2) small] by (simp add: des_unpad_def)
  next
    case (Cons x xs)
    then obtain k where b: "b = rev xs @ x # replicate k 0" "x \<noteq> 0" by (rule last_nonzero)
    with dec(2) have k: "length xs + k = 7" by simp
    have "b \<noteq> replicate 8 0"
    proof
      assume "b = replicate 8 0"
      then have "x \<in> set (replicate 8 0)" using b(1) by (metis in_set_conv_decomp)
      with b(2) show False by simp
    qed
    moreover have "length s - (8 - length xs) = length a + length xs" using lab k by simp
    moreover have "\<not> 8 < 8 - length xs" by arith
    ultimately show ?thesis
      unfolding * padding_loop_block [OF dec(2) small] using Cons k lab b(1)
      by (simp add: des_unpad_def take_bytes_def)
  qed
qed

lemma ecb_concat: "\<forall>b \<in> set bs. length b = 8 \<Longrightarrow> ecb SK (concat bs) = concat (map (des_crypt SK) bs)"
  by (induction bs) simp_all

lemma length_concat_blocks: "\<forall>b \<in> set bs. length b = 8 \<Longrightarrow> length (concat bs) = 8 * length bs"
  by (induction bs) simp_all

subsection \<open>The properties of the cipher\<close>

text \<open>C8: \<open>ldesdecode\<close> inverts \<open>ldesencode\<close>: for every key of eight bytes and every text, encoding
  returns whole blocks, at least one byte longer than the text, and decoding them with the same
  key returns the text.  Both stay within their buffers.\<close>

theorem des_roundtrip:
  assumes "length key = 8" "length text \<le> 2147483631"
  shows "\<exists>c. ldesencode key text = Some (Inr c) \<and> length c = 8 * (length text div 8 + 1) \<and>
    ldesdecode key c = Some (Inr text)"
proof -
  define c where "c = ecb (des_main_ks key) (des_pad text)"
  obtain a r n where s: "text = a @ r" "length a = 8 * n" "length r < 8" "n = length text div 8"
    by (rule split_blocks)
  define b where "b = r @ 0x80 # replicate (7 - length r) 0"
  have "length text mod 8 = length r" unfolding s(1) length_append s(2) using s(3) by simp
  then have pad: "des_pad text = a @ b" by (simp add: des_pad_def b_def s(1))
  have lenb: "length b = 8" using s(3) by (simp add: b_def)
  have len: "length c = 8 * (length text div 8 + 1)" unfolding c_def by (rule length_ecb [OF length_des_pad])
  have "8 * (q + 1) \<le> 2147483639" if "8 * q \<le> l" "l \<le> 2147483631" for q l :: nat
    using that by simp
  from this [of "length text div 8" "length text"] have lenc: "length c \<le> 2147483639"
    unfolding len using assms(2) by simp
  have dec: "ecb (reverse_ks (des_main_ks key)) c = a @ b"
    unfolding c_def pad [symmetric] by (rule ecb_inverse [OF length_des_pad])
  have unpad: "des_unpad b = Some r" by (simp add: des_unpad_def b_def dropWhile_zeros)
  have nz: "b \<noteq> replicate 8 0"
  proof
    assume "b = replicate 8 0"
    moreover have "0x80 \<in> set b" by (simp add: b_def)
    ultimately have "0x80 \<in> set (replicate 8 (0 :: u8))" by simp
    then show False by simp
  qed
  have "ldesdecode key c = Some (Inr text)"
    using ldesdecode_eq [OF assms(1) len _ _ dec lenb] lenc len unpad nz s(1)
    by (simp add: int_length_def length_0_conv [symmetric] del: length_0_conv)
  then show ?thesis
    using ldesencode_eq [OF assms(1), of "text"] assms(2) len c_def by (simp add: int_length_def)
qed

theorem des_roundtrip_witness:
  "\<exists>c. ldesencode [1, 2, 3, 4, 5, 6, 7, 8] [0x68, 0x69] = Some (Inr c) \<and> length c = 8 \<and>
    ldesdecode [1, 2, 3, 4, 5, 6, 7, 8] c = Some (Inr [0x68, 0x69])"
  using des_roundtrip [of "[1, 2, 3, 4, 5, 6, 7, 8]" "[0x68, 0x69]"] by simp

text \<open>C33: What \<open>ldesdecode\<close> makes of an arbitrary sequence of encrypted blocks: the padding of
  the last block decides between the text and the error \<open>Invalid des crypt text\<close>, except that
  a single block of zeros makes the scan for the padding read before the start of its buffer.\<close>

theorem des_decode_outcomes:
  assumes "length key = 8" "bs \<noteq> []" "\<forall>b \<in> set bs. length b = 8" "8 * length bs \<le> 2147483639"
  shows "ldesdecode key (concat (map (des_crypt (des_main_ks key)) bs)) =
    (if bs = [replicate 8 0] then None
     else Some (case des_unpad (last bs) of
        None \<Rightarrow> Inl Invalid_des_crypt_text
      | Some r \<Rightarrow> Inr (concat (butlast bs) @ r)))"
proof -
  define s where "s = concat (map (des_crypt (des_main_ks key)) bs)"
  have s: "s = ecb (des_main_ks key) (concat bs)" by (simp only: s_def ecb_concat [OF assms(3)])
  have len: "length s = 8 * length bs" unfolding s by (rule length_ecb [OF length_concat_blocks [OF assms(3)]])
  have split: "concat bs = concat (butlast bs) @ last bs"
    using append_butlast_last_id [OF assms(2)] by (metis concat.simps append_Nil2 concat_append)
  have dec: "ecb (reverse_ks (des_main_ks key)) s = concat (butlast bs) @ last bs"
    unfolding s split [symmetric] by (rule ecb_inverse [OF length_concat_blocks [OF assms(3)]])
  have lb: "length (last bs) = 8" using assms(2,3) by simp
  have sne: "s \<noteq> []" using len assms(2) by (cases s) auto
  have "int_length s" using len assms(4) by (simp add: int_length_def)
  note eq = ldesdecode_eq [OF assms(1) len sne this dec lb]
  have "bs = [replicate 8 0] \<longleftrightarrow> concat (butlast bs) = [] \<and> last bs = replicate 8 0"
  proof (cases bs rule: rev_cases)
    case (snoc ys y)
    have "concat ys = [] \<longleftrightarrow> ys = []" using assms(3) snoc by (cases ys) auto
    with snoc show ?thesis by auto
  qed (use assms(2) in simp)
  with eq show ?thesis by (simp add: s_def)
qed

theorem des_decode_outcomes_witness:
  "ldesdecode [1, 2, 3, 4, 5, 6, 7, 8]
     (des_crypt (des_main_ks [1, 2, 3, 4, 5, 6, 7, 8]) (replicate 8 0)) = None"
  using des_decode_outcomes [of "[1, 2, 3, 4, 5, 6, 7, 8]" "[replicate 8 0]"] by simp
end
