(* ===== verification/Crypt.thy ===== *)
theory Crypt
  imports Des
begin

text \<open>
  The rest of \<open>lualib-src/lua-crypt.c\<close>: random keys, the hash functions, the hexadecimal
  and base64 codecs, the Diffie-Hellman exchange over the largest 64 bit prime, and the
  exclusive or of strings.  A string of Lua is the list of its bytes; every one of
  the functions is a function of the strings the script passes, and returns the string
  it pushes or the error it raises.

  An operand \<open>x[3]<<24\<close> of type \<open>int\<close> is read as its bit pattern also when it reaches the
  sign bit, as the supported compilers define it.
\<close>

subsection \<open>Random keys and hashes\<close>

text \<open>The argument is the result of the \<open>i\<close>-th call of \<open>random()\<close>.\<close>

definition lrandomkey :: "(nat \<Rightarrow> u64) \<Rightarrow> u8 list" where
  "lrandomkey random =
    (let tmp = map (\<lambda>i. ucast (random i AND 0xff)) [0..<8];
         x = foldl (\<lambda>x t. x XOR t) 0 tmp
     in if x = 0 then tmp[0 := tmp ! 0 OR 1] else tmp)"

text \<open>The loop of \<open>Hash\<close> over the bytes of a string.\<close>

fun hash_loop :: "u8 list \<Rightarrow> u32 \<Rightarrow> u32 \<Rightarrow> u32 \<times> u32" where
  "hash_loop [] djb_hash js_hash = (djb_hash, js_hash)"
| "hash_loop (c # str) djb_hash js_hash =
    hash_loop str (djb_hash + (push_bit 5 djb_hash + ucast c))
      (js_hash XOR (push_bit 5 js_hash + ucast c + drop_bit 2 js_hash))"

text \<open>The little endian bytes of a word.\<close>

definition put_le32 :: "u32 \<Rightarrow> u8 list" where
  "put_le32 w = [ucast (w AND 0xff), ucast (drop_bit 8 w AND 0xff), ucast (drop_bit 16 w AND 0xff),
     ucast (drop_bit 24 w AND 0xff)]"

definition Hash :: "u8 list \<Rightarrow> u8 list" where
  "Hash str = (let (djb_hash, js_hash) = hash_loop str 5381 1315423911
     in put_le32 djb_hash @ put_le32 js_hash)"

definition lhashkey :: "u8 list \<Rightarrow> u8 list" where
  "lhashkey key = Hash key"

subsection \<open>Hexadecimal text\<close>

definition hex_digits :: "u8 list" where
  "hex_digits = [48, 49, 50, 51, 52, 53, 54, 55, 56, 57, 97, 98, 99, 100, 101, 102]"

fun tohex_loop :: "nat \<Rightarrow> u8 list \<Rightarrow> u8 list \<Rightarrow> u8 list option" where
  "tohex_loop cap [] out = Some out"
| "tohex_loop cap (t # text) out = do {
     out \<leftarrow> put_bytes cap out [hex_digits ! unat (drop_bit 4 t), hex_digits ! unat (t AND 0xf)];
     tohex_loop cap text out }"

definition ltohex :: "u8 list \<Rightarrow> u8 list option" where
  "ltohex text =
    (if int_length text
     then (let sz = length text; cap = (if sz > SMALL_CHUNK div 2 then sz * 2 else SMALL_CHUNK)
           in do { out \<leftarrow> tohex_loop cap text []; take_bytes (sz * 2) out })
     else None)"

definition HEX :: "u8 \<Rightarrow> u8" where
  "HEX c = (if 48 \<le> c \<and> c \<le> 57 then c - 48 else c - 97 + 10)"

text \<open>The loop of \<open>lfromhex\<close> takes two characters at a time; behind the last character of a
  string of Lua stands a zero byte.\<close>

definition hex_pair :: "u8 \<Rightarrow> u8 \<Rightarrow> u8 option" where
  "hex_pair c d =
    (let hi = HEX c; low = HEX d in if hi > 16 \<or> low > 16 then None else Some (push_bit 4 hi OR low))"

fun fromhex_loop :: "nat \<Rightarrow> u8 list \<Rightarrow> u8 list \<Rightarrow> (crypt_error + u8 list) option" where
  "fromhex_loop cap [] out = Some (Inr out)"
| "fromhex_loop cap [c] out =
    (case hex_pair c 0 of
       None \<Rightarrow> Some (Inl Invalid_hex_text)
     | Some v \<Rightarrow> do { out \<leftarrow> put_bytes cap out [v]; Some (Inr out) })"
| "fromhex_loop cap (c # d # text) out =
    (case hex_pair c d of
       None \<Rightarrow> Some (Inl Invalid_hex_text)
     | Some v \<Rightarrow> do { out \<leftarrow> put_bytes cap out [v]; fromhex_loop cap text out })"

definition lfromhex :: "u8 list \<Rightarrow> (crypt_error + u8 list) option" where
  "lfromhex text =
    (let sz = length text in
     if sz div 2 mod 2 = 1 then Some (Inl Invalid_hex_text_size)
     else if int_length text
     then fromhex_loop (if sz > SMALL_CHUNK * 2 then sz div 2 else SMALL_CHUNK) text []
     else None)"

subsection \<open>The message authentication code of 64 bits\<close>

text \<open>The round constants and the rotation amounts.\<close>

definition hmac_k :: "u32 list" where
  "hmac_k = [0xd76aa478, 0xe8c7b756, 0x242070db, 0xc1bdceee, 0xf57c0faf, 0x4787c62a,
    0xa8304613, 0xfd469501, 0x698098d8, 0x8b44f7af, 0xffff5bb1, 0x895cd7be,
    0x6b901122, 0xfd987193, 0xa679438e, 0x49b40821, 0xf61e2562, 0xc040b340,
    0x265e5a51, 0xe9b6c7aa, 0xd62f105d, 0x02441453, 0xd8a1e681, 0xe7d3fbc8,
    0x21e1cde6, 0xc33707d6, 0xf4d50d87, 0x455a14ed, 0xa9e3e905, 0xfcefa3f8,
    0x676f02d9, 0x8d2a4c8a, 0xfffa3942, 0x8771f681, 0x6d9d6122, 0xfde5380c,
    0xa4beea44, 0x4bdecfa9, 0xf6bb4b60, 0xbebfbc70, 0x289b7ec6, 0xeaa127fa,
    0xd4ef3085, 0x04881d05, 0xd9d4d039, 0xe6db99e5, 0x1fa27cf8, 0xc4ac5665,
    0xf4292244, 0x432aff97, 0xab9423a7, 0xfc93a039, 0x655b59c3, 0x8f0ccc92,
    0xffeff47d, 0x85845dd1, 0x6fa87e4f, 0xfe2ce6e0, 0xa3014314, 0x4e0811a1,
    0xf7537e82, 0xbd3af235, 0x2ad7d2bb, 0xeb86d391]"

definition hmac_r :: "nat list" where
  "hmac_r = [7, 12, 17, 22, 7, 12, 17, 22, 7, 12, 17, 22, 7, 12, 17, 22,
    5, 9, 14, 20, 5, 9, 14, 20, 5, 9, 14, 20, 5, 9, 14, 20,
    4, 11, 16, 23, 4, 11, 16, 23, 4, 11, 16, 23, 4, 11, 16, 23,
    6, 10, 15, 21, 6, 10, 15, 21, 6, 10, 15, 21, 6, 10, 15, 21]"

definition LEFTROTATE :: "u32 \<Rightarrow> nat \<Rightarrow> u32" where
  "LEFTROTATE x c = push_bit c x OR drop_bit (32 - c) x"

text \<open>The choice of \<open>f\<close> and \<open>g\<close> in round \<open>i\<close>.\<close>

definition hmac_f :: "nat \<Rightarrow> u32 \<Rightarrow> u32 \<Rightarrow> u32 \<Rightarrow> u32" where
  "hmac_f i b c d =
    (if i < 16 then (b AND c) OR (NOT b AND d)
     else if i < 32 then (d AND b) OR (NOT d AND c)
     else if i < 48 then b XOR c XOR d
     else c XOR (b OR NOT d))"

definition hmac_g :: "nat \<Rightarrow> nat" where
  "hmac_g i =
    (if i < 16 then i else if i < 32 then (5 * i + 1) mod 16
     else if i < 48 then (3 * i + 5) mod 16 else (7 * i) mod 16)"

text \<open>\<open>n\<close> rounds from round \<open>i\<close>.\<close>

fun hmac_loop :: "u32 list \<Rightarrow> nat \<Rightarrow> nat \<Rightarrow> u32 \<times> u32 \<times> u32 \<times> u32 \<Rightarrow> u32 \<times> u32 \<times> u32 \<times> u32" where
  "hmac_loop w 0 i s = s"
| "hmac_loop w (Suc n) i (a, b, c, d) =
    hmac_loop w n (i + 1)
      (d, b + LEFTROTATE (a + hmac_f i b c d + hmac_k ! i + w ! hmac_g i) (hmac_r ! i), b, c)"

definition hmac :: "u32 list \<Rightarrow> u32 list \<Rightarrow> u32 list" where
  "hmac x y =
    (let w = concat (replicate 4 [x ! 1, x ! 0, y ! 1, y ! 0]);
         (a, b, c, d) = hmac_loop w 64 0 (0x67452301, 0xefcdab89, 0x98badcfe, 0x10325476)
     in [c XOR d, a XOR b])"

text \<open>The little endian word at an offset.\<close>

definition get_le32 :: "u8 list \<Rightarrow> nat \<Rightarrow> u32" where
  "get_le32 x i = ucast (x ! i) OR push_bit 8 (ucast (x ! (i + 1))) OR push_bit 16 (ucast (x ! (i + 2)))
     OR push_bit 24 (ucast (x ! (i + 3)))"

definition read64 :: "u8 list \<Rightarrow> u8 list \<Rightarrow> crypt_error + u32 list \<times> u32 list" where
  "read64 x y =
    (if length x \<noteq> 8 then Inl Invalid_uint64_x
     else if length y \<noteq> 8 then Inl Invalid_uint64_y
     else Inr ([get_le32 x 0, get_le32 x 4], [get_le32 y 0, get_le32 y 4]))"

definition pushqword :: "u32 list \<Rightarrow> u8 list" where
  "pushqword result = put_le32 (result ! 0) @ put_le32 (result ! 1)"

definition lhmac64 :: "u8 list \<Rightarrow> u8 list \<Rightarrow> crypt_error + u8 list" where
  "lhmac64 x y =
    (case read64 x y of Inl e \<Rightarrow> Inl e | Inr (x, y) \<Rightarrow> Inr (pushqword (hmac x y)))"

definition lhmac_hash :: "u8 list \<Rightarrow> u8 list \<Rightarrow> crypt_error + u8 list" where
  "lhmac_hash x text =
    (if length x \<noteq> 8 then Inl Invalid_uint64_key
     else (let key = [get_le32 x 0, get_le32 x 4];
               h = Hash text;
               htext = [get_le32 h 0, get_le32 h 4]
           in Inr (pushqword (hmac htext key))))"

subsection \<open>Diffie-Hellman\<close>

definition P :: u64 where
  "P = 0xffffffffffffffc5"

lemma drop_bit_1_less: "b \<noteq> 0 \<Longrightarrow> unat (drop_bit 1 b) < unat b" for b :: "'a::len word"
  using unat_drop_bit [of 1 b] by (simp add: unat_gt_0)

text \<open>The loop of \<open>mul_mod_p\<close>, one bit of \<open>b\<close> at a time.\<close>

function mul_loop :: "u64 \<Rightarrow> u64 \<Rightarrow> u64 \<Rightarrow> u64" where
  "mul_loop a b m =
    (if b = 0 then m
     else (let m = (if b AND 1 \<noteq> 0 then (let t = P - a in if m \<ge> t then m - t else m + a) else m);
               a = (if a \<ge> P - a then a * 2 - P else a * 2)
           in mul_loop a (drop_bit 1 b) m))"
  by pat_completeness auto
termination
  by (relation "measure (\<lambda>(a, b, m). unat b)") (auto dest: drop_bit_1_less)

definition mul_mod_p :: "u64 \<Rightarrow> u64 \<Rightarrow> u64" where
  "mul_mod_p a b = mul_loop a b 0"

text \<open>The recursion of \<open>pow_mod_p\<close> stops at the exponent 1 and nowhere else.\<close>

partial_function (option) pow_mod_p :: "u64 \<Rightarrow> u64 \<Rightarrow> u64 option" where
  "pow_mod_p a b =
    (if b = 1 then Some a
     else do {
       t \<leftarrow> pow_mod_p a (drop_bit 1 b);
       let t = mul_mod_p t t;
       Some (if b mod 2 \<noteq> 0 then mul_mod_p t a else t) })"

declare pow_mod_p.simps [code]

definition powmodp :: "u64 \<Rightarrow> u64 \<Rightarrow> u64 option" where
  "powmodp a b = pow_mod_p (if a > P then a mod P else a) b"

definition push64 :: "u64 \<Rightarrow> u8 list" where
  "push64 r = [ucast (r AND 0xff), ucast (drop_bit 8 r AND 0xff), ucast (drop_bit 16 r AND 0xff),
     ucast (drop_bit 24 r AND 0xff), ucast (drop_bit 32 r AND 0xff), ucast (drop_bit 40 r AND 0xff),
     ucast (drop_bit 48 r AND 0xff), ucast (drop_bit 56 r AND 0xff)]"

definition ldhsecret :: "u8 list \<Rightarrow> u8 list \<Rightarrow> (crypt_error + u8 list) option" where
  "ldhsecret x y =
    (case read64 x y of
       Inl e \<Rightarrow> Some (Inl e)
     | Inr (x, y) \<Rightarrow>
         (let xx = ucast (x ! 0) OR push_bit 32 (ucast (x ! 1));
              yy = ucast (y ! 0) OR push_bit 32 (ucast (y ! 1))
          in if xx = 0 \<or> yy = 0 then Some (Inl Cant_be_0)
             else do { r \<leftarrow> powmodp xx yy; Some (Inr (push64 r)) }))"

definition G :: u64 where
  "G = 5"

definition ldhexchange :: "u8 list \<Rightarrow> (crypt_error + u8 list) option" where
  "ldhexchange x =
    (if length x \<noteq> 8 then Some (Inl Invalid_dh_uint64_key)
     else (let x64 = ucast (get_le32 x 0) OR push_bit 32 (ucast (get_le32 x 4))
           in if x64 = 0 then Some (Inl Cant_be_0)
              else do { r \<leftarrow> powmodp G x64; Some (Inr (push64 r)) }))"

subsection \<open>Base64\<close>

definition encoding :: "u8 list" where
  "encoding = [65, 66, 67, 68, 69, 70, 71, 72, 73, 74, 75, 76, 77, 78, 79, 80,
    81, 82, 83, 84, 85, 86, 87, 88, 89, 90, 97, 98, 99, 100, 101, 102,
    103, 104, 105, 106, 107, 108, 109, 110, 111, 112, 113, 114, 115, 116, 117, 118,
    119, 120, 121, 122, 48, 49, 50, 51, 52, 53, 54, 55, 56, 57, 43, 47]"

definition decoding :: "int list" where
  "decoding = [62, - 1, - 1, - 1, 63, 52, 53, 54, 55, 56, 57, 58, 59, 60, 61, - 1,
    - 1, - 1, - 2, - 1, - 1, - 1, 0, 1, 2, 3, 4, 5, 6, 7, 8, 9,
    10, 11, 12, 13, 14, 15, 16, 17, 18, 19, 20, 21, 22, 23, 24, 25,
    - 1, - 1, - 1, - 1, - 1, - 1, 26, 27, 28, 29, 30, 31, 32, 33, 34, 35,
    36, 37, 38, 39, 40, 41, 42, 43, 44, 45, 46, 47, 48, 49, 50, 51]"

text \<open>The loop over groups of three bytes; it returns the bytes that are left.\<close>

fun b64_triples :: "nat \<Rightarrow> u8 list \<Rightarrow> u8 list \<Rightarrow> (u8 list \<times> u8 list) option" where
  "b64_triples cap (t0 # t1 # t2 # text) out =
    (let v = push_bit 16 (ucast t0) OR push_bit 8 (ucast t1) OR ucast t2 :: u32 in
     do {
       out \<leftarrow> put_bytes cap out [encoding ! unat (drop_bit 18 v), encoding ! unat (drop_bit 12 v AND 0x3f),
                encoding ! unat (drop_bit 6 v AND 0x3f), encoding ! unat (v AND 0x3f)];
       b64_triples cap text out })"
| "b64_triples cap text out = Some (text, out)"

text \<open>The \<open>switch\<close> over the bytes that are left; 61 is the character \<open>=\<close>.\<close>

definition b64_rest :: "u8 list \<Rightarrow> u8 list" where
  "b64_rest text =
    (case text of
       [t0] \<Rightarrow>
         (let v = ucast t0 :: u32
          in [encoding ! unat (drop_bit 2 v), encoding ! unat (push_bit 4 (v AND 3)), 61, 61])
     | [t0, t1] \<Rightarrow>
         (let v = push_bit 8 (ucast t0) OR ucast t1 :: u32
          in [encoding ! unat (drop_bit 10 v), encoding ! unat (drop_bit 4 v AND 0x3f),
              encoding ! unat (push_bit 2 (v AND 0xf)), 61])
     | _ \<Rightarrow> [])"

definition lb64encode :: "u8 list \<Rightarrow> u8 list option" where
  "lb64encode text =
    (let encode_sz = (length text + 2) div 3 * 4; cap = out_size encode_sz in
     if int encode_sz \<le> 2147483647
     then do {
       (rest, out) \<leftarrow> b64_triples cap text [];
       out \<leftarrow> put_bytes cap out (b64_rest rest);
       take_bytes encode_sz out }
     else None)"

definition b64index :: "u8 \<Rightarrow> int" where
  "b64index c = (if c < 43 then - 1 else if unat (c - 43) \<ge> length decoding then - 1
     else decoding ! unat (c - 43))"

text \<open>The inner loop reads characters until the array \<open>c\<close> holds four; others than those of the
  encoding are skipped.  The result is the text that follows, the array and the padding.\<close>

fun b64_read :: "u8 list \<Rightarrow> int list \<Rightarrow> nat \<Rightarrow> crypt_error + u8 list \<times> int list \<times> nat" where
  "b64_read [] c padding =
    (if length c = 4 then Inr ([], c, padding) else Inl Invalid_base64_text)"
| "b64_read (t # text) c padding =
    (if length c = 4 then Inr (t # text, c, padding)
     else (let v = b64index t in
           if v = - 1 then b64_read text c padding
           else b64_read text (c @ [v]) (if v = - 2 then padding + 1 else padding)))"

text \<open>The \<open>switch\<close> over the padding: the bytes of a group.\<close>

definition b64_group :: "int list \<Rightarrow> nat \<Rightarrow> crypt_error + u8 list" where
  "b64_group c padding =
    (if padding = 0 then
       (let v = push_bit 18 (of_int (c ! 0)) OR push_bit 12 (of_int (c ! 1))
                  OR push_bit 6 (of_int (c ! 2)) OR of_int (c ! 3) :: u32
        in Inr [ucast (drop_bit 16 v), ucast (drop_bit 8 v AND 0xff), ucast (v AND 0xff)])
     else if padding = 1 then
       (if c ! 3 \<noteq> - 2 \<or> c ! 2 AND 3 \<noteq> 0 then Inl Invalid_base64_text
        else (let v = push_bit 10 (of_int (c ! 0)) OR push_bit 4 (of_int (c ! 1))
                        OR of_int (drop_bit 2 (c ! 2)) :: u32
              in Inr [ucast (drop_bit 8 v), ucast (v AND 0xff)]))
     else if padding = 2 then
       (if c ! 3 \<noteq> - 2 \<or> c ! 2 \<noteq> - 2 \<or> c ! 1 AND 0xf \<noteq> 0 then Inl Invalid_base64_text
        else (let v = push_bit 2 (of_int (c ! 0)) OR of_int (drop_bit 4 (c ! 1)) :: u32
              in Inr [ucast v]))
     else Inl Invalid_base64_text)"

lemma b64_read_shorter:
  "b64_read ts c padding = Inr (rest, c', p) \<Longrightarrow> length rest \<le> length ts \<and>
    (length c < 4 \<longrightarrow> length rest < length ts)"
proof (induction ts c padding rule: b64_read.induct)
  case (1 c padding)
  then show ?case by (simp split: if_splits)
next
  case (2 t tl c padding)
  show ?case
  proof (cases "length c = 4")
    case True
    then show ?thesis using "2.prems" by simp
  next
    case False
    then show ?thesis using "2.prems" "2.IH" by (auto simp: Let_def split: if_splits)
  qed
qed

function b64_groups :: "nat \<Rightarrow> u8 list \<Rightarrow> u8 list \<Rightarrow> (crypt_error + u8 list) option" where
  "b64_groups cap text out =
    (if text = [] then Some (Inr out)
     else (case b64_read text [] 0 of
        Inl e \<Rightarrow> Some (Inl e)
      | Inr (rest, c, padding) \<Rightarrow>
          (case b64_group c padding of
             Inl e \<Rightarrow> Some (Inl e)
           | Inr bs \<Rightarrow> do { out \<leftarrow> put_bytes cap out bs; b64_groups cap rest out })))"
  by auto

termination
  by (relation "measure (\<lambda>(cap, text, out). length text)") (auto dest: b64_read_shorter)

definition lb64decode :: "u8 list \<Rightarrow> (crypt_error + u8 list) option" where
  "lb64decode text =
    (if int_length text then b64_groups (out_size ((length text + 3) div 4 * 3)) text [] else None)"

subsection \<open>Exclusive or\<close>

definition lxor_str :: "u8 list \<Rightarrow> u8 list \<Rightarrow> crypt_error + u8 list" where
  "lxor_str s1 s2 =
    (if s2 = [] then Inl Cant_xor_empty_string
     else Inr (map (\<lambda>i. s1 ! i XOR s2 ! (i mod length s2)) [0..<length s1]))"

declare mul_loop.simps [simp del] b64_groups.simps [simp del]

subsection \<open>Little endian words\<close>

lemma word_ff_mask: "(0xff :: 'a::len word) = mask 8"
  by (simp add: mask_eq_exp_minus_1)

lemma ucast_and_ff [simp]: "ucast (w AND 0xff) = (ucast w :: u8)" for w :: "'a::len word"
  unfolding word_ff_mask by (rule bit_word_eqI) (auto simp: bit_simps dest: bit_imp_le_length)

text \<open>The 64 bit number in eight bytes.\<close>

definition word64 :: "u8 list \<Rightarrow> u64" where
  "word64 x = ucast (get_le32 x 0) OR push_bit 32 (ucast (get_le32 x 4))"

lemma get_put_le32: "get_le32 (put_le32 w @ bs) 0 = w"
proof (rule bit_word_eqI)
  fix n assume "n < LENGTH(32)"
  then consider "n < 8" | "8 \<le> n" "n < 16" | "16 \<le> n" "n < 24" | "24 \<le> n" "n < 32" by fastforce
  then show "bit (get_le32 (put_le32 w @ bs) 0) n = bit w n"
    by cases (auto simp: get_le32_def put_le32_def bit_simps dest: bit_imp_le_length)
qed

lemma length_put_le32 [simp]: "length (put_le32 w) = 4"
  by (simp add: put_le32_def)

lemma get_put_le32_4: "get_le32 (put_le32 v @ put_le32 w) 4 = w"
proof -
  have "get_le32 (put_le32 v @ put_le32 w) 4 = get_le32 (put_le32 w @ []) 0"
    by (simp add: get_le32_def put_le32_def numeral_2_eq_2)
  then show ?thesis by (simp only: get_put_le32)
qed

lemma put_get_le32: "put_le32 (get_le32 (a # b # c # d # bs) 0) = [a, b, c, d]"
proof -
  define w :: u32 where "w = ucast a OR push_bit 8 (ucast b) OR push_bit 16 (ucast c) OR push_bit 24 (ucast d)"
  have "ucast w = a" "ucast (drop_bit 8 w) = b" "ucast (drop_bit 16 w) = c" "ucast (drop_bit 24 w) = d"
    unfolding w_def by (rule bit_word_eqI; auto simp: bit_simps dest: bit_imp_le_length)+
  then show ?thesis by (simp add: get_le32_def put_le32_def w_def)
qed

lemma put_get_le32_pair:
  assumes "length x = 8"
  shows "put_le32 (get_le32 x 0) @ put_le32 (get_le32 x 4) = x"
proof -
  from assms obtain a b c d e f g h where x: "x = [a, b, c, d, e, f, g, h]"
    by (auto simp: length_Suc_conv eval_nat_numeral)
  have "get_le32 x 4 = get_le32 [e, f, g, h] 0" by (simp add: x get_le32_def)
  then show ?thesis by (simp add: x put_get_le32)
qed

lemma push64_halves: "push64 r = put_le32 (ucast r) @ put_le32 (ucast (drop_bit 32 r))"
proof -
  have "ucast (drop_bit n (ucast r :: u32)) = (ucast (drop_bit n r) :: u8)" if "n + 8 \<le> 32" for n
    using that by (intro bit_word_eqI) (auto simp: bit_simps)
  moreover have "ucast (ucast v :: u32) = (ucast v :: u8)" for v :: u64
    by (rule bit_word_eqI) (auto simp: bit_simps)
  moreover have "ucast (drop_bit n (ucast (drop_bit 32 r) :: u32)) = (ucast (drop_bit (n + 32) r) :: u8)"
    if "n + 8 \<le> 32" for n
    using that by (intro bit_word_eqI) (auto simp: bit_simps ac_simps)
  ultimately show ?thesis by (simp add: push64_def put_le32_def)
qed

lemma word64_halves:
  "ucast (ucast r :: u32) OR push_bit 32 (ucast (ucast (drop_bit 32 r) :: u32)) = (r :: u64)"
proof (rule bit_word_eqI)
  fix n assume "n < LENGTH(64)"
  then show "bit (ucast (ucast r :: u32) OR push_bit 32 (ucast (ucast (drop_bit 32 r) :: u32)) :: u64) n = bit r n"
    by (cases "n < 32") (auto simp: bit_simps)
qed

lemma word64_push64 [simp]: "word64 (push64 r) = r"
  unfolding word64_def push64_halves get_put_le32 get_put_le32_4 by (rule word64_halves)

lemma length_push64 [simp]: "length (push64 r) = 8"
  by (simp add: push64_def)

lemma word64_eq_0:
  assumes "length x = 8"
  shows "word64 x = 0 \<longleftrightarrow> x = replicate 8 0"
proof -
  have low: "ucast (word64 x) = get_le32 x 0" "ucast (drop_bit 32 (word64 x)) = get_le32 x 4"
    unfolding word64_def by (rule bit_word_eqI; auto simp: bit_simps dest: bit_imp_le_length)+
  have "push64 (word64 x) = x" unfolding push64_halves low by (rule put_get_le32_pair [OF assms])
  moreover have "push64 0 = replicate 8 0" by (simp add: push64_def eval_nat_numeral)
  moreover have "word64 (replicate 8 0) = 0" by (simp add: word64_def get_le32_def)
  ultimately show ?thesis by metis
qed

subsection \<open>Arithmetic modulo the prime\<close>

definition p64 :: nat where
  "p64 = 18446744073709551557"

lemma unat_P: "unat P = p64"
  by (simp add: P_def p64_def)

lemma add_mod_P:
  assumes "unat a < p64" "unat m < p64"
  shows "unat (if m \<ge> P - a then m - (P - a) else m + a) = (unat m + unat a) mod p64"
proof -
  have pa: "unat (P - a) = p64 - unat a"
    using assms(1) by (simp add: unat_sub word_le_nat_alt unat_P)
  show ?thesis
  proof (cases "m \<ge> P - a")
    case True
    then have "unat (m - (P - a)) = unat m - (p64 - unat a)" by (simp add: unat_sub pa)
    moreover have "p64 \<le> unat m + unat a" using True assms by (simp add: word_le_nat_alt pa)
    ultimately show ?thesis using True assms by (simp add: le_mod_geq)
  next
    case False
    then have less: "unat m + unat a < p64" using assms(1) by (simp add: word_le_nat_alt pa)
    then have "unat (m + a) = unat m + unat a"
      by (intro unat_add_lem [THEN iffD1]) (simp add: p64_def)
    with False less show ?thesis by simp
  qed
qed

lemma double_mod_P: "(if a \<ge> P - a then a * 2 - P else a * 2) = (if a \<ge> P - a then a - (P - a) else a + a)"
  by simp

lemma p64_pos [simp]: "0 < p64"
  by (simp add: p64_def)

lemma mul_loop_mod:
  assumes "unat a < p64" "unat m < p64"
  shows "unat (mul_loop a b m) = (unat m + unat a * unat b) mod p64"
  using assms
proof (induction "unat b" arbitrary: a b m rule: less_induct)
  case less
  define m' where "m' = (if b AND 1 \<noteq> 0 then (if m \<ge> P - a then m - (P - a) else m + a) else m)"
  define a' where "a' = (if a \<ge> P - a then a * 2 - P else a * 2)"
  have "b AND 1 \<noteq> 0 \<longleftrightarrow> unat b mod 2 = 1"
    using unat_and_mask [of b 1] by (auto simp flip: unat_eq_zero)
  then have m': "unat m' = (unat m + unat a * (unat b mod 2)) mod p64"
    using add_mod_P [OF less.prems] less.prems(2) unfolding m'_def by (cases "unat b mod 2 = 1") simp_all
  have a': "unat a' = (2 * unat a) mod p64"
    using add_mod_P [OF less.prems(1) less.prems(1)] by (simp add: a'_def double_mod_P mult_2 del: if_cancel)
  show ?case
  proof (cases "b = 0")
    case True
    then show ?thesis using less.prems(2) by (simp add: mul_loop.simps)
  next
    case False
    have "mul_loop a b m = mul_loop a' (drop_bit 1 b) m'"
      using False by (subst mul_loop.simps) (simp add: Let_def a'_def m'_def)
    also have "unat \<dots> = (unat m' + unat a' * unat (drop_bit 1 b)) mod p64"
      by (rule less.hyps) (simp_all only: drop_bit_1_less [OF False] a' m' mod_less_divisor p64_pos)
    also have "\<dots> = (unat m + unat a * (unat b mod 2) + 2 * unat a * (unat b div 2)) mod p64"
    proof -
      have "unat (drop_bit 1 b) = unat b div 2" using unat_drop_bit [of 1 b] by simp
      then show ?thesis unfolding a' m' by (simp only: mod_add_left_eq) (intro mod_add_cong mod_mult_left_eq refl)
    qed
    also have "unat m + unat a * (unat b mod 2) + 2 * unat a * (unat b div 2)
        = unat m + unat a * (unat b mod 2 + 2 * (unat b div 2))"
      by (simp only: distrib_left mult.assoc mult.left_commute [of 2] add.assoc)
    also have "unat b mod 2 + 2 * (unat b div 2) = unat b" by presburger
    finally show ?thesis .
  qed
qed

lemma mul_mod_p_mod: "unat a < p64 \<Longrightarrow> unat (mul_mod_p a b) = (unat a * unat b) mod p64"
  using mul_loop_mod [of a 0 b] by (simp add: mul_mod_p_def)

text \<open>\<open>pow_mod_p\<close> returns for every exponent but 0.\<close>

lemma pow_mod_p_mod:
  assumes "unat a < p64" "b \<noteq> 0"
  shows "\<exists>r. pow_mod_p a b = Some r \<and> unat r = unat a ^ unat b mod p64"
  using assms(2)
proof (induction "unat b" arbitrary: b rule: less_induct)
  case less
  show ?case
  proof (cases "b = 1")
    case True
    then show ?thesis using assms(1) by (simp add: pow_mod_p.simps)
  next
    case False
    have half: "unat (drop_bit 1 b) = unat b div 2" using unat_drop_bit [of 1 b] by simp
    have "unat b \<noteq> 1" using False by (metis unat_1 word_unat_eq_iff)
    moreover have "0 < unat b" using less.prems by (simp add: unat_gt_0)
    ultimately have "0 < unat b div 2" by linarith
    then have "drop_bit 1 b \<noteq> 0" using half by (metis less_numeral_extra(3) unat_0)
    then obtain t where t: "pow_mod_p a (drop_bit 1 b) = Some t" "unat t = unat a ^ (unat b div 2) mod p64"
      using less.hyps [of "drop_bit 1 b"] drop_bit_1_less [OF less.prems] half by auto
    then have tp: "unat t < p64" by simp
    define u where "u = mul_mod_p t t"
    have u: "unat u = (unat a ^ (unat b div 2) * unat a ^ (unat b div 2)) mod p64"
      using mul_mod_p_mod [OF tp, of t] by (simp add: u_def t(2) mod_simps)
    have up: "unat u < p64" unfolding u by simp
    have odd: "b mod 2 \<noteq> 0 \<longleftrightarrow> unat b mod 2 = 1"
      using unat_mod_distrib [of b 2] by (auto simp flip: unat_eq_zero)
    have "pow_mod_p a b = Some (if b mod 2 \<noteq> 0 then mul_mod_p u a else u)"
      using False t(1) by (subst pow_mod_p.simps) (simp add: u_def Let_def)
    moreover have "unat (if b mod 2 \<noteq> 0 then mul_mod_p u a else u) = unat a ^ unat b mod p64"
    proof (cases "unat b mod 2 = 1")
      case True
      then have e: "unat b = Suc (unat b div 2 + unat b div 2)" by presburger
      have "unat (mul_mod_p u a) = unat a ^ Suc (unat b div 2 + unat b div 2) mod p64"
        using mul_mod_p_mod [OF up, of a] by (simp add: u mod_simps power_add ac_simps)
      then show ?thesis using True odd e by simp
    next
      case False
      then have e: "unat b = unat b div 2 + unat b div 2" by presburger
      have "unat u = unat a ^ (unat b div 2 + unat b div 2) mod p64"
        by (simp add: u power_add)
      then show ?thesis using False odd e by simp
    qed
    ultimately show ?thesis by blast
  qed
qed

text \<open>For the exponent 0 the recursion does not end; the callers exclude it.\<close>

lemma pow_mod_p_0: "pow_mod_p a 0 = None"
proof -
  have "b \<noteq> 0" if "pow_mod_p a b = Some r" for a b r
    using that
  proof (rule pow_mod_p.raw_induct [rotated])
    fix pow a b y
    assume IH: "\<And>a b y. pow a b = Some y \<Longrightarrow> b \<noteq> 0"
      and step: "(if b = 1 then Some a
        else do {
          t \<leftarrow> pow a (drop_bit 1 b);
          let t = mul_mod_p t t;
          Some (if b mod 2 \<noteq> 0 then mul_mod_p t a else t) }) = Some y"
    show "b \<noteq> 0"
    proof
      assume b: "b = 0"
      then have "pow a 0 = None" using IH [of a 0] by (cases "pow a 0") auto
      with step b show False by simp
    qed
  qed
  then show ?thesis by (cases "pow_mod_p a 0") auto
qed

subsection \<open>Diffie-Hellman\<close>

lemma powmodp_mod:
  assumes "a \<noteq> P" "b \<noteq> 0"
  shows "\<exists>r. powmodp a b = Some r \<and> unat r = unat a ^ unat b mod p64"
proof -
  define a' where "a' = (if a > P then a mod P else a)"
  have "unat a' = unat a mod p64"
  proof (cases "a > P")
    case True
    then show ?thesis by (simp add: a'_def unat_mod_distrib unat_P)
  next
    case False
    with assms(1) have "unat a < p64" by (simp flip: unat_P add: word_less_nat_alt [symmetric])
    with False show ?thesis by (simp add: a'_def)
  qed
  then show ?thesis
    using pow_mod_p_mod [of a' b] assms(2) by (simp add: powmodp_def a'_def [symmetric] mod_simps)
qed

text \<open>The base \<open>P\<close> itself is not reduced.\<close>

lemma powmodp_P: "powmodp P 1 = Some P"
  by (simp add: powmodp_def pow_mod_p.simps)

lemma ldhexchange_eq:
  assumes "length x = 8" "word64 x \<noteq> 0"
  shows "\<exists>r. ldhexchange x = Some (Inr (push64 r)) \<and> unat r = 5 ^ unat (word64 x) mod p64"
proof -
  have "G \<noteq> P" "unat G = 5" by (simp_all add: G_def P_def)
  with powmodp_mod [of G "word64 x"] assms show ?thesis
    by (auto simp: ldhexchange_def Let_def word64_def [symmetric])
qed

lemma ldhsecret_eq:
  assumes "length x = 8" "length y = 8" "word64 x \<noteq> 0" "word64 y \<noteq> 0" "word64 x \<noteq> P"
  shows "\<exists>r. ldhsecret x y = Some (Inr (push64 r)) \<and> unat r = unat (word64 x) ^ unat (word64 y) mod p64"
  using powmodp_mod [of "word64 x" "word64 y"] assms
  by (auto simp: ldhsecret_def read64_def Let_def word64_def [symmetric])

lemma coprime_p64: "coprime (5 ^ n) p64"
proof -
  have "coprime 5 p64" unfolding coprime_iff_gcd_eq_1 by (simp add: p64_def gcd_non_0_nat)
  then show ?thesis by simp
qed

lemma power_5_nonzero: "5 ^ n mod p64 \<noteq> 0"
proof
  assume "5 ^ n mod p64 = 0"
  then have "p64 dvd 5 ^ n" by presburger
  then have "p64 dvd 1" using coprime_p64 [of n] by (metis coprime_absorb_right coprime_commute is_unit_gcd gcd_nat.absorb_iff1 coprime_iff_gcd_eq_1)
  then show False by (simp add: p64_def)
qed

text \<open>C9: The Diffie-Hellman exchange: for two private keys of eight bytes, neither of them zero,
  both public keys are computed and both parties derive the same secret from the other's
  public key, the generator raised to the product of the private keys modulo the prime.\<close>

theorem dh_agreement:
  assumes "length x = 8" "length y = 8" "x \<noteq> replicate 8 0" "y \<noteq> replicate 8 0"
  shows "\<exists>px py s. ldhexchange x = Some (Inr px) \<and> ldhexchange y = Some (Inr py) \<and>
    ldhsecret px y = Some (Inr s) \<and> ldhsecret py x = Some (Inr s) \<and>
    unat (word64 s) = 5 ^ (unat (word64 x) * unat (word64 y)) mod unat P"
proof -
  have nz: "word64 x \<noteq> 0" "word64 y \<noteq> 0" using assms word64_eq_0 by auto
  obtain rx ry where px: "ldhexchange x = Some (Inr (push64 rx))" "unat rx = 5 ^ unat (word64 x) mod p64"
    and py: "ldhexchange y = Some (Inr (push64 ry))" "unat ry = 5 ^ unat (word64 y) mod p64"
    using ldhexchange_eq [OF assms(1) nz(1)] ldhexchange_eq [OF assms(2) nz(2)] by blast
  have ok: "rx \<noteq> 0" "ry \<noteq> 0" "rx \<noteq> P" "ry \<noteq> P"
    using px(2) py(2) power_5_nonzero mod_less_divisor [OF p64_pos] unat_P by (metis less_irrefl unat_0)+
  obtain s1 where s1: "ldhsecret (push64 rx) y = Some (Inr (push64 s1))" "unat s1 = unat rx ^ unat (word64 y) mod p64"
    using ldhsecret_eq [of "push64 rx" y] assms nz ok by auto
  obtain s2 where s2: "ldhsecret (push64 ry) x = Some (Inr (push64 s2))" "unat s2 = unat ry ^ unat (word64 x) mod p64"
    using ldhsecret_eq [of "push64 ry" x] assms nz ok by auto
  have v: "unat s1 = 5 ^ (unat (word64 x) * unat (word64 y)) mod p64" "unat s2 = 5 ^ (unat (word64 x) * unat (word64 y)) mod p64"
    unfolding s1(2) s2(2) px(2) py(2) by (simp_all add: power_mod power_mult [symmetric] mult.commute)
  then have "s1 = s2" by (simp add: word_unat_eq_iff)
  with px(1) py(1) s1(1) s2(1) v unat_P show ?thesis by auto
qed


theorem dh_agreement_witness:
  "\<exists>px py s. ldhexchange [7, 0, 0, 0, 0, 0, 0, 0] = Some (Inr px) \<and>
    ldhexchange [1, 2, 3, 4, 5, 6, 7, 8] = Some (Inr py) \<and>
    ldhsecret px [1, 2, 3, 4, 5, 6, 7, 8] = Some (Inr s) \<and>
    ldhsecret py [7, 0, 0, 0, 0, 0, 0, 0] = Some (Inr s)"
proof -
  have "[7, 0, 0, 0, 0, 0, 0, 0 :: u8] \<noteq> replicate 8 0" "[1, 2, 3, 4, 5, 6, 7, 8 :: u8] \<noteq> replicate 8 0"
    by (rule notI, drule arg_cong [of _ _ hd], simp)+
  with dh_agreement [of "[7, 0, 0, 0, 0, 0, 0, 0]" "[1, 2, 3, 4, 5, 6, 7, 8]"] show ?thesis by auto
qed

text \<open>A random key is never zero, so that it is always accepted as a private key of the
  Diffie-Hellman exchange.\<close>

lemma randomkey_accepted: "\<exists>p. ldhexchange (lrandomkey random) = Some (Inr p) \<and> length p = 8"
proof -
  define tmp :: "u8 list" where "tmp = map (\<lambda>i. ucast (random i AND 0xff)) [0..<8]"
  have len: "length (lrandomkey random) = 8"
    by (simp add: lrandomkey_def Let_def)
  have "lrandomkey random \<noteq> replicate 8 0"
  proof
    assume z: "lrandomkey random = replicate 8 0"
    show False
    proof (cases "foldl (\<lambda>x t. x XOR t) 0 tmp = 0")
      case True
      then have k: "lrandomkey random = tmp[0 := tmp ! 0 OR 1]"
        by (simp add: lrandomkey_def Let_def tmp_def)
      have "tmp ! 0 OR 1 = lrandomkey random ! 0" unfolding k by (simp add: tmp_def)
      then have "tmp ! 0 OR 1 = 0" unfolding z by simp
      then have "bit (tmp ! 0 OR 1) 0 = bit (0 :: u8) 0" by simp
      then show False by (simp add: bit_or_iff)
    next
      case False
      then have "tmp = replicate 8 0" using z by (simp add: lrandomkey_def Let_def tmp_def)
      with False show False by (simp add: eval_nat_numeral)
    qed
  qed
  then show ?thesis
    using ldhexchange_eq [OF len] word64_eq_0 [OF len] by auto
qed

subsection \<open>The hash and the message authentication code\<close>

lemma length_Hash: "length (Hash str) = 8"
  by (simp add: Hash_def split: prod.split)

text \<open>\<open>lhmac_hash\<close> is the composition of the other two functions, the 64 bit code of the
  text's hash key under the key; it fails exactly for a key that is not of eight bytes.\<close>

lemma hmac_hash_composes:
  "lhmac_hash key str = (if length key = 8 then lhmac64 (lhashkey str) key else Inl Invalid_uint64_key)"
  by (simp add: lhmac_hash_def lhmac64_def read64_def lhashkey_def length_Hash Let_def)

subsection \<open>Exclusive or\<close>

text \<open>The exclusive or with a key undoes itself, for a text of any length and any key but the
  empty one, which is refused.\<close>

lemma xor_str_involution:
  "lxor_str s [] = Inl Cant_xor_empty_string \<and>
   (k \<noteq> [] \<longrightarrow> (\<exists>c. lxor_str s k = Inr c \<and> length c = length s \<and> lxor_str c k = Inr s))"
  by (auto simp: lxor_str_def xor.assoc intro!: nth_equalityI)

subsection \<open>Hexadecimal text\<close>

lemma hex_digits_value:
  fixes n :: u8
  assumes "unat n < 16"
  shows "HEX (hex_digits ! unat n) = n"
proof -
  have "\<forall>i<16. HEX (hex_digits ! i) = of_nat i" by code_simp
  then have "HEX (hex_digits ! unat n) = of_nat (unat n)" using assms by blast
  then show ?thesis by simp
qed

lemma hex_pair_digits: "hex_pair (hex_digits ! unat (drop_bit 4 t)) (hex_digits ! unat (t AND 0xf)) = Some t"
proof -
  have hi: "unat (drop_bit 4 t) < 16" using unat_drop_bit [of 4 t] unsigned_less [of t, where 'a = nat] by simp
  have lo: "unat (t AND 0xf) < 16" using unat_and_mask [of t 4] by (simp add: mask_eq_exp_minus_1)
  have "push_bit 4 (drop_bit 4 t) OR (t AND mask 4) = t"
    by (rule bit_word_eqI) (auto simp: bit_simps)
  then have "push_bit 4 (drop_bit 4 t) OR (t AND 0xf) = t" by (simp add: mask_eq_exp_minus_1)
  moreover have "\<not> 16 < drop_bit 4 t" "\<not> 16 < (t AND 0xf)" using hi lo by (simp_all add: word_less_nat_alt)
  ultimately show ?thesis
    unfolding hex_pair_def hex_digits_value [OF hi] hex_digits_value [OF lo] Let_def by simp
qed

text \<open>The text of the hexadecimal digits of a list of bytes.\<close>

definition hex_text :: "u8 list \<Rightarrow> u8 list" where
  "hex_text ts = concat (map (\<lambda>t. [hex_digits ! unat (drop_bit 4 t), hex_digits ! unat (t AND 0xf)]) ts)"

lemma hex_text_simps [simp]:
  "hex_text [] = []"
  "hex_text (t # ts) = hex_digits ! unat (drop_bit 4 t) # hex_digits ! unat (t AND 0xf) # hex_text ts"
  by (simp_all add: hex_text_def)

lemma length_hex_text [simp]: "length (hex_text ts) = 2 * length ts"
  by (induction ts) simp_all

lemma tohex_loop_text:
  "length out + 2 * length ts \<le> cap \<Longrightarrow> tohex_loop cap ts out = Some (out @ hex_text ts)"
  by (induction ts arbitrary: out) (simp_all add: put_bytes_def)

lemma fromhex_loop_text:
  "length out + length ts \<le> cap \<Longrightarrow> fromhex_loop cap (hex_text ts) out = Some (Inr (out @ ts))"
  by (induction ts arbitrary: out) (simp_all add: put_bytes_def hex_pair_digits)

text \<open>C34: The hexadecimal codec: encoding gives two digits per byte.  Decoding gives the bytes back
  exactly when there is an even number of them; for an odd number the test of the size, which
  looks at the second bit of the size instead of the first, refuses the text.\<close>

theorem hex_roundtrip:
  assumes "length ts \<le> 1073741819"
  shows "\<exists>h. ltohex ts = Some h \<and> length h = 2 * length ts \<and>
    lfromhex h = Some (if even (length ts) then Inr ts else Inl Invalid_hex_text_size)"
proof -
  have "ltohex ts = Some (hex_text ts)"
    using assms by (simp add: ltohex_def int_length_def Let_def tohex_loop_text take_bytes_def SMALL_CHUNK_def)
  moreover have "lfromhex (hex_text ts) = Some (if even (length ts) then Inr ts else Inl Invalid_hex_text_size)"
    using assms by (auto simp: lfromhex_def int_length_def Let_def fromhex_loop_text SMALL_CHUNK_def odd_iff_mod_2_eq_one)
  ultimately show ?thesis by auto
qed

theorem hex_roundtrip_witness:
  "\<exists>h. ltohex [0xAB] = Some h \<and> length h = 2 \<and> lfromhex h = Some (Inl Invalid_hex_text_size)"
  using hex_roundtrip [of "[0xAB]"] by simp

text \<open>The characters the decoder accepts as digits: the decimal digits and everything between
  \<open>W\<close> and \<open>g\<close>.\<close>

definition hex_accepted :: "u8 \<Rightarrow> bool" where
  "hex_accepted c \<longleftrightarrow> 48 \<le> c \<and> c \<le> 57 \<or> 87 \<le> c \<and> c \<le> 103"

lemma HEX_accepted: "HEX c \<le> 16 \<longleftrightarrow> hex_accepted c"
proof -
  have "unat (c - 87) = (if 87 \<le> unat c then unat c - 87 else unat c + 256 - 87)"
    using unat_sub_if_size [of c 87] by (simp add: word_size)
  then show ?thesis
    by (auto simp: HEX_def hex_accepted_def word_le_nat_alt unat_sub)
qed

lemma hex_pair_None: "hex_pair c d = None \<longleftrightarrow> \<not> (hex_accepted c \<and> hex_accepted d)"
  unfolding hex_pair_def Let_def HEX_accepted [symmetric] by (auto simp: not_le)

lemma hex_accepted_0: "\<not> hex_accepted 0"
  by (simp add: hex_accepted_def)

lemma fromhex_loop_result:
  assumes "length out + length ts div 2 \<le> cap"
  shows "\<exists>r. fromhex_loop cap ts out = Some r \<and>
    (isl r \<longleftrightarrow> odd (length ts) \<or> (\<exists>c\<in>set ts. \<not> hex_accepted c))"
  using assms
proof (induction cap ts out rule: fromhex_loop.induct)
  case (2 cap c out)
  have "hex_pair c 0 = None" by (simp add: hex_pair_None hex_accepted_0)
  then show ?case by simp
next
  case (3 cap c d ts out)
  show ?case
  proof (cases "hex_pair c d")
    case None
    then have "\<not> hex_accepted c \<or> \<not> hex_accepted d" using hex_pair_None by auto
    then show ?thesis by (auto simp: None)
  next
    case (Some v)
    then have "hex_accepted c" "hex_accepted d" using hex_pair_None [of c d] by auto
    with Some 3 show ?thesis by (simp add: put_bytes_def)
  qed
qed simp

text \<open>C35: What the hexadecimal decoder refuses: exactly the texts whose size is not a multiple of
  four and those with a character that is neither a decimal digit nor between \<open>W\<close> and \<open>g\<close>.  It
  never writes past its buffer.  So it accepts ten characters that are no digits as
  0 to 9, and the letter \<open>g\<close> as 16.\<close>

theorem hex_errors:
  assumes "length ts \<le> 2147483639"
  shows "\<exists>r. lfromhex ts = Some r \<and>
    (isl r \<longleftrightarrow> length ts mod 4 \<noteq> 0 \<or> (\<exists>c\<in>set ts. \<not> hex_accepted c))"
proof (cases "length ts div 2 mod 2 = 1")
  case True
  then have "length ts mod 4 \<noteq> 0" by presburger
  with True show ?thesis by (simp add: lfromhex_def Let_def)
next
  case False
  then have "odd (length ts) \<longleftrightarrow> length ts mod 4 \<noteq> 0" by presburger
  with False assms fromhex_loop_result [of "[]" ts] show ?thesis
    by (simp add: lfromhex_def Let_def int_length_def SMALL_CHUNK_def)
qed

theorem hex_errors_witness:
  "\<exists>r. lfromhex [103, 87, 48, 49] = Some r \<and> \<not> isl r"
  using hex_errors [of "[103, 87, 48, 49]"] by (auto simp: hex_accepted_def)

subsection \<open>Base64\<close>

lemma b64index_encoding:
  assumes "n < 64"
  shows "b64index (encoding ! n) = int n"
proof -
  have "\<forall>i<64. b64index (encoding ! i) = int i" by code_simp
  then show ?thesis using assms by blast
qed

lemma b64index_pad: "b64index 61 = - 2"
  by code_simp

text \<open>The six bit numbers of a word, as the encoder takes them and as the decoder gets them back.\<close>

lemma unat_and_3f: "unat (v AND 0x3f) < 64" for v :: u32
  using unat_and_mask [of v 6] by (simp add: mask_eq_exp_minus_1)

lemma of_int_unat: "of_int (int (unat v)) = v" for v :: "'a::len word"
  by simp

lemma uint_neq_minus_2: "uint w \<noteq> - 2"
  using uint_ge_0 [of w] by linarith

lemma int_unat_and: "int (unat v) AND int (unat w) = int (unat (v AND w))" for v w :: "'a::len word"
  unfolding uint_nat [symmetric] by (rule unsigned_and_eq [symmetric])

lemma int_unat_drop_bit: "drop_bit n (int (unat v)) = int (unat (drop_bit n v))" for v :: "'a::len word"
  unfolding uint_nat [symmetric] by (rule bit_eqI) (auto simp: bit_simps dest: bit_imp_le_length)

text \<open>The four characters of three bytes.\<close>

definition b64_quad :: "u8 \<Rightarrow> u8 \<Rightarrow> u8 \<Rightarrow> u8 list" where
  "b64_quad t0 t1 t2 =
    (let v = push_bit 16 (ucast t0) OR push_bit 8 (ucast t1) OR ucast t2 :: u32
     in [encoding ! unat (drop_bit 18 v), encoding ! unat (drop_bit 12 v AND 0x3f),
         encoding ! unat (drop_bit 6 v AND 0x3f), encoding ! unat (v AND 0x3f)])"

lemma u32_3f: "(0x3f :: u32) = mask 6"
  by (simp add: mask_eq_exp_minus_1)

lemma b64_group_0: "b64_group [a, b, c, d] 0 =
    (let v = push_bit 18 (of_int a) OR push_bit 12 (of_int b) OR push_bit 6 (of_int c) OR of_int d :: u32
     in Inr [ucast (drop_bit 16 v), ucast (drop_bit 8 v), ucast v])"
  by (simp add: b64_group_def Let_def)

lemma b64_group_quad:
  "\<exists>c. map b64index (b64_quad t0 t1 t2) = c \<and> (\<forall>x\<in>set c. 0 \<le> x) \<and> b64_group c 0 = Inr [t0, t1, t2]"
proof -
  define v :: u32 where "v = push_bit 16 (ucast t0) OR push_bit 8 (ucast t1) OR ucast t2"
  have top: "bit v n \<Longrightarrow> n < 24" for n
    by (auto simp: v_def bit_simps dest: bit_imp_le_length)
  have "drop_bit 18 v = drop_bit 18 v AND 0x3f"
    unfolding u32_3f by (rule bit_word_eqI) (auto simp: bit_simps dest: top)
  then have b: "unat (drop_bit 18 v) < 64" using unat_and_3f by metis
  have c: "map b64index (b64_quad t0 t1 t2) = [int (unat (drop_bit 18 v)), int (unat (drop_bit 12 v AND 0x3f)),
      int (unat (drop_bit 6 v AND 0x3f)), int (unat (v AND 0x3f))]"
    unfolding b64_quad_def Let_def v_def [symmetric] list.map
    by (simp only: b64index_encoding [OF b] b64index_encoding [OF unat_and_3f])
  have v: "push_bit 18 (drop_bit 18 v) OR push_bit 12 (drop_bit 12 v AND 0x3f)
      OR push_bit 6 (drop_bit 6 v AND 0x3f) OR (v AND 0x3f) = v"
  proof (rule bit_word_eqI)
    fix n assume "n < LENGTH(32)"
    then consider "n < 6" | "6 \<le> n" "n < 12" | "12 \<le> n" "n < 18" | "18 \<le> n" "n < 32" by fastforce
    then show "bit (push_bit 18 (drop_bit 18 v) OR push_bit 12 (drop_bit 12 v AND 0x3f)
        OR push_bit 6 (drop_bit 6 v AND 0x3f) OR (v AND 0x3f)) n = bit v n"
      unfolding u32_3f by cases (auto simp: bit_simps)
  qed
  have bytes: "ucast (drop_bit 16 v) = t0" "ucast (drop_bit 8 v) = t1" "ucast v = t2"
    unfolding v_def by (rule bit_word_eqI; auto simp: bit_simps dest: bit_imp_le_length)+
  have "b64_group (map b64index (b64_quad t0 t1 t2)) 0 = Inr [t0, t1, t2]"
    unfolding c b64_group_0 Let_def by (simp only: of_int_unat v bytes)
  then show ?thesis by (auto simp: c)
qed

lemma ucast_up_down: "ucast (ucast t :: u32) = t" for t :: u8
  by (rule bit_word_eqI) (auto simp: bit_simps)

lemma b64_group_rest1:
  "map b64index (b64_rest [t0]) = [int (unat (drop_bit 2 (ucast t0 :: u32))), int (unat (push_bit 4 (ucast t0 AND 3 :: u32))), - 2, - 2]"
  "b64_group (map b64index (b64_rest [t0])) 2 = Inr [t0]"
proof -
  define v :: u32 where "v = ucast t0"
  have m3: "(3 :: u32) = mask 2" and mf: "(0xf :: u32) = mask 4" by (simp_all add: mask_eq_exp_minus_1)
  have "drop_bit 2 v = drop_bit 2 v AND 0x3f" "push_bit 4 (v AND 3) = push_bit 4 (v AND 3) AND 0x3f"
    unfolding u32_3f m3 by (rule bit_word_eqI; auto simp: v_def bit_simps dest: bit_imp_le_length)+
  then have b: "unat (drop_bit 2 v) < 64" "unat (push_bit 4 (v AND 3)) < 64" using unat_and_3f by metis+
  show c: "map b64index (b64_rest [t0]) = [int (unat (drop_bit 2 (ucast t0 :: u32))), int (unat (push_bit 4 (ucast t0 AND 3 :: u32))), - 2, - 2]"
    unfolding b64_rest_def Let_def v_def [symmetric] list.map list.case
    by (simp only: b64index_encoding [OF b(1)] b64index_encoding [OF b(2)] b64index_pad)
  have z: "push_bit 4 (v AND 3) AND 0xf = 0" unfolding mf by (rule bit_word_eqI) (auto simp: bit_simps)
  have v: "push_bit 2 (drop_bit 2 v) OR drop_bit 4 (push_bit 4 (v AND 3)) = v"
  proof (rule bit_word_eqI)
    fix n assume "n < LENGTH(32)"
    moreover have "Suc (Suc (n - 2)) = n" if "\<not> n < 2" using that by arith
    ultimately show "bit (push_bit 2 (drop_bit 2 v) OR drop_bit 4 (push_bit 4 (v AND 3))) n = bit v n"
      unfolding m3 by (cases "n < 2") (auto simp: bit_simps)
  qed
  have g: "b64_group [a, b, - 2, - 2] 2 = (if b AND 0xf \<noteq> 0 then Inl Invalid_base64_text
      else Inr [ucast (push_bit 2 (of_int a) OR of_int (drop_bit 4 b) :: u32)])" for a b
    by (simp add: b64_group_def Let_def)
  have i: "int (unat w) AND 0xf = int (unat (w AND 0xf))" for w :: u32
    using int_unat_and [of w "0xf"] by simp
  show "b64_group (map b64index (b64_rest [t0])) 2 = Inr [t0]"
    unfolding c v_def [symmetric] g i int_unat_drop_bit of_int_unat z v
    using ucast_up_down by (simp add: v_def)
qed

lemma b64_group_rest2:
  "map b64index (b64_rest [t0, t1]) = [int (unat (drop_bit 10 (push_bit 8 (ucast t0) OR ucast t1 :: u32))),
     int (unat (drop_bit 4 (push_bit 8 (ucast t0) OR ucast t1 :: u32) AND 0x3f)),
     int (unat (push_bit 2 ((push_bit 8 (ucast t0) OR ucast t1 :: u32) AND 0xf))), - 2]"
  "b64_group (map b64index (b64_rest [t0, t1])) 1 = Inr [t0, t1]"
proof -
  define v :: u32 where "v = push_bit 8 (ucast t0) OR ucast t1"
  have m3: "(3 :: u32) = mask 2" and mf: "(0xf :: u32) = mask 4" by (simp_all add: mask_eq_exp_minus_1)
  have "drop_bit 10 v = drop_bit 10 v AND 0x3f" "push_bit 2 (v AND 0xf) = push_bit 2 (v AND 0xf) AND 0x3f"
    unfolding u32_3f mf by (rule bit_word_eqI; auto simp: v_def bit_simps dest: bit_imp_le_length)+
  then have b: "unat (drop_bit 10 v) < 64" "unat (push_bit 2 (v AND 0xf)) < 64" using unat_and_3f by metis+
  show c: "map b64index (b64_rest [t0, t1]) = [int (unat (drop_bit 10 (push_bit 8 (ucast t0) OR ucast t1 :: u32))),
     int (unat (drop_bit 4 (push_bit 8 (ucast t0) OR ucast t1 :: u32) AND 0x3f)),
     int (unat (push_bit 2 ((push_bit 8 (ucast t0) OR ucast t1 :: u32) AND 0xf))), - 2]"
    unfolding b64_rest_def Let_def v_def [symmetric] list.map list.case
    by (simp only: b64index_encoding [OF b(1)] b64index_encoding [OF b(2)] b64index_encoding [OF unat_and_3f] b64index_pad)
  have z: "push_bit 2 (v AND 0xf) AND 3 = 0" unfolding m3 by (rule bit_word_eqI) (auto simp: bit_simps)
  have v: "push_bit 10 (drop_bit 10 v) OR push_bit 4 (drop_bit 4 v AND 0x3f) OR drop_bit 2 (push_bit 2 (v AND 0xf)) = v"
  proof (rule bit_word_eqI)
    fix n assume "n < LENGTH(32)"
    then consider "n < 4" | "4 \<le> n" "n < 10" | "10 \<le> n" "n < 32" by fastforce
    then show "bit (push_bit 10 (drop_bit 10 v) OR push_bit 4 (drop_bit 4 v AND 0x3f) OR drop_bit 2 (push_bit 2 (v AND 0xf))) n = bit v n"
      unfolding u32_3f mf by cases (auto simp: bit_simps)
  qed
  have bytes: "ucast (drop_bit 8 v) = t0" "ucast v = t1"
    unfolding v_def by (rule bit_word_eqI; auto simp: bit_simps dest: bit_imp_le_length)+
  have g: "b64_group [a, b, c, - 2] 1 = (if c AND 3 \<noteq> 0 then Inl Invalid_base64_text
      else (let v = push_bit 10 (of_int a) OR push_bit 4 (of_int b) OR of_int (drop_bit 2 c) :: u32
            in Inr [ucast (drop_bit 8 v), ucast v]))" for a b c
    by (simp add: b64_group_def Let_def)
  have i: "int (unat w) AND 3 = int (unat (w AND 3))" for w :: u32
    using int_unat_and [of w 3] by simp
  show "b64_group (map b64index (b64_rest [t0, t1])) 1 = Inr [t0, t1]"
    unfolding c v_def [symmetric] g i int_unat_drop_bit of_int_unat z v Let_def
    by (simp add: bytes)
qed

text \<open>The encoding of a list of bytes, group by group.\<close>

fun b64_text :: "u8 list \<Rightarrow> u8 list" where
  "b64_text (t0 # t1 # t2 # ts) = b64_quad t0 t1 t2 @ b64_text ts"
| "b64_text ts = b64_rest ts"

lemma length_b64_quad [simp]: "length (b64_quad a b c) = 4"
  by (simp add: b64_quad_def Let_def)

lemma length_b64_text: "length (b64_text ts) = (length ts + 2) div 3 * 4"
proof (induction ts rule: b64_text.induct)
  case (1 t0 t1 t2 ts)
  have "(length (t0 # t1 # t2 # ts) + 2) div 3 = (length ts + 2) div 3 + 1" by simp
  with 1 show ?case by simp
qed (simp_all add: b64_rest_def Let_def)

lemma b64_triples_text:
  assumes "length out + length (b64_text ts) \<le> cap"
  shows "do { (rest, out) \<leftarrow> b64_triples cap ts out; put_bytes cap out (b64_rest rest) }
    = Some (out @ b64_text ts)"
  using assms
proof (induction ts arbitrary: out rule: b64_text.induct)
  case (1 t0 t1 t2 ts)
  have "b64_triples cap (t0 # t1 # t2 # ts) out = b64_triples cap ts (out @ b64_quad t0 t1 t2)"
    using 1(2) by (simp add: put_bytes_def Let_def b64_quad_def)
  with 1(1) [of "out @ b64_quad t0 t1 t2"] 1(2) show ?case by simp
qed (simp_all add: put_bytes_def)

lemma lb64encode_eq:
  assumes "(length ts + 2) div 3 * 4 \<le> 2147483647"
  shows "lb64encode ts = Some (b64_text ts)"
proof -
  define cap where "cap = out_size ((length ts + 2) div 3 * 4)"
  have "length ([]::u8 list) + length (b64_text ts) \<le> cap" by (simp add: cap_def out_size_def length_b64_text)
  from b64_triples_text [OF this] obtain rest out where
    "b64_triples cap ts [] = Some (rest, out)" "put_bytes cap out (b64_rest rest) = Some (b64_text ts)"
    by (auto split: Option.bind_splits)
  then show ?thesis
    using assms unfolding lb64encode_def Let_def cap_def [symmetric]
    by (simp add: take_bytes_def length_b64_text)
qed

text \<open>Reading a group skips the characters outside the encoding.\<close>

definition b64_valid :: "u8 \<Rightarrow> bool" where
  "b64_valid c \<longleftrightarrow> b64index c \<noteq> - 1"

lemma b64_read_filter:
  assumes "length c + length qs = 4" "filter b64_valid s = qs @ r" "s \<noteq> [] \<longrightarrow> b64_valid (last s)"
  shows "\<exists>rest. b64_read s c padding =
      Inr (rest, c @ map b64index qs, padding + length (filter (\<lambda>q. b64index q = - 2) qs)) \<and>
    filter b64_valid rest = r \<and> (rest \<noteq> [] \<longrightarrow> b64_valid (last rest))"
  using assms
proof (induction s arbitrary: c qs padding)
  case Nil
  then show ?case by simp
next
  case (Cons t s)
  show ?case
  proof (cases qs)
    case Nil
    with Cons.prems show ?thesis by auto
  next
    case q: (Cons q qs')
    show ?thesis
    proof (cases "b64_valid t")
      case True
      with Cons.prems q have "q = t" "filter b64_valid s = qs' @ r" "s \<noteq> [] \<longrightarrow> b64_valid (last s)" by auto
      with Cons.IH [of "c @ [b64index t]" qs' "if b64index t = - 2 then padding + 1 else padding"] Cons.prems q True
      show ?thesis by (auto simp: b64_valid_def Let_def)
    next
      case False
      with Cons.prems q have "filter b64_valid s = qs @ r" "s \<noteq> [] \<longrightarrow> b64_valid (last s)" by auto
      with Cons.IH [of c qs padding] Cons.prems q False show ?thesis by (auto simp: b64_valid_def Let_def)
    qed
  qed
qed

lemma b64_groups_step:
  assumes "filter b64_valid s = qs @ r" "length qs = 4" "s \<noteq> [] \<longrightarrow> b64_valid (last s)"
    and "b64_group (map b64index qs) (length (filter (\<lambda>q. b64index q = - 2) qs)) = Inr bs"
    and "length out + length bs \<le> cap"
  shows "\<exists>rest. b64_groups cap s out = b64_groups cap rest (out @ bs) \<and>
    filter b64_valid rest = r \<and> (rest \<noteq> [] \<longrightarrow> b64_valid (last rest))"
proof -
  have "s \<noteq> []" using assms(1,2) by auto
  moreover from b64_read_filter [of "[]" qs s r 0] assms(1-3) obtain rest where
    "b64_read s [] 0 = Inr (rest, map b64index qs, length (filter (\<lambda>q. b64index q = - 2) qs))"
    "filter b64_valid rest = r" "rest \<noteq> [] \<longrightarrow> b64_valid (last rest)"
    by auto
  ultimately show ?thesis
    using assms(4,5) by (intro exI [of _ rest]) (simp add: b64_groups.simps [of _ s] put_bytes_def)
qed

lemma b64_groups_end:
  assumes "filter b64_valid s = []" "s \<noteq> [] \<longrightarrow> b64_valid (last s)"
  shows "b64_groups cap s out = Some (Inr out)"
proof -
  have "s = []" using assms by (metis filter_empty_conv last_in_set)
  then show ?thesis by (simp add: b64_groups.simps)
qed

lemma count_pads: "length (filter (\<lambda>q. b64index q = - 2) qs) = length (filter (\<lambda>x. x = - 2) (map b64index qs))"
  by (simp add: filter_map comp_def)

lemmas b64_text_induct = b64_text.induct [case_names triple none one two]

lemma b64_groups_text:
  assumes "filter b64_valid s = b64_text ts" "s \<noteq> [] \<longrightarrow> b64_valid (last s)" "length out + length ts \<le> cap"
  shows "b64_groups cap s out = Some (Inr (out @ ts))"
  using assms
proof (induction ts arbitrary: s out rule: b64_text_induct)
  case (triple t0 t1 t2 ts)
  obtain c where c: "map b64index (b64_quad t0 t1 t2) = c" "\<forall>x\<in>set c. 0 \<le> x" "b64_group c 0 = Inr [t0, t1, t2]"
    using b64_group_quad by blast
  then have "filter (\<lambda>q. b64index q = - 2) (b64_quad t0 t1 t2) = []" by (force simp: filter_empty_conv)
  with c b64_groups_step [of s "b64_quad t0 t1 t2" "b64_text ts" "[t0, t1, t2]" out cap] triple.prems
  obtain rest where "b64_groups cap s out = b64_groups cap rest (out @ [t0, t1, t2])"
    "filter b64_valid rest = b64_text ts" "rest \<noteq> [] \<longrightarrow> b64_valid (last rest)" by auto
  with triple.IH [of rest "out @ [t0, t1, t2]"] triple.prems(3) show ?case by simp
next
  case none
  then show ?case by (simp add: b64_rest_def b64_groups_end)
next
  case (one t0)
  have "length (filter (\<lambda>q. b64index q = - 2) (b64_rest [t0])) = 2"
    unfolding count_pads b64_group_rest1(1) by (simp add: uint_neq_minus_2)
  moreover have "length (b64_rest [t0]) = 4" by (simp add: b64_rest_def Let_def)
  ultimately obtain rest where "b64_groups cap s out = b64_groups cap rest (out @ [t0])"
    "filter b64_valid rest = []" "rest \<noteq> [] \<longrightarrow> b64_valid (last rest)"
    using b64_groups_step [of s "b64_rest [t0]" "[]" "[t0]" out cap] one b64_group_rest1(2) [of t0] by auto
  then show ?case by (simp add: b64_groups_end)
next
  case (two t0 t1)
  have "length (filter (\<lambda>q. b64index q = - 2) (b64_rest [t0, t1])) = 1"
    unfolding count_pads b64_group_rest2(1) by (simp add: uint_neq_minus_2)
  moreover have "length (b64_rest [t0, t1]) = 4" by (simp add: b64_rest_def Let_def)
  ultimately obtain rest where "b64_groups cap s out = b64_groups cap rest (out @ [t0, t1])"
    "filter b64_valid rest = []" "rest \<noteq> [] \<longrightarrow> b64_valid (last rest)"
    using b64_groups_step [of s "b64_rest [t0, t1]" "[]" "[t0, t1]" out cap] two b64_group_rest2(2) [of t0 t1] by auto
  then show ?case by (simp add: b64_groups_end)
qed

text \<open>C36: The base64 codec: encoding gives four characters for every three bytes begun, and
  decoding gives the bytes back, from the encoded text and from any text that has the same
  characters with others, such as line breaks, strewn in anywhere but at the end.  Neither
  writes past its buffer.\<close>

theorem base64_roundtrip:
  assumes "length ts \<le> 1000000000"
  shows "\<exists>b. lb64encode ts = Some b \<and> length b = (length ts + 2) div 3 * 4 \<and>
    (\<forall>s. length s \<le> 2147483639 \<and> filter (\<lambda>c. b64index c \<noteq> - 1) s = b \<and>
      (s \<noteq> [] \<longrightarrow> b64index (last s) \<noteq> - 1) \<longrightarrow> lb64decode s = Some (Inr ts))"
proof -
  have "(length ts + 2) div 3 * 4 \<le> 2147483647" using assms(1) by linarith
  then have enc: "lb64encode ts = Some (b64_text ts)" by (rule lb64encode_eq)
  have "lb64decode s = Some (Inr ts)" if s: "length s \<le> 2147483639"
    "filter (\<lambda>c. b64index c \<noteq> - 1) s = b64_text ts" "s \<noteq> [] \<longrightarrow> b64index (last s) \<noteq> - 1" for s
  proof -
    have "(length ts + 2) div 3 * 4 \<le> length s"
      unfolding length_b64_text [symmetric] s(2) [symmetric] by (rule length_filter_le)
    then have "length ts \<le> (length s + 3) div 4 * 3" by linarith
    then have "b64_groups (out_size ((length s + 3) div 4 * 3)) s [] = Some (Inr ts)"
      using b64_groups_text [of s ts "[]"] s(2,3) by (simp add: b64_valid_def [abs_def] out_size_def)
    then show ?thesis using s(1) by (simp add: lb64decode_def int_length_def)
  qed
  with enc show ?thesis by (simp add: length_b64_text)
qed

theorem base64_roundtrip_witness:
  "lb64decode [97, 71, 10, 107, 61] = Some (Inr [0x68, 0x69])"
proof -
  have "lb64encode [0x68, 0x69] = Some [97, 71, 107, 61]" by code_simp
  moreover have "filter (\<lambda>c. b64index c \<noteq> - 1) [97, 71, 10, 107, 61] = [97, 71, 107, 61]" by code_simp
  moreover have "b64index 61 \<noteq> - 1" by code_simp
  ultimately show ?thesis
    using base64_roundtrip [of "[0x68, 0x69]"] by simp
qed

end
