(* ===== verification/Sha1.thy ===== *)
theory Sha1
  imports Crypt
begin

text \<open>
  \<open>lualib-src/lsha1.c\<close>: the SHA-1 hash with its incremental interface, and the message
  authentication code built on it.  The block of sixteen words, which the rounds
  overwrite in place, is a list; the working variables of the unrolled rounds, which
  change their roles from one round to the next, are a tuple that is rotated.  The
  machine is little endian (\<open>WORDS_BIGENDIAN\<close> is not defined).

  The reference is the definition of the standard: a padded message, a schedule of eighty
  words for every block, and the compression function.  The results are that the code
  computes it however a message is cut into pieces, and that the authentication code is
  the standard construction.
\<close>

subsection \<open>The context\<close>

record SHA1_CTX =
  sha_state :: "u32 list"
  sha_count0 :: u32
  sha_count1 :: u32
  sha_buffer :: "u8 list"

definition SHA1_DIGEST_SIZE :: nat where
  "SHA1_DIGEST_SIZE = 20"

text \<open>\<open>memcpy(&buf[j], src, n)\<close> for the \<open>n\<close> bytes of \<open>src\<close>.\<close>

definition buf_copy :: "u8 list \<Rightarrow> nat \<Rightarrow> u8 list \<Rightarrow> u8 list option" where
  "buf_copy buf j src =
    (if j + length src \<le> length buf then Some (take j buf @ src @ drop (j + length src) buf) else None)"

subsection \<open>The compression function\<close>

definition rol :: "u32 \<Rightarrow> nat \<Rightarrow> u32" where
  "rol x k = push_bit k x OR drop_bit (32 - k) x"

text \<open>The macros \<open>blk0\<close> and \<open>blk\<close> store the word they compute in the block.\<close>

definition blk0 :: "u32 list \<Rightarrow> nat \<Rightarrow> u32 \<times> u32 list" where
  "blk0 l i = (let v = (rol (l ! i) 24 AND 0xFF00FF00) OR (rol (l ! i) 8 AND 0x00FF00FF) in (v, l[i := v]))"

definition blk :: "u32 list \<Rightarrow> nat \<Rightarrow> u32 \<times> u32 list" where
  "blk l i =
    (let v = rol (l ! ((i + 13) mod 16) XOR l ! ((i + 8) mod 16) XOR l ! ((i + 2) mod 16) XOR l ! (i mod 16)) 1
     in (v, l[i mod 16 := v]))"

type_synonym sha_vars = "u32 \<times> u32 \<times> u32 \<times> u32 \<times> u32"

text \<open>The macros \<open>R0\<close> to \<open>R4\<close>.  The result is the tuple for the next round, whose first
  component is the variable that was the last one: \<open>R(a,b,c,d,e, i)\<close> is followed by
  \<open>R(e,a,b,c,d, i+1)\<close>.\<close>

definition R0 :: "sha_vars \<times> u32 list \<Rightarrow> nat \<Rightarrow> sha_vars \<times> u32 list" where
  "R0 s i = (case s of ((v, w, x, y, z), l) \<Rightarrow>
    (let (b, l) = blk0 l i
     in ((z + (((w AND (x XOR y)) XOR y) + b + 0x5A827999 + rol v 5), v, rol w 30, x, y), l)))"

definition R1 :: "sha_vars \<times> u32 list \<Rightarrow> nat \<Rightarrow> sha_vars \<times> u32 list" where
  "R1 s i = (case s of ((v, w, x, y, z), l) \<Rightarrow>
    (let (b, l) = blk l i
     in ((z + (((w AND (x XOR y)) XOR y) + b + 0x5A827999 + rol v 5), v, rol w 30, x, y), l)))"

definition R2 :: "sha_vars \<times> u32 list \<Rightarrow> nat \<Rightarrow> sha_vars \<times> u32 list" where
  "R2 s i = (case s of ((v, w, x, y, z), l) \<Rightarrow>
    (let (b, l) = blk l i
     in ((z + ((w XOR x XOR y) + b + 0x6ED9EBA1 + rol v 5), v, rol w 30, x, y), l)))"

definition R3 :: "sha_vars \<times> u32 list \<Rightarrow> nat \<Rightarrow> sha_vars \<times> u32 list" where
  "R3 s i = (case s of ((v, w, x, y, z), l) \<Rightarrow>
    (let (b, l) = blk l i
     in ((z + ((((w OR x) AND y) OR (w AND x)) + b + 0x8F1BBCDC + rol v 5), v, rol w 30, x, y), l)))"

definition R4 :: "sha_vars \<times> u32 list \<Rightarrow> nat \<Rightarrow> sha_vars \<times> u32 list" where
  "R4 s i = (case s of ((v, w, x, y, z), l) \<Rightarrow>
    (let (b, l) = blk l i
     in ((z + ((w XOR x XOR y) + b + 0xCA62C1D6 + rol v 5), v, rol w 30, x, y), l)))"

text \<open>The sequence of the eighty rounds.\<close>

definition sha_rounds :: "sha_vars \<times> u32 list \<Rightarrow> sha_vars \<times> u32 list" where
  "sha_rounds s =
    (let s = foldl R0 s [0..<16];
         s = foldl R1 s [16..<20];
         s = foldl R2 s [20..<40];
         s = foldl R3 s [40..<60]
     in foldl R4 s [60..<80])"

definition SHA1_Transform :: "u32 list \<Rightarrow> u8 list \<Rightarrow> u32 list" where
  "SHA1_Transform state buffer =
    (let block = map (\<lambda>i. get_le32 buffer (4 * i)) [0..<16];
         ((a, b, c, d, e), _) =
           sha_rounds ((state ! 0, state ! 1, state ! 2, state ! 3, state ! 4), block)
     in [state ! 0 + a, state ! 1 + b, state ! 2 + c, state ! 3 + d, state ! 4 + e])"

subsection \<open>The incremental interface\<close>

text \<open>The context is on the stack; \<open>sat_SHA1_Init\<close> does not touch its buffer.\<close>

definition sat_SHA1_Init :: "SHA1_CTX \<Rightarrow> SHA1_CTX" where
  "sat_SHA1_Init ctx = ctx\<lparr>sha_state := [0x67452301, 0xEFCDAB89, 0x98BADCFE, 0x10325476, 0xC3D2E1F0],
     sha_count0 := 0, sha_count1 := 0\<rparr>"

text \<open>The loop over the whole blocks of \<open>data\<close>; the result is the state and the bytes that are
  left.\<close>

fun update_loop :: "u32 list \<Rightarrow> u8 list \<Rightarrow> u32 list \<times> u8 list" where
  "update_loop state data =
    (if 63 < length data then update_loop (SHA1_Transform state (take 64 data)) (drop 64 data)
     else (state, data))"

text \<open>The update of the bit counter.  The length is a \<open>size_t\<close>, the counter has two words of 32
  bits: the sum is truncated to 32 bits, the comparison is one of 64 bits.\<close>

definition update_count :: "u64 \<Rightarrow> u32 \<Rightarrow> u32 \<Rightarrow> u32 \<times> u32" where
  "update_count len count0 count1 =
    (let bits = push_bit 3 len;
         count0 = count0 + ucast bits;
         count1 = (if ucast count0 < bits then count1 + 1 else count1)
     in (count0, count1 + ucast (drop_bit 29 len)))"

definition sat_SHA1_Update :: "SHA1_CTX \<Rightarrow> u8 list \<Rightarrow> SHA1_CTX option" where
  "sat_SHA1_Update ctx data =
    (let len = length data;
         j = unat (drop_bit 3 (sha_count0 ctx) AND 63);
         (count0, count1) = update_count (of_nat len) (sha_count0 ctx) (sha_count1 ctx);
         ctx = ctx\<lparr>sha_count0 := count0, sha_count1 := count1\<rparr>
     in if j + len > 63
        then do {
          buf \<leftarrow> buf_copy (sha_buffer ctx) j (take (64 - j) data);
          let state = SHA1_Transform (sha_state ctx) buf;
          let (state, rest) = update_loop state (drop (64 - j) data);
          buf \<leftarrow> buf_copy buf 0 rest;
          Some (ctx\<lparr>sha_state := state, sha_buffer := buf\<rparr>) }
        else do {
          buf \<leftarrow> buf_copy (sha_buffer ctx) j data;
          Some (ctx\<lparr>sha_buffer := buf\<rparr>) })"

text \<open>The loop that appends zeros, at most \<open>fuel\<close> of them.\<close>

fun final_loop :: "nat \<Rightarrow> SHA1_CTX \<Rightarrow> SHA1_CTX option" where
  "final_loop 0 ctx = None"
| "final_loop (Suc fuel) ctx =
    (if sha_count0 ctx AND 504 \<noteq> 448
     then do { ctx \<leftarrow> sat_SHA1_Update ctx [0]; final_loop fuel ctx }
     else Some ctx)"

text \<open>Byte \<open>i\<close> of a sequence of big endian words.\<close>

definition be_byte :: "u32 list \<Rightarrow> nat \<Rightarrow> u8" where
  "be_byte ws i = ucast (drop_bit ((3 - i mod 4) * 8) (ws ! (i div 4)) AND 255)"

definition sat_SHA1_Final :: "SHA1_CTX \<Rightarrow> (u8 list \<times> SHA1_CTX) option" where
  "sat_SHA1_Final ctx =
    (let finalcount = map (be_byte [sha_count1 ctx, sha_count0 ctx]) [0..<8] in
     do {
       ctx \<leftarrow> sat_SHA1_Update ctx [0x80];
       ctx \<leftarrow> final_loop 65 ctx;
       ctx \<leftarrow> sat_SHA1_Update ctx finalcount;
       let digest = map (be_byte (sha_state ctx)) [0..<SHA1_DIGEST_SIZE];
       Some (digest, ctx\<lparr>sha_state := replicate 5 0, sha_count0 := 0, sha_count1 := 0,
         sha_buffer := replicate 64 0\<rparr>) })"

text \<open>The first argument is the content of the context before it is initialised.\<close>

definition lsha1 :: "SHA1_CTX \<Rightarrow> u8 list \<Rightarrow> u8 list option" where
  "lsha1 ctx buffer = do {
     ctx \<leftarrow> sat_SHA1_Update (sat_SHA1_Init ctx) buffer;
     (digest, _) \<leftarrow> sat_SHA1_Final ctx;
     Some digest }"

subsection \<open>The message authentication code\<close>

definition BLOCKSIZE :: nat where
  "BLOCKSIZE = 64"

text \<open>The key is changed four bytes at a time.\<close>

definition xor_key :: "u8 list \<Rightarrow> u32 \<Rightarrow> u8 list" where
  "xor_key key x = concat (map (\<lambda>i. put_le32 (get_le32 key (4 * i) XOR x)) [0..<BLOCKSIZE div 4])"

text \<open>The first three arguments are the contents of the contexts before they are initialised.\<close>

definition lhmac_sha1 :: "SHA1_CTX \<Rightarrow> SHA1_CTX \<Rightarrow> SHA1_CTX \<Rightarrow> u8 list \<Rightarrow> u8 list \<Rightarrow> u8 list option" where
  "lhmac_sha1 ctx ctx1 ctx2 key text =
    (let rkey = replicate BLOCKSIZE 0 in
     do {
       rkey \<leftarrow>
         (if length key > BLOCKSIZE
          then do {
            ctx \<leftarrow> sat_SHA1_Update (sat_SHA1_Init ctx) key;
            (digest, _) \<leftarrow> sat_SHA1_Final ctx;
            buf_copy rkey 0 digest }
          else buf_copy rkey 0 key);
       let rkey = xor_key rkey 0x5c5c5c5c;
       ctx1 \<leftarrow> sat_SHA1_Update (sat_SHA1_Init ctx1) rkey;
       let rkey = xor_key rkey (0x5c5c5c5c XOR 0x36363636);
       ctx2 \<leftarrow> sat_SHA1_Update (sat_SHA1_Init ctx2) rkey;
       ctx2 \<leftarrow> sat_SHA1_Update ctx2 text;
       (digest2, _) \<leftarrow> sat_SHA1_Final ctx2;
       ctx1 \<leftarrow> sat_SHA1_Update ctx1 digest2;
       (digest1, _) \<leftarrow> sat_SHA1_Final ctx1;
       Some digest1 })"

declare update_loop.simps [simp del]

subsection \<open>The standard\<close>

definition sha_f :: "nat \<Rightarrow> u32 \<Rightarrow> u32 \<Rightarrow> u32 \<Rightarrow> u32" where
  "sha_f t b c d =
    (if t < 20 then (b AND c) OR (NOT b AND d)
     else if t < 40 then b XOR c XOR d
     else if t < 60 then (b AND c) OR (b AND d) OR (c AND d)
     else b XOR c XOR d)"

definition sha_K :: "nat \<Rightarrow> u32" where
  "sha_K t = (if t < 20 then 0x5A827999 else if t < 40 then 0x6ED9EBA1 else if t < 60 then 0x8F1BBCDC
     else 0xCA62C1D6)"

fun sha_W :: "u8 list \<Rightarrow> nat \<Rightarrow> u32" where
  "sha_W b t = (if t < 16 then GET_UINT32 b (4 * t)
     else rol (sha_W b (t - 3) XOR sha_W b (t - 8) XOR sha_W b (t - 14) XOR sha_W b (t - 16)) 1)"

declare sha_W.simps [simp del]

definition sha_step :: "u8 list \<Rightarrow> sha_vars \<Rightarrow> nat \<Rightarrow> sha_vars" where
  "sha_step bs s t = (case s of (a, b, c, d, e) \<Rightarrow>
    (rol a 5 + sha_f t b c d + e + sha_W bs t + sha_K t, a, rol b 30, c, d))"

definition sha_compress :: "u32 list \<Rightarrow> u8 list \<Rightarrow> u32 list" where
  "sha_compress h bs =
    (let (a, b, c, d, e) = foldl (sha_step bs) (h ! 0, h ! 1, h ! 2, h ! 3, h ! 4) [0..<80]
     in [h ! 0 + a, h ! 1 + b, h ! 2 + c, h ! 3 + d, h ! 4 + e])"

subsection \<open>The rounds compute the standard compression function\<close>

lemma bit_rol: "n < 32 \<Longrightarrow> k < 32 \<Longrightarrow> bit (rol x k) n = bit x (if n < k then n + 32 - k else n - k)"
  by (auto simp: rol_def bit_simps add.commute dest: bit_imp_le_length)

lemma byte_index: "8 * q \<le> n \<Longrightarrow> n < 8 * q + 8 \<Longrightarrow> n div 8 = q \<and> n mod 8 = n - 8 * q" for n q :: nat
  by (auto simp: le_iff_add)

lemma bit_bytes:
  assumes "n < 32"
  shows "bit (get_le32 b k) n = bit (b ! (k + n div 8)) (n mod 8)"
    and "bit (GET_UINT32 b k) n = bit (b ! (k + (3 - n div 8))) (n mod 8)"
proof -
  from assms consider "n < 8" | "8 \<le> n" "n < 16" | "16 \<le> n" "n < 24" | "24 \<le> n" "n < 32" by fastforce
  then have "bit (get_le32 b k) n = bit (b ! (k + n div 8)) (n mod 8) \<and>
    bit (GET_UINT32 b k) n = bit (b ! (k + (3 - n div 8))) (n mod 8)"
  proof cases
    case 1
    then show ?thesis by (simp add: get_le32_def GET_UINT32_def bit_simps)
  next
    case 2
    then have "n div 8 = 1" "n mod 8 = n - 8" using byte_index [of 1 n] by auto
    with 2 show ?thesis by (auto simp: get_le32_def GET_UINT32_def bit_simps dest: bit_imp_le_length)
  next
    case 3
    then have "n div 8 = 2" "n mod 8 = n - 16" using byte_index [of 2 n] by auto
    with 3 show ?thesis by (auto simp: get_le32_def GET_UINT32_def bit_simps dest: bit_imp_le_length)
  next
    case 4
    then have "n div 8 = 3" "n mod 8 = n - 24" using byte_index [of 3 n] by auto
    with 4 show ?thesis by (auto simp: get_le32_def GET_UINT32_def bit_simps dest: bit_imp_le_length)
  qed
  then show "bit (get_le32 b k) n = bit (b ! (k + n div 8)) (n mod 8)"
    "bit (GET_UINT32 b k) n = bit (b ! (k + (3 - n div 8))) (n mod 8)" by blast+
qed

lemma blk0_value:
  "(rol (get_le32 b k) 24 AND 0xFF00FF00) OR (rol (get_le32 b k) 8 AND 0x00FF00FF) = GET_UINT32 b k"
proof -
  have m: "(0xFF00FF00 :: u32) = push_bit 8 (mask 8) OR push_bit 24 (mask 8)"
    "(0x00FF00FF :: u32) = mask 8 OR push_bit 16 (mask 8)"
    by (simp_all add: mask_eq_exp_minus_1)
  define w where "w = get_le32 b k"
  have "bit ((rol w 24 AND 0xFF00FF00) OR (rol w 8 AND 0x00FF00FF)) n = bit w (8 * (3 - n div 8) + n mod 8)"
    if "n < 32" for n
  proof -
    from that consider "n < 8" | "8 \<le> n" "n < 16" | "16 \<le> n" "n < 24" | "24 \<le> n" "n < 32" by fastforce
    then show ?thesis
    proof cases
      case 1
      then show ?thesis unfolding m by (simp add: bit_or_iff bit_and_iff bit_push_bit_iff bit_mask_iff bit_rol add.commute)
    next
      case 2
      then have "n div 8 = 1" "n mod 8 = n - 8" using byte_index [of 1 n] by auto
      with 2 show ?thesis unfolding m by (auto simp: bit_or_iff bit_and_iff bit_push_bit_iff bit_mask_iff bit_rol)
    next
      case 3
      then have "n div 8 = 2" "n mod 8 = n - 16" using byte_index [of 2 n] by auto
      with 3 show ?thesis unfolding m by (auto simp: bit_or_iff bit_and_iff bit_push_bit_iff bit_mask_iff bit_rol)
    next
      case 4
      then have "n div 8 = 3" "n mod 8 = n - 24" using byte_index [of 3 n] by auto
      with 4 show ?thesis unfolding m by (auto simp: bit_or_iff bit_and_iff bit_push_bit_iff bit_mask_iff bit_rol)
    qed
  qed
  then show ?thesis
    by (intro bit_word_eqI) (simp add: w_def bit_bytes)
qed

text \<open>Before round \<open>t\<close> the block holds the last sixteen words of the schedule, and the words of
  the message that have not been used yet.\<close>

definition sched_inv :: "u8 list \<Rightarrow> nat \<Rightarrow> u32 list \<Rightarrow> bool" where
  "sched_inv bs t l \<longleftrightarrow> length l = 16 \<and> (\<forall>u<t. t \<le> u + 16 \<longrightarrow> l ! (u mod 16) = sha_W bs u) \<and>
    (\<forall>s. t \<le> s \<and> s < 16 \<longrightarrow> l ! s = get_le32 bs (4 * s))"

lemma mod_16_distinct: "u < t \<Longrightarrow> t < u + 16 \<Longrightarrow> u mod 16 \<noteq> t mod 16" for u t :: nat
  using mod_eq_dvd_iff_nat [of u t 16] nat_dvd_not_less [of "t - u" 16] by auto

lemma sched_inv_update:
  assumes "sched_inv bs t l" "v = sha_W bs t"
  shows "sched_inv bs (t + 1) (l[t mod 16 := v])"
  unfolding sched_inv_def
proof (intro conjI allI impI)
  show "length (l[t mod 16 := v]) = 16" using assms(1) by (simp add: sched_inv_def)
next
  fix u assume u: "u < t + 1" "t + 1 \<le> u + 16"
  show "l[t mod 16 := v] ! (u mod 16) = sha_W bs u"
  proof (cases "u = t")
    case True
    then show ?thesis using assms by (simp add: sched_inv_def)
  next
    case False
    then show ?thesis using u assms mod_16_distinct [of u t] by (simp add: sched_inv_def)
  qed
next
  fix s assume "t + 1 \<le> s \<and> s < 16"
  then show "l[t mod 16 := v] ! s = get_le32 bs (4 * s)" using assms(1) by (simp add: sched_inv_def)
qed

lemma blk0_sched:
  assumes "sched_inv bs t l" "t < 16"
  shows "\<exists>l'. blk0 l t = (sha_W bs t, l') \<and> sched_inv bs (t + 1) l'"
proof -
  have "l ! t = get_le32 bs (4 * t)" using assms by (simp add: sched_inv_def)
  then have "blk0 l t = (sha_W bs t, l[t mod 16 := sha_W bs t])"
    using assms(2) by (simp add: blk0_def Let_def blk0_value sha_W.simps)
  with sched_inv_update [OF assms(1) refl] show ?thesis by blast
qed

lemma blk_sched:
  assumes "sched_inv bs t l" "16 \<le> t"
  shows "\<exists>l'. blk l t = (sha_W bs t, l') \<and> sched_inv bs (t + 1) l'"
proof -
  have l: "l ! (u mod 16) = sha_W bs u" if "u < t" "t \<le> u + 16" for u
    using assms(1) that by (simp add: sched_inv_def)
  obtain u where "t = u + 16" using assms(2) by (metis le_add_diff_inverse2)
  then have e: "(t + 13) mod 16 = (t - 3) mod 16" "(t + 8) mod 16 = (t - 8) mod 16"
    "(t + 2) mod 16 = (t - 14) mod 16" "t mod 16 = (t - 16) mod 16"
    using mod_add_self2 [of "u + 13" 16] mod_add_self2 [of "u + 8" 16] mod_add_self2 [of "u + 2" 16]
    by (simp_all add: ac_simps)
  have "l ! ((t + 13) mod 16) = sha_W bs (t - 3)" "l ! ((t + 8) mod 16) = sha_W bs (t - 8)"
    "l ! ((t + 2) mod 16) = sha_W bs (t - 14)" "l ! (t mod 16) = sha_W bs (t - 16)"
    unfolding e using assms(2) by (auto intro!: l)
  then have "blk l t = (sha_W bs t, l[t mod 16 := sha_W bs t])"
    using assms(2) by (simp add: blk_def Let_def sha_W.simps [of bs t])
  with sched_inv_update [OF assms(1) refl] show ?thesis by blast
qed

text \<open>The bitwise functions of the code and of the standard.\<close>

lemma choose_alt: "((w AND (x XOR y)) XOR y) = ((w AND x) OR (NOT w AND y))" for w x y :: u32
  by (rule bit_word_eqI) (auto simp: bit_simps)

lemma majority_alt: "(((w OR x) AND y) OR (w AND x)) = ((w AND x) OR (w AND y) OR (x AND y))" for w x y :: u32
  by (rule bit_word_eqI) (auto simp: bit_simps)

definition sha_round :: "sha_vars \<times> u32 list \<Rightarrow> nat \<Rightarrow> sha_vars \<times> u32 list" where
  "sha_round s t = (if t < 16 then R0 s t else if t < 20 then R1 s t else if t < 40 then R2 s t
     else if t < 60 then R3 s t else R4 s t)"

lemma sha_round_step:
  assumes "sched_inv bs t l"
  shows "\<exists>l'. sha_round (s, l) t = (sha_step bs s t, l') \<and> sched_inv bs (t + 1) l'"
proof -
  obtain v w x y z where s: "s = (v, w, x, y, z)" by (cases s) auto
  show ?thesis
  proof (cases "t < 16")
    case True
    with blk0_sched [OF assms True] show ?thesis
      by (auto simp: sha_round_def R0_def s sha_step_def sha_f_def sha_K_def choose_alt add.assoc add.left_commute add.commute)
  next
    case False
    with blk_sched [OF assms] show ?thesis
      by (auto simp: sha_round_def R1_def R2_def R3_def R4_def s sha_step_def sha_f_def sha_K_def
          choose_alt majority_alt add.assoc add.left_commute add.commute)
  qed
qed

lemma sha_rounds_fold: "sha_rounds s = foldl sha_round s [0..<80]"
proof -
  have "[0..<80] = [0..<16] @ [16..<20] @ [20..<40] @ [40..<60] @ [60..<80::nat]"
    by code_simp
  then have "foldl sha_round s [0..<80] = foldl sha_round (foldl sha_round (foldl sha_round
      (foldl sha_round (foldl sha_round s [0..<16]) [16..<20]) [20..<40]) [40..<60]) [60..<80]"
    by simp
  also have "\<dots> = sha_rounds s"
    unfolding sha_rounds_def Let_def
    by (intro foldl_cong refl) (auto simp: sha_round_def)
  finally show ?thesis by simp
qed
lemma sha_rounds_steps:
  assumes "sched_inv bs 0 l"
  shows "\<exists>l'. sha_rounds (s, l) = (foldl (sha_step bs) s [0..<80], l')"
proof -
  have "\<exists>l'. foldl sha_round (s, l) [0..<n] = (foldl (sha_step bs) s [0..<n], l') \<and> sched_inv bs n l'" for n
  proof (induction n)
    case 0
    then show ?case using assms by simp
  next
    case (Suc n)
    then obtain l' where "foldl sha_round (s, l) [0..<n] = (foldl (sha_step bs) s [0..<n], l')" "sched_inv bs n l'"
      by blast
    with sha_round_step [of bs n l' "foldl (sha_step bs) s [0..<n]"] show ?case by auto
  qed
  then show ?thesis unfolding sha_rounds_fold by blast
qed

lemma SHA1_Transform_eq: "SHA1_Transform state b = sha_compress state b"
proof -
  have "sched_inv b 0 (map (\<lambda>i. get_le32 b (4 * i)) [0..<16])" by (simp add: sched_inv_def)
  from sha_rounds_steps [OF this] show ?thesis
    unfolding SHA1_Transform_def sha_compress_def Let_def by (metis (no_types, lifting) case_prod_conv old.prod.exhaust)
qed

subsection \<open>Messages\<close>

fun sha_blocks :: "u32 list \<Rightarrow> u8 list \<Rightarrow> u32 list" where
  "sha_blocks h m = (if length m < 64 then h else sha_blocks (sha_compress h (take 64 m)) (drop 64 m))"

declare sha_blocks.simps [simp del]

definition sha_H0 :: "u32 list" where
  "sha_H0 = [0x67452301, 0xEFCDAB89, 0x98BADCFE, 0x10325476, 0xC3D2E1F0]"

text \<open>The message followed by a one bit, zeros up to eight bytes below a whole block, and its
  length in bits as a big endian number of 64 bits.\<close>

definition sha_length_bytes :: "nat \<Rightarrow> u8 list" where
  "sha_length_bytes n = PUT_UINT32 (of_nat (8 * n div 2 ^ 32)) @ PUT_UINT32 (of_nat (8 * n))"

definition sha_pad :: "u8 list \<Rightarrow> u8 list" where
  "sha_pad m = m @ [0x80] @ replicate ((119 - length m mod 64) mod 64) 0 @ sha_length_bytes (length m)"

definition sha1_spec :: "u8 list \<Rightarrow> u8 list" where
  "sha1_spec m = concat (map PUT_UINT32 (sha_blocks sha_H0 (sha_pad m)))"

lemma sha_blocks_short: "length m < 64 \<Longrightarrow> sha_blocks h m = h"
  by (simp add: sha_blocks.simps)

lemma sha_blocks_block: "length b = 64 \<Longrightarrow> sha_blocks h (b @ m) = sha_blocks (sha_compress h b) m"
  by (simp add: sha_blocks.simps [of h "b @ m"])

lemma sha_blocks_append:
  "length a = 64 * n \<Longrightarrow> sha_blocks h (a @ m) = sha_blocks (sha_blocks h a) m"
proof (induction n arbitrary: h a)
  case 0
  then show ?case by (simp add: sha_blocks_short)
next
  case (Suc n)
  then have "a = take 64 a @ drop 64 a" "length (take 64 a) = 64" "length (drop 64 a) = 64 * n" by simp_all
  then show ?case using Suc.IH sha_blocks_block by (metis append.assoc)
qed

lemma update_loop_eq:
  "update_loop h m = (sha_blocks h m, drop (64 * (length m div 64)) m)"
proof (induction h m rule: update_loop.induct)
  case (1 h m)
  show ?case
  proof (cases "63 < length m")
    case True
    then have "length m div 64 = Suc ((length m - 64) div 64)" by (simp add: le_div_geq)
    with True 1 show ?thesis
      by (simp add: update_loop.simps [of h m] sha_blocks.simps [of h m] SHA1_Transform_eq add.commute)
  next
    case False
    then show ?thesis by (simp add: update_loop.simps sha_blocks_short)
  qed
qed

subsection \<open>A context stands for the bytes it was given\<close>

definition sha_repr :: "SHA1_CTX \<Rightarrow> u8 list \<Rightarrow> bool" where
  "sha_repr ctx m \<longleftrightarrow> length (sha_buffer ctx) = 64 \<and> sha_state ctx = sha_blocks sha_H0 m \<and>
    take (length m mod 64) (sha_buffer ctx) = drop (64 * (length m div 64)) m \<and>
    sha_count0 ctx = of_nat (8 * length m) \<and> sha_count1 ctx = of_nat (8 * length m div 2 ^ 32)"

lemma sha_repr_init: "length (sha_buffer ctx) = 64 \<Longrightarrow> sha_repr (sat_SHA1_Init ctx) []"
  by (simp add: sha_repr_def sat_SHA1_Init_def sha_blocks_short sha_H0_def)

text \<open>The counter, of which the code takes the fill of the buffer.\<close>

lemma unat_of_nat_32: "unat (of_nat n :: u32) = n mod 2 ^ 32"
  by (simp add: unat_of_nat)

lemma count_index: "unat (drop_bit 3 (of_nat (8 * n) :: u32) AND 63) = n mod 64"
proof -
  have "(63 :: u32) = mask 6" by (simp add: mask_eq_exp_minus_1)
  then have "unat (drop_bit 3 (of_nat (8 * n) :: u32) AND 63) = unat (drop_bit 3 (of_nat (8 * n) :: u32)) mod 2 ^ 6"
    by (simp only: unat_and_mask)
  also have "\<dots> = (8 * n) mod (8 * 2 ^ 29) div 8 mod 64"
    unfolding unat_drop_bit unat_of_nat_32 by simp
  also have "\<dots> = n mod 2 ^ 29 mod 64" unfolding mult_mod_right [symmetric] by simp
  also have "\<dots> = n mod 64" by (rule mod_mod_cancel) (simp add: dvd_def exI [of _ "2 ^ 23"])
  finally show ?thesis .
qed

lemma carry_div:
  fixes a b M :: nat
  assumes "b < M"
  shows "(a + b) div M = (if (a + b) mod M < b then a div M + 1 else a div M)"
proof (cases "a mod M + b < M")
  case True
  then have "(a + b) mod M = a mod M + b" by (metis mod_add_left_eq mod_less)
  moreover have "(a + b) div M = a div M"
    using True assms by (simp only: div_add1_eq [of a b] div_less mod_less add_0_right)
  ultimately show ?thesis by simp
next
  case False
  have r: "a mod M < M" using assms by simp
  have "(a mod M + b) mod M = a mod M + b - M"
  proof -
    have "a mod M + b - M < M" using r assms by linarith
    then show ?thesis using False le_mod_geq [of M "a mod M + b"] by simp
  qed
  then have "(a + b) mod M = a mod M + b - M" by (metis mod_add_left_eq)
  moreover have "(a mod M + b) div M = 1"
  proof -
    have "(a mod M + b - M) div M = 0" using r assms by (intro div_less) linarith
    then show ?thesis using False assms le_div_geq [of M "a mod M + b"] by simp
  qed
  then have "(a + b) div M = a div M + 1"
    using assms by (simp only: div_add1_eq [of a b] div_less mod_less add_0_right)
  ultimately show ?thesis using False r by simp
qed

lemma ucast_unat: "(ucast w :: 'b::len word) = of_nat (unat w)" for w :: "'a::len word"
  by simp

lemma update_count_eq:
  assumes "n < 2 ^ 29"
  shows "update_count (of_nat n) (of_nat (8 * l)) (of_nat (8 * l div 2 ^ 32))
    = (of_nat (8 * (l + n)), of_nat (8 * (l + n) div 2 ^ 32))"
proof -
  have n: "unat (of_nat n :: u64) = n" using assms by (simp add: unat_of_nat)
  have bits: "push_bit 3 (of_nat n) = (of_nat (8 * n) :: u64)" by (simp add: push_bit_eq_mult)
  have ub: "unat (of_nat (8 * n) :: u64) = 8 * n" using assms by (simp add: unat_of_nat del: of_nat_mult)
  have low: "ucast (of_nat (8 * n) :: u64) = (of_nat (8 * n) :: u32)"
    unfolding ucast_unat ub ..
  have high: "ucast (drop_bit 29 (of_nat n :: u64)) = (0 :: u32)"
    unfolding ucast_unat unat_drop_bit n using assms by simp
  have sum: "of_nat (8 * l) + of_nat (8 * n) = (of_nat (8 * (l + n)) :: u32)" by (simp add: algebra_simps)
  have cmp: "ucast (of_nat (8 * (l + n)) :: u32) < (of_nat (8 * n) :: u64)
      \<longleftrightarrow> (8 * l + 8 * n) mod 2 ^ 32 < 8 * n"
  proof -
    have "(8 * (l + n)) mod 2 ^ 32 < (2 :: nat) ^ 32" by (rule mod_less_divisor) simp
    then have "unat (of_nat ((8 * (l + n)) mod 2 ^ 32) :: u64) = (8 * (l + n)) mod 2 ^ 32"
      unfolding unat_of_nat by (intro mod_less) simp
    then show ?thesis
      unfolding word_less_nat_alt ub ucast_unat unat_of_nat_32 by (simp only: distrib_left)
  qed
  have "8 * n < 2 ^ 32" using assms by simp
  note carry = carry_div [OF this, of "8 * l"]
  show ?thesis
    unfolding update_count_def Let_def bits low sum high cmp
    using carry by (simp add: algebra_simps del: of_nat_mult)
qed

lemma sha_repr_split:
  assumes "m = a @ r" "length a = 64 * q" "length r < 64"
  shows "sha_repr ctx m \<longleftrightarrow> length (sha_buffer ctx) = 64 \<and> sha_state ctx = sha_blocks sha_H0 a \<and>
    take (length r) (sha_buffer ctx) = r \<and>
    sha_count0 ctx = of_nat (8 * length m) \<and> sha_count1 ctx = of_nat (8 * length m div 2 ^ 32)"
proof -
  have "length m = 64 * q + length r" using assms(1,2) by simp
  then have "length m mod 64 = length r" "length m div 64 = q" using assms(3) by simp_all
  moreover have "drop (64 * q) m = r" using assms(1,2) by simp
  moreover have "sha_blocks sha_H0 m = sha_blocks sha_H0 a"
    using assms by (simp add: sha_blocks_append sha_blocks_short)
  ultimately show ?thesis unfolding sha_repr_def by simp
qed

lemma blocks_split_64:
  obtains a r q where "m = a @ r" "length a = 64 * q" "length r < 64" "r = drop (64 * (length m div 64)) m"
proof
  show "m = take (64 * (length m div 64)) m @ drop (64 * (length m div 64)) m" by simp
qed (auto simp: minus_mult_div_eq_mod)

text \<open>\<open>sat_SHA1_Update\<close> appends its data.  Pieces of 512 megabytes and more are excluded, for
  which the carry of the counter is wrong.\<close>

lemma sha_repr_update:
  assumes rep: "sha_repr ctx m" and len: "length data < 2 ^ 29"
  shows "\<exists>ctx'. sat_SHA1_Update ctx data = Some ctx' \<and> sha_repr ctx' (m @ data)"
proof -
  obtain a r q where m: "m = a @ r" "length a = 64 * q" "length r < 64" by (rule blocks_split_64)
  note R = rep [unfolded sha_repr_split [OF m]]
  have "length m mod 64 = length r" using m by simp
  then have j: "unat (drop_bit 3 (sha_count0 ctx) AND 63) = length r" using R count_index by simp
  define c0 c1 :: u32 where "c0 = of_nat (8 * length (m @ data))" "c1 = of_nat (8 * length (m @ data) div 2 ^ 32)"
  have cnt: "update_count (of_nat (length data)) (sha_count0 ctx) (sha_count1 ctx) = (c0, c1)"
    using update_count_eq [OF len, of "length m"] R by (simp add: c0_c1_def)
  show ?thesis
  proof (cases "length r + length data > 63")
    case False
    then have *: "m @ data = a @ (r @ data)" "length (r @ data) < 64" using m by simp_all
    define b where "b = r @ data @ drop (length r + length data) (sha_buffer ctx)"
    have copy: "buf_copy (sha_buffer ctx) (length r) data = Some b"
      using R *(2) by (simp add: buf_copy_def b_def)
    have "length b = 64" "take (length (r @ data)) b = r @ data"
      using R *(2) by (simp_all add: b_def)
    then have "sha_repr (ctx\<lparr>sha_count0 := c0, sha_count1 := c1, sha_buffer := b\<rparr>) (m @ data)"
      unfolding sha_repr_split [OF *(1) m(2) *(2)] using R by (simp add: c0_c1_def)
    moreover have "sat_SHA1_Update ctx data = Some (ctx\<lparr>sha_count0 := c0, sha_count1 := c1, sha_buffer := b\<rparr>)"
      using False copy by (simp add: sat_SHA1_Update_def j cnt Let_def)
    ultimately show ?thesis by blast
  next
    case True
    define d1 d2 where "d1 = take (64 - length r) data" "d2 = drop (64 - length r) data"
    have d: "data = d1 @ d2" "length r + length d1 = 64" using True m(3) by (simp_all add: d1_d2_def)
    have b1: "buf_copy (sha_buffer ctx) (length r) d1 = Some (r @ d1)"
      using R d(2) by (simp add: buf_copy_def)
    obtain a2 r2 q2 where d2: "d2 = a2 @ r2" "length a2 = 64 * q2" "length r2 < 64"
      "r2 = drop (64 * (length d2 div 64)) d2" by (rule blocks_split_64)
    define st where "st = sha_blocks (sha_compress (sha_state ctx) (r @ d1)) d2"
    have loop: "update_loop (SHA1_Transform (sha_state ctx) (r @ d1)) d2 = (st, r2)"
      by (simp add: update_loop_eq SHA1_Transform_eq st_def d2(4) [symmetric])
    define b2 where "b2 = r2 @ drop (length r2) (r @ d1)"
    have copy2: "buf_copy (r @ d1) 0 r2 = Some b2" using d(2) d2(3) by (simp add: buf_copy_def b2_def)
    have *: "m @ data = (a @ (r @ d1) @ a2) @ r2" "length (a @ (r @ d1) @ a2) = 64 * (q + 1 + q2)"
      using m d d2(1,2) by simp_all
    have "sha_blocks sha_H0 (a @ (r @ d1) @ a2) = sha_blocks (sha_compress (sha_state ctx) (r @ d1)) a2"
    proof -
      have "length (r @ d1) = 64" using d(2) by simp
      then show ?thesis using R by (simp only: sha_blocks_append [OF m(2)] sha_blocks_block)
    qed
    also have "\<dots> = st" unfolding st_def d2(1) using d2(2,3) by (simp add: sha_blocks_append sha_blocks_short)
    finally have st: "sha_blocks sha_H0 (a @ (r @ d1) @ a2) = st" .
    have "length b2 = 64" "take (length r2) b2 = r2" using d(2) d2(3) by (simp_all add: b2_def)
    then have "sha_repr (ctx\<lparr>sha_count0 := c0, sha_count1 := c1, sha_state := st, sha_buffer := b2\<rparr>) (m @ data)"
      unfolding sha_repr_split [OF * d2(3)] st by (simp add: c0_c1_def)
    moreover have "sat_SHA1_Update ctx data
        = Some (ctx\<lparr>sha_count0 := c0, sha_count1 := c1, sha_state := st, sha_buffer := b2\<rparr>)"
      unfolding sat_SHA1_Update_def Let_def j cnt d1_d2_def [symmetric] using True b1 loop copy2 by simp
    ultimately show ?thesis by blast
  qed
qed

subsection \<open>The digest\<close>

lemma be_bytes_2: "map (be_byte [c, d]) [0..<8] = PUT_UINT32 c @ PUT_UINT32 d"
  by (simp add: be_byte_def PUT_UINT32_def upt_rec)

lemma length_sha_compress [simp]: "length (sha_compress h b) = 5"
  by (simp add: sha_compress_def Let_def split: prod.split)

lemma length_sha_blocks: "length h = 5 \<Longrightarrow> length (sha_blocks h m) = 5"
  by (induction h m rule: sha_blocks.induct) (simp add: sha_blocks.simps)

lemma be_bytes_5:
  assumes "length ws = 5"
  shows "map (be_byte ws) [0..<SHA1_DIGEST_SIZE] = concat (map PUT_UINT32 ws)"
proof -
  from assms obtain a b c d e where ws: "ws = [a, b, c, d, e]"
    by (auto simp: length_Suc_conv eval_nat_numeral)
  show ?thesis unfolding ws SHA1_DIGEST_SIZE_def
    by (simp add: be_byte_def PUT_UINT32_def upt_rec)
qed

lemma count_504: "(of_nat (8 * n) :: u32) AND 504 \<noteq> 448 \<longleftrightarrow> n mod 64 \<noteq> 56"
proof -
  define x :: u32 where "x = of_nat (8 * n)"
  have m: "(504 :: u32) = push_bit 3 (mask 6)" by (simp add: mask_eq_exp_minus_1)
  have m6: "(63 :: u32) = mask 6" by (simp add: mask_eq_exp_minus_1)
  have *: "x AND 504 = push_bit 3 (drop_bit 3 x AND 63)"
    unfolding m m6
    by (rule bit_word_eqI) (auto simp: bit_and_iff bit_push_bit_iff bit_drop_bit_eq bit_mask_iff)
  have "drop_bit 3 x AND 63 = of_nat (n mod 64)"
    using count_index [of n] unfolding x_def by (metis of_nat_unat ucast_id)
  then have "x AND 504 = of_nat (8 * (n mod 64))" unfolding * by (simp add: push_bit_eq_mult)
  moreover have "8 * (n mod 64) < 2 ^ 32"
    using mod_less_divisor [of 64 n] by simp
  then have "unat (of_nat (8 * (n mod 64)) :: u32) = 8 * (n mod 64)" unfolding unat_of_nat_32 by (rule mod_less)
  ultimately have "unat (x AND 504) = 8 * (n mod 64)" by (simp only:)
  then have "x AND 504 = 448 \<longleftrightarrow> 8 * (n mod 64) = 448"
    unfolding word_unat_eq_iff by simp
  then show ?thesis unfolding x_def by auto
qed

text \<open>The number of zeros before the length.\<close>

definition zeros_needed :: "nat \<Rightarrow> nat" where
  "zeros_needed n = (120 - n mod 64) mod 64"

lemma zeros_needed_eq:
  "zeros_needed n = (if n mod 64 \<le> 56 then 56 - n mod 64 else 120 - n mod 64)"
proof -
  have "(120 - r) mod 64 = (if r \<le> 56 then 56 - r else 120 - r)" if "r < 64" for r :: nat
    using le_mod_geq [of 64 "120 - r"] that by auto
  then show ?thesis by (simp add: zeros_needed_def)
qed

lemma zeros_needed_0: "zeros_needed n = 0 \<longleftrightarrow> n mod 64 = 56"
  using mod_less_divisor [of 64 n] by (auto simp: zeros_needed_eq simp del: mod_less_divisor)

lemma zeros_needed_Suc: "n mod 64 \<noteq> 56 \<Longrightarrow> zeros_needed n = Suc (zeros_needed (Suc n))"
  using mod_less_divisor [of 64 n] by (auto simp: zeros_needed_eq mod_Suc simp del: mod_less_divisor)

lemma final_loop_zeros:
  assumes "sha_repr ctx m" "zeros_needed (length m) < fuel"
  shows "\<exists>ctx'. final_loop fuel ctx = Some ctx' \<and> sha_repr ctx' (m @ replicate (zeros_needed (length m)) 0)"
  using assms
proof (induction fuel arbitrary: ctx m)
  case 0
  then show ?case by simp
next
  case (Suc fuel)
  have c: "sha_count0 ctx AND 504 \<noteq> 448 \<longleftrightarrow> length m mod 64 \<noteq> 56"
    using Suc.prems(1) count_504 by (simp only: sha_repr_def)
  show ?case
  proof (cases "length m mod 64 = 56")
    case True
    then have "zeros_needed (length m) = 0" by (simp add: zeros_needed_0)
    with True c Suc.prems(1) show ?thesis by simp
  next
    case False
    obtain ctx1 where u: "sat_SHA1_Update ctx [0] = Some ctx1" "sha_repr ctx1 (m @ [0])"
      using sha_repr_update [OF Suc.prems(1), of "[0]"] by auto
    from zeros_needed_Suc [OF False] have z: "zeros_needed (length m) = Suc (zeros_needed (length (m @ [0])))" by simp
    then have "zeros_needed (length (m @ [0])) < fuel" using Suc.prems(2) by simp
    from Suc.IH [OF u(2) this] False c u(1) z show ?thesis by simp
  qed
qed

lemma sha_final:
  assumes "sha_repr ctx m"
  shows "\<exists>ctx'. sat_SHA1_Final ctx = Some (sha1_spec m, ctx')"
proof -
  have fc: "map (be_byte [sha_count1 ctx, sha_count0 ctx]) [0..<8] = sha_length_bytes (length m)"
    using assms by (simp only: be_bytes_2 sha_length_bytes_def sha_repr_def)
  obtain c1 where c1: "sat_SHA1_Update ctx [0x80] = Some c1" "sha_repr c1 (m @ [0x80])"
    using sha_repr_update [OF assms, of "[0x80]"] by auto
  define z where "z = zeros_needed (length (m @ [0x80]))"
  have "z < 65" by (simp add: z_def zeros_needed_def less_Suc_eq_le)
  with final_loop_zeros [OF c1(2)] obtain c2 where
    c2: "final_loop 65 c1 = Some c2" "sha_repr c2 ((m @ [0x80]) @ replicate z 0)" unfolding z_def by blast
  have z: "z = (119 - length m mod 64) mod 64"
  proof -
    have "(120 - (Suc r mod 64)) mod 64 = (119 - r) mod 64" if "r < 64" for r :: nat
      using that by (cases "r = 63") simp_all
    from this [of "length m mod 64"] show ?thesis by (simp add: z_def zeros_needed_def mod_Suc_eq)
  qed
  obtain c3 where c3: "sat_SHA1_Update c2 (sha_length_bytes (length m)) = Some c3"
    "sha_repr c3 (((m @ [0x80]) @ replicate z 0) @ sha_length_bytes (length m))"
    using sha_repr_update [OF c2(2), of "sha_length_bytes (length m)"] by (auto simp: sha_length_bytes_def)
  have pad: "((m @ [0x80]) @ replicate z 0) @ sha_length_bytes (length m) = sha_pad m"
    by (simp add: sha_pad_def z)
  have "sha_state c3 = sha_blocks sha_H0 (sha_pad m)" using c3(2) by (simp only: pad sha_repr_def)
  moreover have "length (sha_blocks sha_H0 (sha_pad m)) = 5"
    by (rule length_sha_blocks) (simp add: sha_H0_def)
  ultimately have "map (be_byte (sha_state c3)) [0..<SHA1_DIGEST_SIZE] = sha1_spec m"
    by (simp add: be_bytes_5 sha1_spec_def)
  then show ?thesis
    unfolding sat_SHA1_Final_def Let_def fc using c1(1) c2(1) c3(1) by (simp del: final_loop.simps)
qed

text \<open>A message handed over in pieces.\<close>

fun sha_updates :: "SHA1_CTX \<Rightarrow> u8 list list \<Rightarrow> SHA1_CTX option" where
  "sha_updates ctx [] = Some ctx"
| "sha_updates ctx (d # ds) = do { ctx \<leftarrow> sat_SHA1_Update ctx d; sha_updates ctx ds }"

lemma sha_repr_updates:
  assumes "sha_repr ctx m" "\<forall>d \<in> set ds. length d < 2 ^ 29"
  shows "\<exists>ctx'. sha_updates ctx ds = Some ctx' \<and> sha_repr ctx' (m @ concat ds)"
  using assms
proof (induction ds arbitrary: ctx m)
  case Nil
  then show ?case by simp
next
  case (Cons d ds)
  then obtain c where "sat_SHA1_Update ctx d = Some c" "sha_repr c (m @ d)"
    using sha_repr_update [of ctx m d] by auto
  with Cons.IH [of c "m @ d"] Cons.prems(2) show ?case by auto
qed

text \<open>C10: SHA-1: however a message is cut into pieces for the incremental interface, and whatever the
  uninitialised context held, the digest is the one the standard defines for the whole
  message; so is the digest of \<open>lsha1\<close>.  Every piece is shorter than 512 megabytes.\<close>

theorem sha1_incremental:
  assumes "length (sha_buffer ctx) = 64" "\<forall>d \<in> set ds. length d < 2 ^ 29" "length m < 2 ^ 29"
  shows "(\<exists>ctx1 ctx2. sha_updates (sat_SHA1_Init ctx) ds = Some ctx1 \<and>
      sat_SHA1_Final ctx1 = Some (sha1_spec (concat ds), ctx2)) \<and>
    lsha1 ctx m = Some (sha1_spec m)"
proof
  show "\<exists>ctx1 ctx2. sha_updates (sat_SHA1_Init ctx) ds = Some ctx1 \<and>
      sat_SHA1_Final ctx1 = Some (sha1_spec (concat ds), ctx2)"
    using sha_repr_updates [OF sha_repr_init [OF assms(1)] assms(2)] sha_final by fastforce
  show "lsha1 ctx m = Some (sha1_spec m)"
    using sha_repr_update [OF sha_repr_init [OF assms(1)] assms(3)] sha_final by (fastforce simp: lsha1_def)
qed

theorem sha1_incremental_witness:
  "\<exists>ctx1 ctx2. sha_updates (sat_SHA1_Init \<lparr>sha_state = [], sha_count0 = 1, sha_count1 = 2,
      sha_buffer = replicate 64 7\<rparr>) [[97], [], [98, 99]] = Some ctx1 \<and>
    sat_SHA1_Final ctx1 = Some (sha1_spec [97, 98, 99], ctx2)"
  using sha1_incremental [of "\<lparr>sha_state = [], sha_count0 = 1, sha_count1 = 2,
    sha_buffer = replicate 64 7\<rparr>" "[[97], [], [98, 99]]" "[]"] by simp

text \<open>C38: A single piece of exactly 512 megabytes makes the high word of the bit counter 2 instead
  of 1: the 64 bit comparison takes the truncated sum for a carry, which is also counted
  in the next line.  The digest of such a message is wrong.\<close>

theorem sha1_count_wrong:
  assumes "length data = 536870912" "length (sha_buffer ctx) = 64"
  shows "\<exists>ctx'. sat_SHA1_Update (sat_SHA1_Init ctx) data = Some ctx' \<and>
    sha_count0 ctx' = 0 \<and> sha_count1 ctx' = 2"
proof -
  have c: "update_count 536870912 0 0 = (0, 2)" by (simp add: update_count_def Let_def)
  obtain st r where l: "update_loop (SHA1_Transform (sha_state (sat_SHA1_Init ctx)) (take 64 data)) (drop 64 data) = (st, r)"
    by (rule prod.exhaust)
  then have "r = drop (64 * (length (drop 64 data) div 64)) (drop 64 data)" by (simp add: update_loop_eq)
  then have "r = []" by (simp add: assms(1))
  moreover have b: "buf_copy (sha_buffer ctx) 0 (take 64 data) = Some (take 64 data)"
    using assms by (simp add: buf_copy_def)
  moreover have "sha_buffer (sat_SHA1_Init ctx) = sha_buffer ctx" "sha_count0 (sat_SHA1_Init ctx) = 0"
    "sha_count1 (sat_SHA1_Init ctx) = 0" by (simp_all add: sat_SHA1_Init_def)
  ultimately show ?thesis
    unfolding sat_SHA1_Update_def Let_def assms(1) using l c by (simp add: buf_copy_def)
qed

theorem sha1_count_wrong_witness:
  "\<exists>ctx'. sat_SHA1_Update (sat_SHA1_Init \<lparr>sha_state = [], sha_count0 = 1, sha_count1 = 2,
      sha_buffer = replicate 64 7\<rparr>) (replicate 536870912 0) = Some ctx' \<and> sha_count1 ctx' = 2"
  using sha1_count_wrong [of "replicate 536870912 0" "\<lparr>sha_state = [], sha_count0 = 1, sha_count1 = 2,
    sha_buffer = replicate 64 7\<rparr>"] by auto

subsection \<open>The message authentication code\<close>

definition hmac_sha1_spec :: "u8 list \<Rightarrow> u8 list \<Rightarrow> u8 list" where
  "hmac_sha1_spec key m =
    (let k = (if length key > 64 then sha1_spec key else key);
         k = k @ replicate (64 - length k) 0
     in sha1_spec (map (\<lambda>b. b XOR 0x5c) k @ sha1_spec (map (\<lambda>b. b XOR 0x36) k @ m)))"

lemma put_get_le32_at:
  assumes "k + 4 \<le> length bs"
  shows "put_le32 (get_le32 bs k) = take 4 (drop k bs)"
proof -
  have "Suc (Suc (Suc (Suc 0))) \<le> length (drop k bs)" using assms by simp
  then obtain a b c d r where r: "drop k bs = a # b # c # d # r" unfolding Suc_le_length_iff by auto
  have "get_le32 bs k = get_le32 (a # b # c # d # r) 0"
    using assms unfolding get_le32_def r [symmetric] by (simp add: numeral_2_eq_2 numeral_3_eq_3)
  then show ?thesis by (simp add: put_get_le32 r)
qed

lemma put_le32_xor: "put_le32 (x XOR y) = map2 (\<lambda>a b. a XOR b) (put_le32 x) (put_le32 y)"
  by (simp add: put_le32_def drop_bit_xor unsigned_xor_eq)

lemma concat_quads: "4 * n \<le> length xs \<Longrightarrow> concat (map (\<lambda>i. take 4 (drop (4 * i) xs)) [0..<n]) = take (4 * n) xs"
proof (induction n)
  case 0
  then show ?case by simp
next
  case (Suc n)
  have "take (4 * Suc n) xs = take (4 * n) xs @ take 4 (drop (4 * n) xs)"
    using take_add [of "4 * n" 4 xs] by (simp add: add.commute)
  with Suc show ?case by simp
qed

lemma xor_key_map:
  assumes "length key = 64" "put_le32 w = [c, c, c, c]"
  shows "xor_key key w = map (\<lambda>b. b XOR c) key"
proof -
  have "put_le32 (get_le32 key (4 * i) XOR w) = map (\<lambda>b. b XOR c) (take 4 (drop (4 * i) key))" if "i < 16" for i
  proof -
    have "map2 (\<lambda>a b. a XOR b) xs [c, c, c, c] = map (\<lambda>b. b XOR c) xs" if "length xs = 4" for xs :: "u8 list"
      using that by (auto simp: length_Suc_conv eval_nat_numeral)
    moreover have "length (take 4 (drop (4 * i) key)) = 4" using assms(1) that by simp
    ultimately show ?thesis
      using that assms put_get_le32_at [of "4 * i" key] by (simp add: put_le32_xor)
  qed
  then have "xor_key key w = concat (map (\<lambda>i. map (\<lambda>b. b XOR c) (take 4 (drop (4 * i) key))) [0..<16])"
    unfolding xor_key_def BLOCKSIZE_def by (intro arg_cong [where f = concat] map_cong) auto
  also have "\<dots> = map (\<lambda>b. b XOR c) (concat (map (\<lambda>i. take 4 (drop (4 * i) key)) [0..<16]))"
    by (simp add: map_concat comp_def)
  also have "\<dots> = map (\<lambda>b. b XOR c) key" using concat_quads [of 16 key] assms(1) by simp
  finally show ?thesis .
qed

lemma put_le32_pads:
  "put_le32 0x5c5c5c5c = [0x5c, 0x5c, 0x5c, 0x5c]"
  "put_le32 (0x5c5c5c5c XOR 0x36363636) = [0x5c XOR 0x36, 0x5c XOR 0x36, 0x5c XOR 0x36, 0x5c XOR 0x36]"
  by (simp_all add: put_le32_def)

lemma length_sha1_spec: "length (sha1_spec m) = 20"
proof -
  have "length (sha_blocks sha_H0 (sha_pad m)) = 5" by (rule length_sha_blocks) (simp add: sha_H0_def)
  then show ?thesis by (simp add: sha1_spec_def length_concat comp_def sum_list_triv)
qed

text \<open>Initialisation, one update and the digest, on any uninitialised context.\<close>

lemma sha_once:
  assumes "length (sha_buffer ctx) = 64" "length m < 2 ^ 29"
  obtains c c' where "sat_SHA1_Update (sat_SHA1_Init ctx) m = Some c" "sha_repr c m"
    "sat_SHA1_Final c = Some (sha1_spec m, c')"
  using sha_repr_update [OF sha_repr_init [OF assms(1)] assms(2)] sha_final by fastforce

text \<open>C37: \<open>lhmac_sha1\<close> is the standard construction: the key, hashed first when it is longer than a
  block and then padded with zeros, is combined with the two constants, and the inner
  digest is hashed again.  The contexts may hold anything before.\<close>

theorem hmac_sha1_standard:
  assumes "length (sha_buffer ctx) = 64" "length (sha_buffer ctx1) = 64" "length (sha_buffer ctx2) = 64"
    "length key < 2 ^ 29" "length m < 2 ^ 29"
  shows "lhmac_sha1 ctx ctx1 ctx2 key m = Some (hmac_sha1_spec key m)"
proof -
  define k where "k = (if length key > 64 then sha1_spec key else key)"
  define rk where "rk = k @ replicate (64 - length k) 0"
  have lk: "length k \<le> 64" by (simp add: k_def length_sha1_spec)
  then have lrk: "length rk = 64" by (simp add: rk_def)
  have copy: "buf_copy (replicate 64 0) 0 k = Some rk" using lk by (simp add: buf_copy_def rk_def)
  obtain d d' where d: "sat_SHA1_Update (sat_SHA1_Init ctx) key = Some d"
    "sat_SHA1_Final d = Some (sha1_spec key, d')" by (rule sha_once [OF assms(1,4)])
  have key: "(if length key > BLOCKSIZE
      then do { ctx \<leftarrow> sat_SHA1_Update (sat_SHA1_Init ctx) key; (digest, _) \<leftarrow> sat_SHA1_Final ctx;
                buf_copy (replicate BLOCKSIZE 0) 0 digest }
      else buf_copy (replicate BLOCKSIZE 0) 0 key) = Some rk"
    using copy d by (auto simp: BLOCKSIZE_def k_def)
  define ok ik where "ok = map (\<lambda>b. b XOR 0x5c) rk" "ik = map (\<lambda>b. b XOR 0x36) rk"
  have pads: "xor_key rk 0x5c5c5c5c = ok" "xor_key ok (0x5c5c5c5c XOR 0x36363636) = ik"
  proof -
    show "xor_key rk 0x5c5c5c5c = ok" unfolding ok_ik_def by (rule xor_key_map [OF lrk put_le32_pads(1)])
    have "xor_key ok (0x5c5c5c5c XOR 0x36363636) = map (\<lambda>b. b XOR (0x5c XOR 0x36)) ok"
      by (rule xor_key_map [OF _ put_le32_pads(2)]) (simp add: ok_ik_def lrk)
    also have "\<dots> = ik" unfolding ok_ik_def list.map_comp
      by (intro map_cong refl) (simp only: comp_def xor.assoc xor_self_eq xor.left_neutral flip: xor.assoc [of "0x5c" "0x5c"])
    finally show "xor_key ok (0x5c5c5c5c XOR 0x36363636) = ik" .
  qed
  have l64: "length ok < 2 ^ 29" "length ik < 2 ^ 29" using lrk by (simp_all add: ok_ik_def)
  obtain o1 where o1: "sat_SHA1_Update (sat_SHA1_Init ctx1) ok = Some o1" "sha_repr o1 ok"
    by (rule sha_once [OF assms(2) l64(1)])
  obtain i1 where i1: "sat_SHA1_Update (sat_SHA1_Init ctx2) ik = Some i1" "sha_repr i1 ik"
    by (rule sha_once [OF assms(3) l64(2)])
  obtain i2 where i2: "sat_SHA1_Update i1 m = Some i2" "sha_repr i2 (ik @ m)"
    using sha_repr_update [OF i1(2) assms(5)] by blast
  obtain i3 where i3: "sat_SHA1_Final i2 = Some (sha1_spec (ik @ m), i3)" using sha_final [OF i2(2)] by blast
  obtain o2 where o2: "sat_SHA1_Update o1 (sha1_spec (ik @ m)) = Some o2" "sha_repr o2 (ok @ sha1_spec (ik @ m))"
    using sha_repr_update [OF o1(2), of "sha1_spec (ik @ m)"] by (auto simp: length_sha1_spec)
  obtain o3 where o3: "sat_SHA1_Final o2 = Some (sha1_spec (ok @ sha1_spec (ik @ m)), o3)"
    using sha_final [OF o2(2)] by blast
  have "lhmac_sha1 ctx ctx1 ctx2 key m = Some (sha1_spec (ok @ sha1_spec (ik @ m)))"
    unfolding lhmac_sha1_def Let_def key bind.bind_lunit pads o1(1) i1(1) by (simp add: i2(1) i3 o2(1) o3)
  also have "sha1_spec (ok @ sha1_spec (ik @ m)) = hmac_sha1_spec key m"
    unfolding hmac_sha1_spec_def Let_def k_def [symmetric] rk_def [symmetric] ok_ik_def ..
  finally show ?thesis .
qed

theorem hmac_sha1_standard_witness:
  "lhmac_sha1 \<lparr>sha_state = [], sha_count0 = 1, sha_count1 = 2, sha_buffer = replicate 64 7\<rparr>
     \<lparr>sha_state = [], sha_count0 = 3, sha_count1 = 4, sha_buffer = replicate 64 8\<rparr>
     \<lparr>sha_state = [], sha_count0 = 5, sha_count1 = 6, sha_buffer = replicate 64 9\<rparr>
     (replicate 80 0xaa) [1, 2, 3] = Some (hmac_sha1_spec (replicate 80 0xaa) [1, 2, 3])"
  by (rule hmac_sha1_standard) simp_all

end
