(* ===== verification/Seri.thy ===== *)
theory Seri
  imports Prelude "HOL-Library.Multiset"
begin

text \<open>
  \<open>lualib-src/lua-seri.c\<close>: the serialisation of Lua values for the messages between
  services.  The values are trees: what \<open>pack_one\<close> reaches from a value, each table being the
  list of its fields in the order in which \<open>lua_next\<close> finds them.  (A cyclic table has an
  infinite tree; packing it ends with the error for too deep a table.)

  Code of the Lua virtual machine that the functions call is an argument: \<open>rawlen\<close> is the
  border that \<open>lua_rawlen\<close> finds for a table, \<open>float_key\<close> the key under which \<open>lua_rawset\<close>
  stores a value for a floating point number: the integer where the number has one, none for
  the number that is not a number.

  The write block, a chain of blocks of 128 bytes, is modelled with the bytes written to each
  block.  A result is none for undefined behaviour, else an error or a value.  The stacks of C and
  Lua are taken to be large enough: the error of \<open>luaL_checkstack\<close> is not modelled.
\<close>

subsection \<open>Results\<close>

datatype seri_error =
    Too_depth                  \<comment> \<open>serialize can't pack too depth table\<close>
  | Unsupport_type             \<comment> \<open>Unsupport type to serialize\<close>
  | Invalid_stream             \<comment> \<open>Invalid serialize stream\<close>
  | Block_too_big              \<comment> \<open>raised by lua_pushlstring for a negative length\<close>
  | Index_is_NaN               \<comment> \<open>raised by lua_rawset\<close>
  | Null_pointer               \<comment> \<open>deserialize null pointer\<close>

type_synonym 'a res = "(seri_error + 'a) option"

abbreviation ok :: "'a \<Rightarrow> 'a res" where
  "ok x \<equiv> Some (Inr x)"

abbreviation raise :: "seri_error \<Rightarrow> 'a res" where
  "raise e \<equiv> Some (Inl e)"

definition rbind :: "'a res \<Rightarrow> ('a \<Rightarrow> 'b res) \<Rightarrow> 'b res" where
  "rbind r f = (case r of None \<Rightarrow> None | Some (Inl e) \<Rightarrow> Some (Inl e) | Some (Inr x) \<Rightarrow> f x)"

lemma rbind_simps [simp]:
  "rbind None f = None" "rbind (raise e) f = raise e" "rbind (ok x) f = f x"
  by (simp_all add: rbind_def)

lemma rbind_cong [fundef_cong]: "r = r' \<Longrightarrow> (\<And>x. r' = ok x \<Longrightarrow> f x = g x) \<Longrightarrow> rbind r f = rbind r' g"
  by (auto simp: rbind_def split: option.split sum.split)

subsection \<open>Values\<close>

datatype lua_value =
    LNil
  | LBoolean bool
  | LInteger int                                  \<comment> \<open>lua_Integer, 64 bits\<close>
  | LNumber u64                                   \<comment> \<open>the bits of a double\<close>
  | LString "u8 list"
  | LUserdata u64                                 \<comment> \<open>a light userdata, a pointer\<close>
  | LTable "(lua_value \<times> lua_value) list"
  | LMetaTable "(lua_value \<times> lua_value) list"     \<comment> \<open>with __pairs: the pairs its iterator returns\<close>
  | LOther                                        \<comment> \<open>function, full userdata or thread\<close>

type_synonym fields = "(lua_value \<times> lua_value) list"

definition rawgeti :: "fields \<Rightarrow> int \<Rightarrow> lua_value" where
  "rawgeti es i = (case map_of es (LInteger i) of None \<Rightarrow> LNil | Some v \<Rightarrow> v)"

definition is_table :: "lua_value \<Rightarrow> bool" where
  "is_table v = (case v of LTable _ \<Rightarrow> True | LMetaTable _ \<Rightarrow> True | _ \<Rightarrow> False)"

text \<open>Assignment of a field: nil removes it.  A table that is a key has just been created, so
  that it differs from every key already there.\<close>

fun set_field :: "fields \<Rightarrow> lua_value \<Rightarrow> lua_value \<Rightarrow> fields" where
  "set_field [] k v = (if v = LNil then [] else [(k, v)])"
| "set_field ((k', v') # es) k v =
    (if k' = k \<and> \<not> is_table k then (if v = LNil then es else (k, v) # es)
     else (k', v') # set_field es k v)"

definition rawset :: "(u64 \<Rightarrow> lua_value option) \<Rightarrow> fields \<Rightarrow> lua_value \<Rightarrow> lua_value \<Rightarrow> fields res" where
  "rawset float_key es k v =
    (case k of
       LNumber x \<Rightarrow> (case float_key x of None \<Rightarrow> raise Index_is_NaN | Some k \<Rightarrow> ok (set_field es k v))
     | _ \<Rightarrow> ok (set_field es k v))"

subsection \<open>Tags\<close>

definition TYPE_NIL :: nat where "TYPE_NIL = 0"
definition TYPE_BOOLEAN :: nat where "TYPE_BOOLEAN = 1"
definition TYPE_NUMBER :: nat where "TYPE_NUMBER = 2"
definition TYPE_NUMBER_ZERO :: nat where "TYPE_NUMBER_ZERO = 0"
definition TYPE_NUMBER_BYTE :: nat where "TYPE_NUMBER_BYTE = 1"
definition TYPE_NUMBER_WORD :: nat where "TYPE_NUMBER_WORD = 2"
definition TYPE_NUMBER_DWORD :: nat where "TYPE_NUMBER_DWORD = 4"
definition TYPE_NUMBER_QWORD :: nat where "TYPE_NUMBER_QWORD = 6"
definition TYPE_NUMBER_REAL :: nat where "TYPE_NUMBER_REAL = 8"
definition TYPE_USERDATA :: nat where "TYPE_USERDATA = 3"
definition TYPE_SHORT_STRING :: nat where "TYPE_SHORT_STRING = 4"
definition TYPE_LONG_STRING :: nat where "TYPE_LONG_STRING = 5"
definition TYPE_TABLE :: nat where "TYPE_TABLE = 6"
definition MAX_COOKIE :: nat where "MAX_COOKIE = 32"
definition BLOCK_SIZE :: nat where "BLOCK_SIZE = 128"


definition COMBINE_TYPE :: "nat \<Rightarrow> nat \<Rightarrow> u8" where
  "COMBINE_TYPE t v = of_nat t OR push_bit 3 (of_nat v)"

text \<open>The representation in memory of a number of \<open>n\<close> bytes, little endian, and the unsigned
  number that bytes represent.\<close>

fun le_put :: "nat \<Rightarrow> int \<Rightarrow> u8 list" where
  "le_put 0 x = []"
| "le_put (Suc n) x = of_int (x mod 256) # le_put n (x div 256)"

fun le_get :: "u8 list \<Rightarrow> int" where
  "le_get [] = 0"
| "le_get (b # bs) = uint b + 256 * le_get bs"

text \<open>The conversion to a signed integer of 64 bits.\<close>

definition to_int64 :: "int \<Rightarrow> int" where
  "to_int64 x = (x + 9223372036854775808) mod 18446744073709551616 - 9223372036854775808"

subsection \<open>The write block\<close>

text \<open>\<open>wb_full\<close> holds the blocks before the current one, \<open>wb_current\<close> the \<open>ptr\<close> bytes written to
  the current one.\<close>

record write_block =
  wb_full :: "u8 list list"
  wb_current :: "u8 list"
  wb_len :: nat

definition blk_alloc :: "write_block \<Rightarrow> write_block" where
  "blk_alloc b = b\<lparr>wb_full := wb_full b @ [wb_current b], wb_current := []\<rparr>"

function wb_fill :: "write_block \<Rightarrow> u8 list \<Rightarrow> write_block" where
  "wb_fill b buf =
    (if int (length (wb_current b)) \<le> int BLOCK_SIZE - int (length buf)
     then b\<lparr>wb_current := wb_current b @ buf, wb_len := wb_len b + length buf\<rparr>
     else (let copy = BLOCK_SIZE - length (wb_current b);
               b = b\<lparr>wb_current := wb_current b @ take copy buf, wb_len := wb_len b + copy\<rparr>
           in wb_fill (blk_alloc b) (drop copy buf)))"
  by auto

termination
  by (relation "measures [\<lambda>(b, buf). length buf, \<lambda>(b, buf). length (wb_current b)]")
    (auto simp: blk_alloc_def BLOCK_SIZE_def)

definition wb_push :: "write_block \<Rightarrow> u8 list \<Rightarrow> write_block" where
  "wb_push b buf = wb_fill (if length (wb_current b) = BLOCK_SIZE then blk_alloc b else b) buf"


subsection \<open>Packing\<close>

definition wb_nil :: "write_block \<Rightarrow> write_block" where
  "wb_nil wb = wb_push wb [of_nat TYPE_NIL]"


definition wb_integer :: "write_block \<Rightarrow> int \<Rightarrow> write_block" where
  "wb_integer wb v =
    (if v = 0 then wb_push wb [COMBINE_TYPE TYPE_NUMBER TYPE_NUMBER_ZERO]
     else if v \<noteq> to_int32 v then
       wb_push (wb_push wb [COMBINE_TYPE TYPE_NUMBER TYPE_NUMBER_QWORD]) (le_put 8 v)
     else if v < 0 then
       wb_push (wb_push wb [COMBINE_TYPE TYPE_NUMBER TYPE_NUMBER_DWORD]) (le_put 4 v)
     else if v < 0x100 then
       wb_push (wb_push wb [COMBINE_TYPE TYPE_NUMBER TYPE_NUMBER_BYTE]) (le_put 1 v)
     else if v < 0x10000 then
       wb_push (wb_push wb [COMBINE_TYPE TYPE_NUMBER TYPE_NUMBER_WORD]) (le_put 2 v)
     else wb_push (wb_push wb [COMBINE_TYPE TYPE_NUMBER TYPE_NUMBER_DWORD]) (le_put 4 v))"




text \<open>The calls of \<open>pack_one\<close> for a sequence of values.\<close>

fun pack_seq :: "('a \<Rightarrow> write_block \<Rightarrow> write_block res) \<Rightarrow> 'a list \<Rightarrow> write_block \<Rightarrow> write_block res" where
  "pack_seq f [] wb = ok wb"
| "pack_seq f (x # xs) wb = rbind (f x wb) (pack_seq f xs)"

lemma pack_seq_cong [fundef_cong]:
  assumes "xs = ys" "wb = wb'" "\<And>x b. x \<in> set ys \<Longrightarrow> f x b = g x b"
  shows "pack_seq f xs wb = pack_seq g ys wb'"
proof -
  have "pack_seq f ys b = pack_seq g ys b" for b
    using assms(3) by (induction ys arbitrary: b) (auto intro!: rbind_cong)
  with assms(1,2) show ?thesis by simp
qed

text \<open>An array of \<open>INT_MAX\<close> elements or more does not fit the \<open>int\<close> of its size.\<close>

definition wb_table_array ::
  "(fields \<Rightarrow> nat) \<Rightarrow> (lua_value \<Rightarrow> write_block \<Rightarrow> write_block res) \<Rightarrow> write_block \<Rightarrow> fields \<Rightarrow> write_block res" where
  "wb_table_array rawlen pack wb es =
    (let array_size = rawlen es in
     if int array_size \<ge> 2147483647 then None
     else (let wb =
             (if array_size \<ge> MAX_COOKIE - 1
              then wb_integer (wb_push wb [COMBINE_TYPE TYPE_TABLE (MAX_COOKIE - 1)]) (int array_size)
              else wb_push wb [COMBINE_TYPE TYPE_TABLE array_size])
           in pack_seq pack (map (\<lambda>i. rawgeti es (int i)) [1..<array_size + 1]) wb))"

text \<open>The keys that \<open>wb_table_hash\<close> skips.\<close>

definition array_key :: "nat \<Rightarrow> lua_value \<Rightarrow> bool" where
  "array_key array_size k = (case k of LInteger x \<Rightarrow> x > 0 \<and> x \<le> int array_size | _ \<Rightarrow> False)"

definition wb_table_hash ::
  "(lua_value \<Rightarrow> write_block \<Rightarrow> write_block res) \<Rightarrow> write_block \<Rightarrow> fields \<Rightarrow> nat \<Rightarrow> write_block res" where
  "wb_table_hash pack wb es array_size =
    rbind (pack_seq (\<lambda>(k, v) wb. rbind (pack k wb) (pack v))
             (filter (\<lambda>(k, v). \<not> array_key array_size k) es) wb)
      (\<lambda>wb. ok (wb_nil wb))"

text \<open>The loop over an iterator ends when it returns nil for the key.\<close>

definition wb_table_metapairs ::
  "(lua_value \<Rightarrow> write_block \<Rightarrow> write_block res) \<Rightarrow> write_block \<Rightarrow> fields \<Rightarrow> write_block res" where
  "wb_table_metapairs pack wb ps =
    rbind (pack_seq (\<lambda>(k, v) wb. rbind (pack k wb) (pack v)) (takeWhile (\<lambda>(k, v). k \<noteq> LNil) ps)
             (wb_push wb [COMBINE_TYPE TYPE_TABLE 0]))
      (\<lambda>wb. ok (wb_nil wb))"

lemma rawgeti_cases: "rawgeti es i = LNil \<or> (\<exists>k. (k, rawgeti es i) \<in> set es)"
  by (auto simp: rawgeti_def dest: map_of_SomeD split: option.split)

lemma size_field:
  assumes "(k, v) \<in> set es"
  shows "size k < size (LTable es)" "size v < size (LTable es)"
    "size k < size (LMetaTable es)" "size v < size (LMetaTable es)"
proof -
  have "Suc (size k + size v) \<le> size_list (size_prod size size) es"
    using size_list_estimation' [OF assms, of "Suc (size k + size v)" "size_prod size size"] by simp
  then show "size k < size (LTable es)" "size v < size (LTable es)"
    "size k < size (LMetaTable es)" "size v < size (LMetaTable es)" by simp_all
qed

lemma size_rawgeti: "size (rawgeti es i) < size (LTable es)"
  using rawgeti_cases [of es i] size_field by fastforce

lemma wb_table_array_cong [fundef_cong]:
  assumes "es = es'" "wb = wb'" "rl = rl'" "\<And>x b. size x < size (LTable es') \<Longrightarrow> f x b = g x b"
  shows "wb_table_array rl f wb es = wb_table_array rl' g wb' es'"
  unfolding wb_table_array_def assms(1-3) Let_def
  by (intro if_cong refl pack_seq_cong assms(4)) (auto intro: size_rawgeti [simplified])

lemma wb_table_hash_cong [fundef_cong]:
  assumes "es = es'" "wb = wb'" "n = n'" "\<And>x b. size x < size (LTable es') \<Longrightarrow> f x b = g x b"
  shows "wb_table_hash f wb es n = wb_table_hash g wb' es' n'"
  unfolding wb_table_hash_def assms(1-3)
  by (intro rbind_cong refl pack_seq_cong) (auto intro!: rbind_cong assms(4) dest: size_field)

lemma wb_table_metapairs_cong [fundef_cong]:
  assumes "es = es'" "wb = wb'" "\<And>x b. size x < size (LMetaTable es') \<Longrightarrow> f x b = g x b"
  shows "wb_table_metapairs f wb es = wb_table_metapairs g wb' es'"
  unfolding wb_table_metapairs_def assms(1,2)
  by (intro rbind_cong refl pack_seq_cong)
    (auto intro!: rbind_cong assms(3) dest!: set_takeWhileD dest: size_field)





subsection \<open>Unpacking\<close>

text \<open>The read block is the list of the bytes from \<open>ptr\<close> on, of which there are \<open>len\<close>.  The
  callers of \<open>rb_read\<close> raise an error for the null pointer.\<close>

definition rb_read :: "u8 list \<Rightarrow> nat \<Rightarrow> (u8 list \<times> u8 list) option" where
  "rb_read rb sz = (if length rb < sz then None else Some (take sz rb, drop sz rb))"

definition rb_need :: "u8 list \<Rightarrow> nat \<Rightarrow> (u8 list \<times> u8 list) res" where
  "rb_need rb sz = (case rb_read rb sz of None \<Rightarrow> raise Invalid_stream | Some r \<Rightarrow> ok r)"

definition get_integer :: "u8 list \<Rightarrow> nat \<Rightarrow> (int \<times> u8 list) res" where
  "get_integer rb cookie =
    (if cookie = TYPE_NUMBER_ZERO then ok (0, rb)
     else if cookie = TYPE_NUMBER_BYTE then rbind (rb_need rb 1) (\<lambda>(n, rb). ok (le_get n, rb))
     else if cookie = TYPE_NUMBER_WORD then rbind (rb_need rb 2) (\<lambda>(n, rb). ok (le_get n, rb))
     else if cookie = TYPE_NUMBER_DWORD then rbind (rb_need rb 4) (\<lambda>(n, rb). ok (to_int32 (le_get n), rb))
     else if cookie = TYPE_NUMBER_QWORD then rbind (rb_need rb 8) (\<lambda>(n, rb). ok (to_int64 (le_get n), rb))
     else raise Invalid_stream)"

definition get_real :: "u8 list \<Rightarrow> (u64 \<times> u8 list) res" where
  "get_real rb = rbind (rb_need rb 8) (\<lambda>(n, rb). ok (word_of_int (le_get n), rb))"

definition get_pointer :: "u8 list \<Rightarrow> (u64 \<times> u8 list) res" where
  "get_pointer rb = rbind (rb_need rb 8) (\<lambda>(v, rb). ok (word_of_int (le_get v), rb))"

text \<open>
  \<open>get_buffer\<close> with a length of type \<open>int\<close>.  A negative length passes the test of \<open>rb_read\<close>, which
  then adds to the length that is left (that sum may overflow), and is refused by
  \<open>lua_pushlstring\<close>, for which it is a huge size.
\<close>

definition get_buffer :: "u8 list \<Rightarrow> int \<Rightarrow> (lua_value \<times> u8 list) res" where
  "get_buffer rb len =
    (if len < 0
     then if int (length rb) - len > 2147483647 then None else raise Block_too_big
     else rbind (rb_need rb (nat len)) (\<lambda>(p, rb). ok (LString p, rb)))"

text \<open>\<open>push_value\<close>; the case of a table calls its argument, which is \<open>unpack_table\<close>.\<close>

definition push_value ::
  "(nat \<Rightarrow> u8 list \<Rightarrow> (lua_value \<times> u8 list) res) \<Rightarrow> nat \<Rightarrow> nat \<Rightarrow> u8 list \<Rightarrow> (lua_value \<times> u8 list) res" where
  "push_value table type cookie rb =
    (if type = TYPE_NIL then ok (LNil, rb)
     else if type = TYPE_BOOLEAN then ok (LBoolean (cookie \<noteq> 0), rb)
     else if type = TYPE_NUMBER then
       (if cookie = TYPE_NUMBER_REAL then rbind (get_real rb) (\<lambda>(n, rb). ok (LNumber n, rb))
        else rbind (get_integer rb cookie) (\<lambda>(n, rb). ok (LInteger n, rb)))
     else if type = TYPE_USERDATA then rbind (get_pointer rb) (\<lambda>(p, rb). ok (LUserdata p, rb))
     else if type = TYPE_SHORT_STRING then get_buffer rb (int cookie)
     else if type = TYPE_LONG_STRING then
       (if cookie = 2 then rbind (rb_need rb 2) (\<lambda>(n, rb). get_buffer rb (le_get n))
        else if cookie \<noteq> 4 then raise Invalid_stream
        else rbind (rb_need rb 4) (\<lambda>(n, rb). get_buffer rb (to_int32 (le_get n))))
     else if type = TYPE_TABLE then table cookie rb
     else raise Invalid_stream)"

text \<open>The size of the array part of a table.\<close>

definition table_size :: "nat \<Rightarrow> u8 list \<Rightarrow> (int \<times> u8 list) res" where
  "table_size array_size rb =
    (if array_size = MAX_COOKIE - 1
     then rbind (rb_need rb 1) (\<lambda>(t, rb).
       (let type = unat (hd t); cookie = type div 8 in
        if type mod 8 \<noteq> TYPE_NUMBER \<or> cookie = TYPE_NUMBER_REAL then raise Invalid_stream
        else rbind (get_integer rb cookie) (\<lambda>(n, rb). ok (to_int32 n, rb))))
     else ok (int array_size, rb))"

text \<open>
  \<open>unpack_one\<close> and the two loops of \<open>unpack_table\<close>, from the element \<open>i\<close> of the array part on.
  Each call and each turn of a loop consumes fuel; a value takes at least one byte.
\<close>

fun unpack_one :: "(u64 \<Rightarrow> lua_value option) \<Rightarrow> nat \<Rightarrow> u8 list \<Rightarrow> (lua_value \<times> u8 list) res"
  and unpack_array :: "(u64 \<Rightarrow> lua_value option) \<Rightarrow> nat \<Rightarrow> int \<Rightarrow> int \<Rightarrow> fields \<Rightarrow> u8 list \<Rightarrow> (fields \<times> u8 list) res"
  and unpack_hash :: "(u64 \<Rightarrow> lua_value option) \<Rightarrow> nat \<Rightarrow> fields \<Rightarrow> u8 list \<Rightarrow> (fields \<times> u8 list) res" where
  "unpack_one float_key 0 rb = None"
| "unpack_one float_key (Suc fuel) rb =
    rbind (rb_need rb 1) (\<lambda>(t, rb).
      push_value (\<lambda>array_size rb.
          rbind (table_size array_size rb) (\<lambda>(n, rb).
          rbind (unpack_array float_key fuel 1 n [] rb) (\<lambda>(es, rb).
          rbind (unpack_hash float_key fuel es rb) (\<lambda>(es, rb). ok (LTable es, rb)))))
        (unat (hd t) mod 8) (unat (hd t) div 8) rb)"
| "unpack_array float_key 0 i n es rb = None"
| "unpack_array float_key (Suc fuel) i n es rb =
    (if i \<le> n
     then rbind (unpack_one float_key fuel rb) (\<lambda>(v, rb).
       unpack_array float_key fuel (i + 1) n (set_field es (LInteger i) v) rb)
     else ok (es, rb))"
| "unpack_hash float_key 0 es rb = None"
| "unpack_hash float_key (Suc fuel) es rb =
    rbind (unpack_one float_key fuel rb) (\<lambda>(k, rb).
      if k = LNil then ok (es, rb)
      else rbind (unpack_one float_key fuel rb) (\<lambda>(v, rb).
        rbind (rawset float_key es k v) (\<lambda>es. unpack_hash float_key fuel es rb)))"

text \<open>The loop of \<open>luaseri_unpack\<close> over the values of a stream; it ends where the stream does.\<close>

fun unpack_all :: "(u64 \<Rightarrow> lua_value option) \<Rightarrow> nat \<Rightarrow> u8 list \<Rightarrow> lua_value list res" where
  "unpack_all float_key 0 rb = None"
| "unpack_all float_key (Suc fuel) rb =
    (if rb = [] then ok []
     else rbind (unpack_one float_key fuel rb) (\<lambda>(v, rb).
       rbind (unpack_all float_key fuel rb) (\<lambda>vs. ok (v # vs))))"

text \<open>The arguments of \<open>luaseri_unpack\<close>: none, a string, or a pointer (the memory it points to)
  with a length.  The length of either is converted to \<open>int\<close>.\<close>

datatype unpack_arg = Arg_nil | Arg_string "u8 list" | Arg_pointer "u8 list option" int

definition unpack_fuel :: "u8 list \<Rightarrow> nat" where
  "unpack_fuel rb = 2 * length rb + 3"

definition unpack_buffer :: "(u64 \<Rightarrow> lua_value option) \<Rightarrow> u8 list option \<Rightarrow> int \<Rightarrow> lua_value list res" where
  "unpack_buffer float_key buffer len =
    (if len = 0 then ok []
     else case buffer of
        None \<Rightarrow> raise Null_pointer
      | Some mem \<Rightarrow>
          if len < 0 then ok []
          else if len > int (length mem) then None
          else (let rb = take (nat len) mem in unpack_all float_key (unpack_fuel rb) rb))"

definition luaseri_unpack :: "(u64 \<Rightarrow> lua_value option) \<Rightarrow> unpack_arg \<Rightarrow> lua_value list res" where
  "luaseri_unpack float_key arg =
    (case arg of
       Arg_nil \<Rightarrow> ok []
     | Arg_string s \<Rightarrow> unpack_buffer float_key (Some s) (to_int32 (int (length s)))
     | Arg_pointer p n \<Rightarrow> unpack_buffer float_key p (to_int32 n))"


subsection \<open>The bytes of a write block\<close>

definition wb_bytes :: "write_block \<Rightarrow> u8 list" where
  "wb_bytes b = concat (wb_full b) @ wb_current b"

definition wb_ok :: "write_block \<Rightarrow> bool" where
  "wb_ok b \<longleftrightarrow> (\<forall>x \<in> set (wb_full b). length x = BLOCK_SIZE) \<and> length (wb_current b) \<le> BLOCK_SIZE \<and>
    wb_len b = length (wb_bytes b)"


lemma blk_alloc_ok:
  assumes "wb_ok b" "length (wb_current b) = BLOCK_SIZE"
  shows "wb_ok (blk_alloc b) \<and> wb_bytes (blk_alloc b) = wb_bytes b \<and> wb_current (blk_alloc b) = []"
  using assms by (auto simp: wb_ok_def wb_bytes_def blk_alloc_def)

lemma wb_fill_ok:
  assumes "wb_ok b"
  shows "wb_ok (wb_fill b buf) \<and> wb_bytes (wb_fill b buf) = wb_bytes b @ buf"
  using assms
proof (induction b buf rule: wb_fill.induct)
  case (1 b buf)
  show ?case
  proof (cases "int (length (wb_current b)) \<le> int BLOCK_SIZE - int (length buf)")
    case True
    then have "wb_fill b buf = b\<lparr>wb_current := wb_current b @ buf, wb_len := wb_len b + length buf\<rparr>"
      by (simp add: wb_fill.simps)
    with True 1(2) show ?thesis by (auto simp: wb_ok_def wb_bytes_def)
  next
    case False
    define copy where "copy = BLOCK_SIZE - length (wb_current b)"
    define b1 where "b1 = b\<lparr>wb_current := wb_current b @ take copy buf, wb_len := wb_len b + copy\<rparr>"
    have c: "copy \<le> length buf" "length (wb_current b) + copy = BLOCK_SIZE"
      using False 1(2) by (auto simp: copy_def wb_ok_def)
    then have "wb_ok b1" "wb_bytes b1 = wb_bytes b @ take copy buf" "length (wb_current b1) = BLOCK_SIZE"
      using 1(2) by (auto simp: b1_def wb_ok_def wb_bytes_def)
    moreover from this have "wb_ok (blk_alloc b1)" "wb_bytes (blk_alloc b1) = wb_bytes b @ take copy buf"
      using blk_alloc_ok by auto
    moreover have "wb_fill b buf = wb_fill (blk_alloc b1) (drop copy buf)"
      using False by (subst wb_fill.simps) (simp add: b1_def copy_def Let_def)
    ultimately show ?thesis using 1(1) [OF False copy_def b1_def] by simp
  qed
qed

lemma wb_push_ok [simp]: "wb_ok b \<Longrightarrow> wb_ok (wb_push b buf)"
  and wb_push_bytes [simp]: "wb_ok b \<Longrightarrow> wb_bytes (wb_push b buf) = wb_bytes b @ buf"
  using wb_fill_ok blk_alloc_ok by (auto simp: wb_push_def)



subsection \<open>Numbers and tags\<close>


lemma length_le_put [simp]: "length (le_put n x) = n"
  by (induction n arbitrary: x) simp_all






lemma rb_need_Cons [simp]: "rb_need (x # rest) (Suc 0) = ok ([x], rest)"
  by (simp add: rb_need_def rb_read_def)


subsection \<open>Reading back a single value\<close>










subsection \<open>Values that are equal up to the identity of their tables\<close>

text \<open>Two tables are the same when their fields are, in some order.\<close>

inductive lua_same :: "lua_value \<Rightarrow> lua_value \<Rightarrow> bool" where
  scalar: "\<not> is_table v \<Longrightarrow> lua_same v v"
| table: "mset gs = mset es \<Longrightarrow> length gs = length fs \<Longrightarrow>
    \<forall>i < length fs. lua_same (fst (gs ! i)) (fst (fs ! i)) \<and> lua_same (snd (gs ! i)) (snd (fs ! i)) \<Longrightarrow>
    lua_same (LTable es) (LTable fs)"

inductive_cases lua_same_LNilE: "lua_same LNil w"
inductive_cases lua_same_LNil2E: "lua_same v LNil"

lemma is_table_simps [simp]:
  "\<not> is_table LNil" "\<not> is_table (LBoolean b)" "\<not> is_table (LInteger i)" "\<not> is_table (LNumber n)"
  "\<not> is_table (LString s)" "\<not> is_table (LUserdata p)" "is_table (LTable es)" "is_table (LMetaTable es)"
  "\<not> is_table LOther"
  by (simp_all add: is_table_def)






subsection \<open>Sequences of values\<close>













subsection \<open>The fields of an unpacked table\<close>






definition scalar_keys :: "fields \<Rightarrow> lua_value list" where
  "scalar_keys es = filter (\<lambda>k. \<not> is_table k) (map fst es)"

lemma scalar_keys_simps [simp]:
  "scalar_keys [] = []"
  "scalar_keys (e # es) = (if is_table (fst e) then scalar_keys es else fst e # scalar_keys es)"
  "set (scalar_keys es) = {k \<in> fst ` set es. \<not> is_table k}"
  by (auto simp: scalar_keys_def)









subsection \<open>Values that can be packed\<close>





















subsection \<open>Arbitrary streams\<close>

text \<open>
  The suffixes of a stream at which the code reads a value: the stream itself, what follows the
  header of a table, and what follows a value.
\<close>

inductive value_at :: "(u64 \<Rightarrow> lua_value option) \<Rightarrow> u8 list \<Rightarrow> u8 list \<Rightarrow> bool" for fk rb where
  start: "value_at fk rb rb"
| inside: "value_at fk rb (t # bs) \<Longrightarrow> unat t mod 8 = TYPE_TABLE \<Longrightarrow>
    table_size (unat t div 8) bs = ok (n, p) \<Longrightarrow> value_at fk rb p"
| after: "value_at fk rb p \<Longrightarrow> unpack_one fk fuel p = ok (v, q) \<Longrightarrow> value_at fk rb q"

lemma value_at_trans: "value_at fk b c \<Longrightarrow> value_at fk a b \<Longrightarrow> value_at fk a c"
  by (induction rule: value_at.induct) (auto intro: value_at.intros)

text \<open>A string whose length of 32 bits becomes a negative \<open>int\<close> so small that taking it from the length
  that is left overflows.\<close>

definition overlong :: "u8 list \<Rightarrow> bool" where
  "overlong p \<longleftrightarrow> (case p of [] \<Rightarrow> False | t # bs \<Rightarrow>
     unat t mod 8 = TYPE_LONG_STRING \<and> unat t div 8 = 4 \<and> 4 \<le> length bs \<and>
     to_int32 (le_get (take 4 bs)) < 0 \<and> int (length (drop 4 bs)) - to_int32 (le_get (take 4 bs)) > 2147483647)"

definition safe :: "(u64 \<Rightarrow> lua_value option) \<Rightarrow> u8 list \<Rightarrow> bool" where
  "safe fk rb \<longleftrightarrow> (\<forall>p. value_at fk rb p \<longrightarrow> \<not> overlong p)"

lemma safe_not_overlong: "safe fk rb \<Longrightarrow> \<not> overlong rb"
  by (simp add: safe_def value_at.start)

lemma safe_after: "safe fk rb \<Longrightarrow> unpack_one fk fuel rb = ok (v, q) \<Longrightarrow> safe fk q"
  unfolding safe_def using value_at_trans value_at.after value_at.start by metis

lemma safe_inside:
  "safe fk (t # bs) \<Longrightarrow> unat t mod 8 = TYPE_TABLE \<Longrightarrow> table_size (unat t div 8) bs = ok (n, p) \<Longrightarrow> safe fk p"
  unfolding safe_def using value_at_trans value_at.inside value_at.start by metis

text \<open>A result is an error, or a value with at most \<open>n\<close> bytes left, which satisfy \<open>S\<close>.\<close>

definition res_ok :: "nat \<Rightarrow> (u8 list \<Rightarrow> bool) \<Rightarrow> ('a \<times> u8 list) res \<Rightarrow> bool" where
  "res_ok n S r \<longleftrightarrow> (\<exists>e. r = raise e) \<or> (\<exists>w rest. r = ok (w, rest) \<and> length rest \<le> n \<and> S rest)"

abbreviation res_len :: "nat \<Rightarrow> ('a \<times> u8 list) res \<Rightarrow> bool" where
  "res_len n \<equiv> res_ok n (\<lambda>_. True)"

lemma res_ok_raise [simp]: "res_ok n S (raise e)"
  by (simp add: res_ok_def)

lemma res_ok_ok [simp]: "res_ok n S (ok (w, rest)) \<longleftrightarrow> length rest \<le> n \<and> S rest"
  by (simp add: res_ok_def)

lemma res_ok_rbind:
  assumes "res_ok n S r" "\<And>w rest. r = ok (w, rest) \<Longrightarrow> length rest \<le> n \<Longrightarrow> S rest \<Longrightarrow> res_ok m T (f (w, rest))"
  shows "res_ok m T (rbind r f)"
proof (cases "\<exists>e. r = raise e")
  case False
  then obtain w rest where "r = ok (w, rest)" "length rest \<le> n" "S rest"
    using assms(1) by (auto simp: res_ok_def)
  with assms(2) show ?thesis by simp
qed auto

lemma res_ok_mono: "res_ok m S r \<Longrightarrow> m \<le> n \<Longrightarrow> res_ok n S r"
  by (auto simp: res_ok_def)

lemma res_len_need: "length rb \<le> n \<Longrightarrow> res_len n (rb_need rb k)"
  by (auto simp: rb_need_def rb_read_def)

lemma res_len_get_integer: "length rb \<le> n \<Longrightarrow> res_len n (get_integer rb cookie)"
  by (auto simp: get_integer_def intro!: res_ok_rbind [OF res_len_need])

lemma res_len_get_buffer:
  "length rb \<le> n \<Longrightarrow> len < 0 \<Longrightarrow> int (length rb) - len \<le> 2147483647 \<Longrightarrow> res_len n (get_buffer rb len)"
  "length rb \<le> n \<Longrightarrow> 0 \<le> len \<Longrightarrow> res_len n (get_buffer rb len)"
  by (auto simp: get_buffer_def intro!: res_ok_rbind [OF res_len_need])

lemma le_get_nonneg: "0 \<le> le_get bs"
  by (induction bs) simp_all

lemma res_ok_if: "(c \<Longrightarrow> res_ok n S a) \<Longrightarrow> (\<not> c \<Longrightarrow> res_ok n S b) \<Longrightarrow> res_ok n S (if c then a else b)"
  by simp

lemma res_len_push_value:
  assumes "length bs \<le> n" "\<not> overlong (t # bs)"
    and "unat t mod 8 = TYPE_TABLE \<Longrightarrow> res_len n (table (unat t div 8) bs)"
  shows "res_len n (push_value table (unat t mod 8) (unat t div 8) bs)"
proof -
  have "res_len n (rbind (get_real bs) (\<lambda>(n, rb). ok (LNumber n, rb)))"
    "res_len n (rbind (get_pointer bs) (\<lambda>(p, rb). ok (LUserdata p, rb)))"
    "res_len n (rbind (rb_need bs 2) (\<lambda>(n, rb). get_buffer rb (le_get n)))"
    using assms(1) unfolding get_real_def get_pointer_def
    by (auto intro!: res_ok_rbind [where n = n] res_len_need res_len_get_buffer(2) le_get_nonneg)
  moreover have "res_len n (rbind (get_integer bs c) (\<lambda>(n, rb). ok (LInteger n, rb)))" for c
    using assms(1) by (auto intro!: res_ok_rbind [OF res_len_get_integer])
  moreover have "res_len n (rbind (rb_need bs 4) (\<lambda>(n, rb). get_buffer rb (to_int32 (le_get n))))"
    if "unat t mod 8 = TYPE_LONG_STRING" "unat t div 8 = 4"
  proof (cases "length bs < 4")
    case False
    let ?len = "to_int32 (le_get (take 4 bs))"
    have n: "length (drop 4 bs) \<le> n" using assms(1) by simp
    have "res_len n (get_buffer (drop 4 bs) ?len)"
    proof (cases "?len < 0")
      case True
      with assms(2) that False show ?thesis by (intro res_len_get_buffer(1) [OF n]) (auto simp: overlong_def)
    qed (simp add: res_len_get_buffer(2) [OF n])
    with False show ?thesis by (simp add: rb_need_def rb_read_def)
  qed (simp add: rb_need_def rb_read_def)
  ultimately show ?thesis
    unfolding push_value_def using assms by (intro res_ok_if) (simp_all add: res_len_get_buffer)
qed

lemma res_len_table_size: "length rb \<le> n \<Longrightarrow> res_len n (table_size cookie rb)"
  by (auto simp: table_size_def Let_def
      intro!: res_ok_rbind [OF res_len_need] res_ok_rbind [OF res_len_get_integer])

lemma unpack_res_ok:
  "(\<forall>rb n. safe fk rb \<and> length rb \<le> n \<and> 2 * n + 1 \<le> fuel \<longrightarrow> res_ok (n - 1) (safe fk) (unpack_one fk fuel rb)) \<and>
    (\<forall>rb n i k es. safe fk rb \<and> length rb \<le> n \<and> 2 * n + 2 \<le> fuel \<longrightarrow> res_ok n (safe fk) (unpack_array fk fuel i k es rb)) \<and>
    (\<forall>rb n es. safe fk rb \<and> length rb \<le> n \<and> 2 * n + 2 \<le> fuel \<longrightarrow> res_ok n (safe fk) (unpack_hash fk fuel es rb))"
proof (induction fuel)
  case 0
  then show ?case by simp
next
  case (Suc f)
  have one: "res_ok (n - 1) (safe fk) (unpack_one fk f rb)" if "safe fk rb" "length rb \<le> n" "2 * n + 1 \<le> f" for rb n
    using Suc that by blast
  have arr: "res_ok n (safe fk) (unpack_array fk f i k es rb)" if "safe fk rb" "length rb \<le> n" "2 * n + 2 \<le> f" for rb n i k es
    using Suc that by blast
  have hash: "res_ok n (safe fk) (unpack_hash fk f es rb)" if "safe fk rb" "length rb \<le> n" "2 * n + 2 \<le> f" for rb n es
    using Suc that by blast
  have 1: "res_ok (n - 1) (safe fk) (unpack_one fk (Suc f) rb)"
    if rb: "safe fk rb" "length rb \<le> n" "2 * n + 1 \<le> Suc f" for rb n
  proof -
    have "res_len (n - 1) (unpack_one fk (Suc f) rb)"
    proof (cases rb)
      case Nil
      then show ?thesis by (simp add: rb_need_def rb_read_def)
    next
      case (Cons t bs)
      then have t: "safe fk (t # bs)" "length bs \<le> n - 1" "2 * (n - 1) + 2 \<le> f" using rb by auto
      have "res_len (n - 1) (rbind (table_size (unat t div 8) bs) (\<lambda>(k, bs). rbind (unpack_array fk f 1 k [] bs) (\<lambda>(es, bs).
          rbind (unpack_hash fk f es bs) (\<lambda>(es, bs). ok (LTable es, bs)))))" if "unat t mod 8 = TYPE_TABLE"
        using t that by (auto intro!: res_ok_rbind [OF res_len_table_size] res_ok_rbind [OF arr] res_ok_rbind [OF hash]
            dest: safe_inside)
      then show ?thesis
        using t(2) safe_not_overlong [OF t(1)] unfolding Cons
        by (simp add: rb_need_def rb_read_def) (intro res_len_push_value)
    qed
    then show ?thesis using safe_after [OF rb(1), of "Suc f"] by (auto simp: res_ok_def simp del: unpack_one.simps)
  qed
  have 2: "res_ok n (safe fk) (unpack_array fk (Suc f) i k es rb)"
    if rb: "safe fk rb" "length rb \<le> n" "2 * n + 2 \<le> Suc f" for rb n i k es
  proof (cases "n = 0")
    case True
    with rb have "\<exists>e. unpack_one fk f rb = raise e" by (cases f) (auto simp: rb_need_def rb_read_def)
    with True rb show ?thesis by auto
  next
    case False
    have "res_ok (n - 1) (safe fk) (unpack_one fk f rb)" using rb by (intro one) auto
    then have "res_ok n (safe fk) (rbind (unpack_one fk f rb) (\<lambda>(v, rb). unpack_array fk f (i + 1) k (set_field es (LInteger i) v) rb))"
      using rb False by (auto intro!: res_ok_rbind res_ok_mono [OF arr, of _ "n - 1"])
    then show ?thesis using rb by simp
  qed
  have 3: "res_ok n (safe fk) (unpack_hash fk (Suc f) es rb)"
    if rb: "safe fk rb" "length rb \<le> n" "2 * n + 2 \<le> Suc f" for rb n es
  proof (cases "n = 0")
    case True
    with rb have "\<exists>e. unpack_one fk f rb = raise e" by (cases f) (auto simp: rb_need_def rb_read_def)
    with True rb show ?thesis by auto
  next
    case False
    have k: "res_ok (n - 1) (safe fk) (unpack_one fk f rb)" using rb by (intro one) auto
    have v: "res_ok (n - 1) (safe fk) (unpack_one fk f bs)" if "safe fk bs" "length bs \<le> n - 1" for bs
      using that rb False by (intro res_ok_mono [OF one, of _ "n - 1"]) auto
    have r: "res_ok n (safe fk) (rbind (rawset fk es k v) (\<lambda>es. unpack_hash fk f es bs))"
      if "safe fk bs" "length bs \<le> n - 1" for k v bs
    proof (cases "rawset fk es k v")
      case None
      then show ?thesis by (auto simp: rawset_def split: lua_value.splits option.splits)
    next
      case (Some a)
      then show ?thesis using that rb False by (cases a) (auto intro!: res_ok_mono [OF hash, of _ "n - 1"])
    qed
    have "res_ok n (safe fk) (rbind (unpack_one fk f rb) (\<lambda>(k, rb). if k = LNil then ok (es, rb)
        else rbind (unpack_one fk f rb) (\<lambda>(v, rb). rbind (rawset fk es k v) (\<lambda>es. unpack_hash fk f es rb))))"
      by (rule res_ok_rbind [OF k]) (use False in \<open>auto intro!: res_ok_rbind [OF v] r\<close>)
    then show ?thesis by simp
  qed
  show ?case using 1 2 3 by blast
qed

lemma unpack_all_total:
  assumes "safe fk rb" "2 * length rb + 2 \<le> fuel"
  shows "\<exists>r. unpack_all fk fuel rb = Some r"
  using assms
proof (induction fuel arbitrary: rb)
  case 0
  then show ?case by simp
next
  case (Suc f)
  have "res_ok (length rb - 1) (safe fk) (unpack_one fk f rb)"
    using unpack_res_ok [of fk f] Suc.prems by auto
  then consider e where "unpack_one fk f rb = raise e"
    | w rest where "unpack_one fk f rb = ok (w, rest)" "length rest \<le> length rb - 1" "safe fk rest"
    by (auto simp: res_ok_def)
  then show ?case
  proof cases
    case 2
    show ?thesis
    proof (cases rb)
      case (Cons t bs)
      then have "2 * length rest + 2 \<le> f" using 2(2) Suc.prems(2) by simp
      with 2(3) obtain r where "unpack_all fk f rest = Some r" using Suc.IH by blast
      then show ?thesis using 2(1) Cons by (cases r) auto
    qed simp
  qed simp
qed

text \<open>What is left of a stream is no longer than the stream.\<close>

lemma rbind_ok: "rbind r f = ok y \<longleftrightarrow> (\<exists>x. r = ok x \<and> f x = ok y)"
  by (auto simp: rbind_def split: option.splits sum.splits)

lemma read_shorter:
  "rb_need rb k = ok (p, q) \<Longrightarrow> length q \<le> length rb"
  "get_integer rb c = ok (x, q) \<Longrightarrow> length q \<le> length rb"
  "get_buffer rb len = ok (v, q) \<Longrightarrow> length q \<le> length rb"
  "table_size c rb = ok (n, q) \<Longrightarrow> length q \<le> length rb"
proof -
  show need: "length q \<le> length rb" if "rb_need rb k = ok (p, q)" for rb k p q
    using that by (auto simp: rb_need_def rb_read_def split: if_splits)
  show int: "length q \<le> length rb" if "get_integer rb c = ok (x, q)" for rb c x q
    using that by (auto simp: get_integer_def rbind_ok dest!: need split: if_splits)
  show "length q \<le> length rb" if "get_buffer rb len = ok (v, q)"
    using that by (auto simp: get_buffer_def rbind_ok dest!: need split: if_splits)
  show "length q \<le> length rb" if "table_size c rb = ok (n, q)"
    using that by (fastforce simp: table_size_def Let_def rbind_ok dest!: need int split: if_splits)
qed

lemma push_value_shorter:
  assumes "push_value table type cookie rb = ok (v, q)" "\<And>v q. table cookie rb = ok (v, q) \<Longrightarrow> length q \<le> length rb"
  shows "length q \<le> length rb"
  using assms
  by (fastforce simp: push_value_def get_real_def get_pointer_def rbind_ok dest!: read_shorter split: if_splits)

lemma unpack_shorter:
  "(\<forall>rb v q. unpack_one fk fuel rb = ok (v, q) \<longrightarrow> length q \<le> length rb) \<and>
    (\<forall>i k es rb r q. unpack_array fk fuel i k es rb = ok (r, q) \<longrightarrow> length q \<le> length rb) \<and>
    (\<forall>es rb r q. unpack_hash fk fuel es rb = ok (r, q) \<longrightarrow> length q \<le> length rb)"
proof (induction fuel)
  case (Suc f)
  then have one: "\<And>rb v q. unpack_one fk f rb = ok (v, q) \<Longrightarrow> length q \<le> length rb"
    and arr: "\<And>i k es rb r q. unpack_array fk f i k es rb = ok (r, q) \<Longrightarrow> length q \<le> length rb"
    and hash: "\<And>es rb r q. unpack_hash fk f es rb = ok (r, q) \<Longrightarrow> length q \<le> length rb" by blast+
  have "length q \<le> length rb" if "unpack_one fk (Suc f) rb = ok (v, q)" for rb v q
  proof -
    from that obtain t bs where t: "rb_need rb 1 = ok (t, bs)" and
      v: "push_value (\<lambda>array_size rb. rbind (table_size array_size rb) (\<lambda>(n, rb).
          rbind (unpack_array fk f 1 n [] rb) (\<lambda>(es, rb). rbind (unpack_hash fk f es rb)
          (\<lambda>(es, rb). ok (LTable es, rb))))) (unat (hd t) mod 8) (unat (hd t) div 8) bs = ok (v, q)"
      by (auto simp: rbind_ok)
    have "length q \<le> length bs"
      by (rule push_value_shorter [OF v]) (auto simp: rbind_ok dest!: read_shorter(4) arr hash)
    with read_shorter(1) [OF t] show ?thesis by simp
  qed
  moreover have "length q \<le> length rb" if "unpack_array fk (Suc f) i k es rb = ok (r, q)" for i k es rb r q
    using that by (auto simp: rbind_ok dest!: one arr split: if_splits)
  moreover have "length q \<le> length rb" if "unpack_hash fk (Suc f) es rb = ok (r, q)" for es rb r q
    using that by (fastforce simp: rbind_ok dest!: one hash split: if_splits)
  ultimately show ?case by blast
qed simp

lemma value_at_shorter: "value_at fk rb p \<Longrightarrow> length p \<le> length rb"
proof (induction rule: value_at.induct)
  case (inside t bs n p)
  with read_shorter(4) [OF inside.hyps(3)] show ?case by simp
next
  case (after p fuel v q)
  then have "length q \<le> length p" using unpack_shorter by blast
  with after.IH show ?case by simp
qed simp

text \<open>C21: Unpacking an arbitrary sequence of bytes, a string or a block of memory with its length, ends
  with values or with an error and reads no byte outside it, unless the code gets to a value that is
  a string with a length of 32 bits which, read as an \<open>int\<close>, is so far below 0 that the number of
  bytes left overflows when it is subtracted.  (Only the bytes read as the tag of a value matter, not
  those inside strings and numbers.  A string of 2^31 bytes or more is cut to the length that its
  size has as an \<open>int\<close>.  The stacks of C and Lua are taken to have room for the nesting of the
  tables.)\<close>

theorem seri_unpack_total:
  assumes "\<forall>p. value_at fk (take (nat (to_int32 (int (length bs)))) bs) p \<longrightarrow> \<not> overlong p"
  shows "\<exists>r. luaseri_unpack fk (Arg_string bs) = Some r \<and>
    luaseri_unpack fk (Arg_pointer (Some bs) (int (length bs))) = Some r"
proof -
  let ?len = "to_int32 (int (length bs))" and ?rb = "take (nat (to_int32 (int (length bs)))) bs"
  have "safe fk ?rb" using assms by (simp add: safe_def)
  from unpack_all_total [OF this, of "unpack_fuel ?rb"] obtain r where
    r: "unpack_all fk (unpack_fuel ?rb) ?rb = Some r" by (auto simp: unpack_fuel_def)
  have "?len \<le> int (length bs)"
    unfolding to_int32_def using zmod_le_nonneg_dividend [of "int (length bs) + 2147483648" 4294967296] by simp
  with r show ?thesis by (simp add: luaseri_unpack_def unpack_buffer_def Let_def)
qed

text \<open>A stream with the byte \<open>0x25\<close> inside a string, and a table cut off in its array.\<close>

theorem seri_unpack_total_witness: "\<exists>r. luaseri_unpack (\<lambda>x. None) (Arg_string [0x0C, 0x25, 0x16]) = Some r"
proof -
  let ?bs = "[0x0C, 0x25, 0x16] :: u8 list"
  have i: "take (nat (to_int32 (int (length ?bs)))) ?bs = ?bs" by (simp add: to_int32_def)
  have "\<not> overlong p" if "value_at (\<lambda>x. None) ?bs p" for p
    using value_at_shorter [OF that] by (auto simp: overlong_def split: list.splits)
  then show ?thesis using seri_unpack_total [of "\<lambda>x. None" ?bs] unfolding i by auto
qed

end
