(* ===== verification/Cluster.thy ===== *)
theory Cluster
  imports Prelude
begin

text \<open>
  The packets between the nodes of a cluster, \<open>lualib-src/lua-cluster.c\<close>: requests to an
  address that is a handle or a name, responses, and the parts into which a message of
  more than 32K is cut.  Every packet starts with the two byte size by which the socket
  framing of the other side delimits it.

  The strings and userdata of Lua are lists of bytes, and a function returns the list of
  the values it pushes.  The local array \<open>buf\<close> has \<open>TEMP_LENGTH\<close> bytes; a packet that
  does not fit, or reading more bytes than a message has, is a fault.  That the functions
  free the message they were given is not modelled.
\<close>

definition TEMP_LENGTH :: int where "TEMP_LENGTH = 0x8200"
definition MULTI_PART :: int where "MULTI_PART = 0x8000"

datatype cl_value =
    CInt int
  | CStr "u8 list"
  | CBool bool

datatype cl_error =
    Invalid_request_message
  | Invalid_request_session
  | Name_too_long
  | Invalid_cluster_message
  | Invalid_package_type

text \<open>The type and value of the first argument of \<open>lpackrequest\<close>.\<close>

datatype cl_addr =
    Addr_number int
  | Addr_string "u8 list"
  | Addr_other

subsection \<open>Packing\<close>

definition fill_uint32 :: "u32 \<Rightarrow> u8 list" where
  "fill_uint32 n = [ucast (n AND 0xff), ucast (drop_bit 8 n AND 0xff), ucast (drop_bit 16 n AND 0xff),
     ucast (drop_bit 24 n AND 0xff)]"

definition fill_header :: "int \<Rightarrow> u8 list option" where
  "fill_header sz = do {
     c_assert (sz < 0x10000);
     Some [word_of_int (drop_bit 8 sz AND 0xff), word_of_int (sz AND 0xff)] }"

text \<open>\<open>memcpy\<close> of the first bytes of a message.\<close>

definition message_bytes :: "u8 list \<Rightarrow> int \<Rightarrow> u8 list option" where
  "message_bytes msg sz = do {
     c_assert (sz \<le> int (length msg));
     Some (take (nat sz) msg) }"

text \<open>\<open>lua_pushlstring(L, buf, n)\<close> of a packet assembled in \<open>buf\<close>.\<close>

definition push_packet :: "u8 list \<Rightarrow> u8 list option" where
  "push_packet p = do { c_assert (int (length p) \<le> TEMP_LENGTH); Some p }"

definition packreq_number :: "int \<Rightarrow> int \<Rightarrow> u8 list \<Rightarrow> u32 \<Rightarrow> (int \<times> u8 list) option" where
  "packreq_number addr session msg sz =
     (if uint sz < MULTI_PART
      then do {
        h \<leftarrow> fill_header (uint sz + 9);
        d \<leftarrow> message_bytes msg (uint sz);
        p \<leftarrow> push_packet (h @ [0] @ fill_uint32 (word_of_int addr) @ fill_uint32 (word_of_int session) @ d);
        Some (0, p) }
      else do {
        h \<leftarrow> fill_header 13;
        p \<leftarrow> push_packet (h @ [1] @ fill_uint32 (word_of_int addr) @ fill_uint32 (word_of_int session) @ fill_uint32 sz);
        Some ((uint sz - 1) div MULTI_PART + 1, p) })"

definition packreq_string :: "u8 list option \<Rightarrow> int \<Rightarrow> u8 list \<Rightarrow> u32 \<Rightarrow> (cl_error + int \<times> u8 list) option" where
  "packreq_string nm session msg sz = (case nm of
     None \<Rightarrow> Some (Inl Name_too_long)
   | Some name \<Rightarrow>
       if length name < 1 \<or> length name > 255 then Some (Inl Name_too_long)
       else if uint sz < MULTI_PART
       then do {
         h \<leftarrow> fill_header (uint sz + 6 + int (length name));
         d \<leftarrow> message_bytes msg (uint sz);
         p \<leftarrow> push_packet (h @ [0x80, of_nat (length name)] @ name @ fill_uint32 (word_of_int session) @ d);
         Some (Inr (0, p)) }
       else do {
         h \<leftarrow> fill_header (10 + int (length name));
         p \<leftarrow> push_packet (h @ [0x81, of_nat (length name)] @ name @ fill_uint32 (word_of_int session) @ fill_uint32 sz);
         Some (Inr ((uint sz - 1) div MULTI_PART + 1, p)) })"

text \<open>The parts of a long request; the first argument is what \<open>i\<close> has left to \<open>part\<close>.\<close>

fun packreq_parts :: "nat \<Rightarrow> int \<Rightarrow> u8 list \<Rightarrow> u32 \<Rightarrow> u8 list list option" where
  "packreq_parts 0 session ptr sz = Some []"
| "packreq_parts (Suc n) session ptr sz =
     (let (s, b) = (if uint sz > MULTI_PART then (MULTI_PART, 2) else (uint sz, 3)) in do {
        h \<leftarrow> fill_header (s + 5);
        d \<leftarrow> message_bytes ptr s;
        p \<leftarrow> push_packet (h @ [b] @ fill_uint32 (word_of_int session) @ d);
        ps \<leftarrow> packreq_parts n session (drop (nat s) ptr) (sz - word_of_int s);
        Some (p # ps) })"

definition packreq_multi :: "int \<Rightarrow> u8 list \<Rightarrow> u32 \<Rightarrow> u8 list list option" where
  "packreq_multi session msg sz = packreq_parts (nat ((uint sz - 1) div MULTI_PART + 1)) session msg sz"

text \<open>The request, the next session and, for a long message, the table of its parts.\<close>

definition lpackrequest ::
    "cl_addr \<Rightarrow> int \<Rightarrow> u8 list option \<Rightarrow> int \<Rightarrow> (cl_error + u8 list \<times> int \<times> u8 list list option) option" where
  "lpackrequest addr session3 msg4 size4 = (case msg4 of
     None \<Rightarrow> Some (Inl Invalid_request_message)
   | Some msg \<Rightarrow>
       let sz = word_of_int size4; session = to_int32 session3 in
       if session \<le> 0 then Some (Inl Invalid_request_session)
       else do {
         r \<leftarrow> (case addr of
                Addr_number a \<Rightarrow> do { r \<leftarrow> packreq_number a session msg sz; Some (Inr r) }
              | Addr_string s \<Rightarrow> packreq_string (Some s) session msg sz
              | Addr_other \<Rightarrow> packreq_string None session msg sz);
         (case r of
            Inl e \<Rightarrow> Some (Inl e)
          | Inr (multipak, p) \<Rightarrow>
              let current = session;
                  session = (if to_int32 (session + 1) < 0 then 1 else to_int32 (session + 1))
              in if multipak \<noteq> 0
                 then do { ps \<leftarrow> packreq_multi current msg sz; Some (Inr (p, session, Some ps)) }
                 else Some (Inr (p, session, None))) })"

subsection \<open>Unpacking\<close>

definition unpack_uint32 :: "u8 list \<Rightarrow> nat \<Rightarrow> u32 option" where
  "unpack_uint32 buf i = do {
     a \<leftarrow> arr_get buf i;
     b \<leftarrow> arr_get buf (i + 1);
     c \<leftarrow> arr_get buf (i + 2);
     d \<leftarrow> arr_get buf (i + 3);
     Some (ucast a OR push_bit 8 (ucast b) OR push_bit 16 (ucast c) OR push_bit 24 (ucast d)) }"

text \<open>\<open>lua_pushlstring(L, buf + i, n)\<close>.\<close>

definition push_bytes :: "u8 list \<Rightarrow> nat \<Rightarrow> int \<Rightarrow> cl_value option" where
  "push_bytes buf i n = do {
     c_assert (0 \<le> n \<and> int i + n \<le> int (length buf));
     Some (CStr (take (nat n) (drop i buf))) }"

type_synonym unpacked = "(cl_error + cl_value list) option"

definition unpackreq_number :: "u8 list \<Rightarrow> int \<Rightarrow> unpacked" where
  "unpackreq_number buf sz =
     (if sz < 9 then Some (Inl Invalid_cluster_message)
      else do {
        address \<leftarrow> unpack_uint32 buf 1;
        session \<leftarrow> unpack_uint32 buf 5;
        d \<leftarrow> push_bytes buf 9 (sz - 9);
        Some (Inr [CInt (uint address), CInt (uint session), d]) })"

definition unpackmreq_number :: "u8 list \<Rightarrow> int \<Rightarrow> unpacked" where
  "unpackmreq_number buf sz =
     (if sz \<noteq> 13 then Some (Inl Invalid_cluster_message)
      else do {
        address \<leftarrow> unpack_uint32 buf 1;
        session \<leftarrow> unpack_uint32 buf 5;
        size \<leftarrow> unpack_uint32 buf 9;
        Some (Inr [CInt (uint address), CInt (uint session), CInt (uint size), CBool True]) })"

definition unpackmreq_part :: "u8 list \<Rightarrow> int \<Rightarrow> unpacked" where
  "unpackmreq_part buf sz =
     (if sz < 5 then Some (Inl Invalid_cluster_message)
      else do {
        t \<leftarrow> arr_get buf 0;
        session \<leftarrow> unpack_uint32 buf 1;
        d \<leftarrow> push_bytes buf 5 (sz - 5);
        Some (Inr [CBool False, CInt (uint session), d, CBool (t = 2)]) })"

definition unpackreq_string :: "u8 list \<Rightarrow> int \<Rightarrow> unpacked" where
  "unpackreq_string buf sz =
     (if sz < 2 then Some (Inl Invalid_cluster_message)
      else do {
        b \<leftarrow> arr_get buf 1;
        let namesz = unat b;
        (if sz < int namesz + 6 then Some (Inl Invalid_cluster_message)
         else do {
           nm \<leftarrow> push_bytes buf 2 (int namesz);
           session \<leftarrow> unpack_uint32 buf (namesz + 2);
           d \<leftarrow> push_bytes buf (2 + namesz + 4) (sz - int namesz - 6);
           Some (Inr [nm, CInt (uint session), d]) }) })"

definition unpackmreq_string :: "u8 list \<Rightarrow> int \<Rightarrow> unpacked" where
  "unpackmreq_string buf sz =
     (if sz < 2 then Some (Inl Invalid_cluster_message)
      else do {
        b \<leftarrow> arr_get buf 1;
        let namesz = unat b;
        (if sz < int namesz + 10 then Some (Inl Invalid_cluster_message)
         else do {
           nm \<leftarrow> push_bytes buf 2 (int namesz);
           session \<leftarrow> unpack_uint32 buf (namesz + 2);
           size \<leftarrow> unpack_uint32 buf (namesz + 6);
           Some (Inr [nm, CInt (uint session), CInt (uint size), CBool True]) }) })"

text \<open>A string of Lua ends with a zero byte, which is \<open>msg[0]\<close> of the empty string.\<close>

definition lunpackrequest :: "u8 list \<Rightarrow> unpacked" where
  "lunpackrequest msg =
     (let sz = to_int32 (int (length msg)); t = (case msg of [] \<Rightarrow> 0 | b # bs \<Rightarrow> b) in
      if t = 0 then unpackreq_number msg sz
      else if t = 1 then unpackmreq_number msg sz
      else if t = 2 \<or> t = 3 then unpackmreq_part msg sz
      else if t = 0x80 then unpackreq_string msg sz
      else if t = 0x81 then unpackmreq_string msg sz
      else Some (Inl Invalid_package_type))"

subsection \<open>Responses\<close>

text \<open>The loop over the parts of a long response.\<close>

fun packres_parts :: "nat \<Rightarrow> u32 \<Rightarrow> u8 list \<Rightarrow> int \<Rightarrow> u8 list list option" where
  "packres_parts 0 session ptr sz = Some []"
| "packres_parts (Suc n) session ptr sz =
     (let (s, b) = (if sz > MULTI_PART then (MULTI_PART, 3) else (sz, 4)) in do {
        h \<leftarrow> fill_header (s + 5);
        d \<leftarrow> message_bytes ptr s;
        p \<leftarrow> push_packet (h @ fill_uint32 session @ [b] @ d);
        ps \<leftarrow> packres_parts n session (drop (nat s) ptr) (sz - s);
        Some (p # ps) })"

text \<open>A response is one string, or a table of strings; \<open>sz\<close> is the length of a string, or the
  argument that comes with a userdata.\<close>

definition lpackresponse :: "int \<Rightarrow> bool \<Rightarrow> u8 list \<Rightarrow> u64 \<Rightarrow> (u8 list + u8 list list) option" where
  "lpackresponse session1 ok msg size4 =
     (let session = word_of_int session1; sz = uint size4;
          sz' = (if \<not> ok \<and> sz > MULTI_PART then MULTI_PART else sz)
      in if ok \<and> sz > MULTI_PART
         then do {
           h \<leftarrow> fill_header 9;
           p \<leftarrow> push_packet (h @ fill_uint32 session @ [2] @ fill_uint32 (word_of_int sz));
           ps \<leftarrow> packres_parts (nat (to_int32 ((sz - 1) div MULTI_PART + 1))) session msg sz;
           Some (Inr (p # ps)) }
         else do {
           h \<leftarrow> fill_header (sz' + 5);
           d \<leftarrow> message_bytes msg sz';
           p \<leftarrow> push_packet (h @ fill_uint32 session @ [if ok then 1 else 0] @ d);
           Some (Inl p) })"

definition lunpackresponse :: "u8 list \<Rightarrow> cl_value list option" where
  "lunpackresponse buf =
     (if length buf < 5 then Some []
      else do {
        session \<leftarrow> unpack_uint32 buf 0;
        t \<leftarrow> arr_get buf 4;
        let s = CInt (uint session);
        let d = CStr (drop 5 buf);
        (if t = 0 then Some [s, CBool False, d]
         else if t = 1 \<or> t = 4 then Some [s, CBool True, d]
         else if t = 2
         then if length buf \<noteq> 9 then Some []
              else do { sz \<leftarrow> unpack_uint32 buf 5; Some [s, CBool True, CInt (uint sz), CBool True] }
         else if t = 3 then Some [s, CBool True, d, CBool True]
         else Some []) })"

subsection \<open>Joining the parts\<close>

text \<open>The loop of \<open>lconcat\<close> over \<open>t[2]\<close>, \<open>t[3]\<close>, ...; the bytes written to \<open>buff\<close> so far.\<close>

fun concat_loop :: "cl_value list \<Rightarrow> int \<Rightarrow> u8 list \<Rightarrow> u8 list option" where
  "concat_loop (CStr str # vs) sz buff =
     (if int (length str) + int (length buff) > sz then None else concat_loop vs sz (buff @ str))"
| "concat_loop _ sz buff = (if int (length buff) \<noteq> sz then None else Some buff)"

text \<open>The argument lists the values \<open>t[1]\<close>, \<open>t[2]\<close>, ... up to the first \<open>nil\<close>; no result is an empty
  list of values.  A negative size is an allocation that cannot succeed and ends the process.\<close>

definition lconcat :: "cl_value list \<Rightarrow> (u8 list \<times> int) option option" where
  "lconcat t = (case t of
     CInt n # vs \<Rightarrow>
       let sz = to_int32 n in do {
         c_assert (0 \<le> sz);
         Some (map_option (\<lambda>b. (b, sz)) (concat_loop vs sz [])) }
   | _ \<Rightarrow> Some None)"

subsection \<open>Numbers and headers\<close>

lemma bytes_of_word:
  "ucast (ucast (n AND 0xff) :: u8) OR push_bit 8 (ucast (ucast (drop_bit 8 n AND 0xff) :: u8)) OR
   push_bit 16 (ucast (ucast (drop_bit 16 n AND 0xff) :: u8)) OR
   push_bit 24 (ucast (ucast (drop_bit 24 n AND 0xff) :: u8)) = (n :: u32)" (is "?l = n")
proof -
  have byte: "bit (255 :: int) k \<longleftrightarrow> k < 8" for k
  proof -
    have "(255 :: int) = mask 8" by (simp add: mask_eq_exp_minus_1)
    then have "bit (255 :: int) k \<longleftrightarrow> bit (mask 8 :: int) k" by (rule arg_cong)
    also have "\<dots> \<longleftrightarrow> k < 8" by (subst bit_mask_iff) auto
    finally show ?thesis .
  qed
  show ?thesis
  proof (rule bit_word_eqI)
    fix k
    assume "k < LENGTH(32)"
    then have "k < 32" by simp
    consider "k < 8" | "8 \<le> k" "k < 16" | "16 \<le> k" "k < 24" | "24 \<le> k" by linarith
    then show "bit ?l k = bit n k"
      using \<open>k < 32\<close> by cases (auto simp: bit_simps byte)
  qed
qed

lemma length_fill_uint32 [simp]: "length (fill_uint32 n) = 4"
  by (simp add: fill_uint32_def)

lemma unpack_fill: "i = length a \<Longrightarrow> unpack_uint32 (a @ fill_uint32 n @ b) i = Some n"
  using bytes_of_word [of n] by (simp add: unpack_uint32_def fill_uint32_def nth_append arr_get_def)

text \<open>A packet: a body behind its size in two bytes.\<close>

definition packet :: "u8 list \<Rightarrow> u8 list" where
  "packet body = word_of_int (drop_bit 8 (int (length body)) AND 0xff) # word_of_int (int (length body) AND 0xff) # body"

lemma packet_ok:
  assumes "n = int (length body)" "n < 0x10000"
  shows "fill_header n = Some (take 2 (packet body))" "take 2 (packet body) @ body = packet body"
  using assms by (simp_all add: fill_header_def packet_def)

lemma packet_body [simp]: "drop 2 (packet body) = body" "length (packet body) = length body + 2"
  by (simp_all add: packet_def)

lemma push_packet_ok: "int (length p) \<le> TEMP_LENGTH \<Longrightarrow> push_packet p = Some p"
  by (simp add: push_packet_def)

lemma message_bytes_ok: "0 \<le> n \<Longrightarrow> n \<le> int (length msg) \<Longrightarrow> message_bytes msg n = Some (take (nat n) msg)"
  by (simp add: message_bytes_def)

text \<open>A packet is assembled from its header and body.\<close>

lemma assemble:
  assumes "n = int (length body)" "n + 2 \<le> TEMP_LENGTH"
  shows "do { h \<leftarrow> fill_header n; p \<leftarrow> push_packet (h @ body); f p } = f (packet body)"
  using assms packet_ok [of n body] by (simp add: TEMP_LENGTH_def push_packet_ok)

subsection \<open>Requests\<close>

text \<open>The bodies of the packets.\<close>

definition req_number :: "u8 \<Rightarrow> u32 \<Rightarrow> u32 \<Rightarrow> u8 list \<Rightarrow> u8 list" where
  "req_number t addr session d = [t] @ fill_uint32 addr @ fill_uint32 session @ d"

definition req_string :: "u8 \<Rightarrow> u8 list \<Rightarrow> u32 \<Rightarrow> u8 list \<Rightarrow> u8 list" where
  "req_string t nm session d = [t, of_nat (length nm)] @ nm @ fill_uint32 session @ d"

definition req_part :: "u8 \<Rightarrow> u32 \<Rightarrow> u8 list \<Rightarrow> u8 list" where
  "req_part t session d = [t] @ fill_uint32 session @ d"

lemma unpack_req_number:
  assumes "length d < 0x10000"
  shows "lunpackrequest (req_number 0 addr session d) = Some (Inr [CInt (uint addr), CInt (uint session), CStr d])"
    "lunpackrequest (req_number 1 addr session (fill_uint32 sz)) =
      Some (Inr [CInt (uint addr), CInt (uint session), CInt (uint sz), CBool True])"
proof -
  note fills = unpack_fill [of 1 "[t]" addr "fill_uint32 session @ e" for t e]
    unpack_fill [of 5 "[t] @ fill_uint32 addr" session e for t e]
    unpack_fill [of 9 "[t] @ fill_uint32 addr @ fill_uint32 session" sz "[]" for t]
  show "lunpackrequest (req_number 0 addr session d) = Some (Inr [CInt (uint addr), CInt (uint session), CStr d])"
    using assms fills by (simp add: lunpackrequest_def req_number_def to_int32_id unpackreq_number_def push_bytes_def Let_def c_simps)
  show "lunpackrequest (req_number 1 addr session (fill_uint32 sz)) =
      Some (Inr [CInt (uint addr), CInt (uint session), CInt (uint sz), CBool True])"
    using fills by (simp add: lunpackrequest_def req_number_def to_int32_id unpackmreq_number_def Let_def)
qed

lemma unpack_req_string:
  assumes "length d < 0x10000" "length nm \<le> 255"
  shows "lunpackrequest (req_string 0x80 nm session d) = Some (Inr [CStr nm, CInt (uint session), CStr d])"
    "lunpackrequest (req_string 0x81 nm session (fill_uint32 sz)) =
      Some (Inr [CStr nm, CInt (uint session), CInt (uint sz), CBool True])"
proof -
  have len: "unat (of_nat (length nm) :: u8) = length nm" using assms(2) by (simp add: unat_of_nat)
  then have ulen: "uint (of_nat (length nm) :: u8) = int (length nm)" by (metis uint_nat)
  have rest: "drop (6 + length nm) (t # l # nm @ fill_uint32 session @ d) = d" for t l
    using drop_append [of "6 + length nm" "[t, l] @ nm @ fill_uint32 session" d] by simp
  note fills = unpack_fill [of "length nm + 2" "[t, of_nat (length nm)] @ nm" session e for t e]
    unpack_fill [of "length nm + 6" "[t, of_nat (length nm)] @ nm @ fill_uint32 session" sz "[]" for t]
  show "lunpackrequest (req_string 0x80 nm session d) = Some (Inr [CStr nm, CInt (uint session), CStr d])"
    using assms fills
    by (simp add: lunpackrequest_def req_string_def to_int32_id unpackreq_string_def push_bytes_def len ulen rest Let_def c_simps)
  show "lunpackrequest (req_string 0x81 nm session (fill_uint32 sz)) =
      Some (Inr [CStr nm, CInt (uint session), CInt (uint sz), CBool True])"
    using assms fills
    by (simp add: lunpackrequest_def req_string_def to_int32_id unpackmreq_string_def push_bytes_def len ulen Let_def c_simps)
qed

lemma unpack_req_part:
  assumes "length d < 0x10000" "t = 2 \<or> t = 3"
  shows "lunpackrequest (req_part t session d) = Some (Inr [CBool False, CInt (uint session), CStr d, CBool (t = 2)])"
  using assms unpack_fill [of 1 "[t]" session d]
  by (auto simp: lunpackrequest_def req_part_def to_int32_id unpackmreq_part_def push_bytes_def Let_def c_simps)

text \<open>The pieces of a long message, and the packets of the pieces: the last one is marked.\<close>

function pieces :: "u8 list \<Rightarrow> u8 list list" where
  "pieces msg = (if int (length msg) > MULTI_PART then take (nat MULTI_PART) msg # pieces (drop (nat MULTI_PART) msg) else [msg])"
  by pat_completeness auto
termination
  by (relation "measure length") (auto simp: MULTI_PART_def)

declare pieces.simps [simp del]

fun mark :: "(bool \<Rightarrow> 'a \<Rightarrow> 'b) \<Rightarrow> 'a list \<Rightarrow> 'b list" where
  "mark f [] = []"
| "mark f [c] = [f False c]"
| "mark f (c # d # cs) = f True c # mark f (d # cs)"

lemma mark_Cons: "cs \<noteq> [] \<Longrightarrow> mark f (c # cs) = f True c # mark f cs"
  by (cases cs) simp_all

lemma map_mark: "map g (mark f cs) = mark (\<lambda>b c. g (f b c)) cs"
  by (induction f cs rule: mark.induct) simp_all

lemma mark_cong: "(\<And>b c. c \<in> set cs \<Longrightarrow> f b c = g b c) \<Longrightarrow> mark f cs = mark g cs"
  by (induction f cs rule: mark.induct) simp_all

lemma pieces_not_Nil [simp]: "pieces msg \<noteq> []"
  by (subst pieces.simps) simp

lemma concat_pieces [simp]: "concat (pieces msg) = msg"
  by (induction msg rule: pieces.induct) (subst pieces.simps, simp)

lemma pieces_short: "c \<in> set (pieces msg) \<Longrightarrow> length c \<le> nat MULTI_PART"
  by (induction msg rule: pieces.induct) (subst (asm) (2) pieces.simps, auto split: if_splits)

text \<open>The number of parts that the code computes.\<close>

lemma length_pieces:
  assumes "msg \<noteq> []"
  shows "int (length (pieces msg)) = (int (length msg) - 1) div MULTI_PART + 1"
  using assms
proof (induction msg rule: pieces.induct)
  case (1 msg)
  show ?case
  proof (cases "int (length msg) > MULTI_PART")
    case True
    then have "drop (nat MULTI_PART) msg \<noteq> []" by (simp add: MULTI_PART_def)
    with 1 True have "int (length (pieces (drop (nat MULTI_PART) msg))) =
        (int (length msg) - MULTI_PART - 1) div MULTI_PART + 1"
      by (simp add: MULTI_PART_def int_ops(6))
    also have "\<dots> = (int (length msg) - 1) div MULTI_PART"
      using div_add_self2 [of MULTI_PART "int (length msg) - MULTI_PART - 1"] by (simp add: MULTI_PART_def)
    finally show ?thesis using True by (subst pieces.simps) simp
  next
    case False
    with 1 have "(int (length msg) - 1) div MULTI_PART = 0" by (intro div_pos_pos_trivial) (auto simp: Suc_leI)
    with False show ?thesis by (subst pieces.simps) simp
  qed
qed

lemma packreq_parts_spec:
  assumes "uint sz = int (length ptr)" "n = length (pieces ptr)"
  shows "packreq_parts n session ptr sz =
    Some (mark (\<lambda>b c. packet (req_part (if b then 2 else 3) (word_of_int session) c)) (pieces ptr))"
  using assms
proof (induction ptr arbitrary: n sz rule: pieces.induct)
  case (1 ptr)
  let ?c = "take (nat MULTI_PART) ptr" and ?r = "drop (nat MULTI_PART) ptr"
  show ?case
  proof (cases "int (length ptr) > MULTI_PART")
    case True
    let ?b = "[2] @ fill_uint32 (word_of_int session) @ ?c"
    have body: "fill_header (MULTI_PART + 5) = Some (take 2 (packet ?b))"
      "push_packet (take 2 (packet ?b) @ ?b) = Some (packet ?b)"
      using True packet_ok [of "MULTI_PART + 5" ?b] by (simp_all add: MULTI_PART_def push_packet_ok TEMP_LENGTH_def)
    have pieces: "pieces ptr = ?c # pieces ?r" using True by (subst pieces.simps) simp
    have "uint (sz - word_of_int MULTI_PART) = int (length ?r)"
    proof -
      have "uint sz < 4294967296" using unsigned_less [of sz] by simp
      then show ?thesis using True 1(2) by (simp add: uint_sub_if' MULTI_PART_def int_ops(6))
    qed
    from 1(1) [OF True this refl] have rest: "packreq_parts (length (pieces ?r)) session ?r (sz - word_of_int MULTI_PART) =
      Some (mark (\<lambda>b c. packet (req_part (if b then 2 else 3) (word_of_int session) c)) (pieces ?r))" .
    have n: "n = Suc (length (pieces ?r))" using 1(3) pieces by simp
    have big: "uint sz > MULTI_PART" using True 1(2) by simp
    have msg: "message_bytes ptr MULTI_PART = Some ?c" using True by (intro message_bytes_ok) (simp_all add: MULTI_PART_def)
    show ?thesis
      unfolding n packreq_parts.simps pieces using big
      by (simp add: Let_def body [simplified] msg rest mark_Cons req_part_def)
  next
    case False
    let ?b = "[3] @ fill_uint32 (word_of_int session) @ ptr"
    have body: "fill_header (int (length ptr) + 5) = Some (take 2 (packet ?b))"
      "push_packet (take 2 (packet ?b) @ ?b) = Some (packet ?b)"
      using False packet_ok [of "int (length ptr) + 5" ?b] by (simp_all add: MULTI_PART_def push_packet_ok TEMP_LENGTH_def)
    have pieces: "pieces ptr = [ptr]" using False by (subst pieces.simps) simp
    have msg: "message_bytes ptr (int (length ptr)) = Some ptr" by (simp add: message_bytes_ok)
    have n: "n = Suc 0" using 1(3) pieces by simp
    have small: "\<not> uint sz > MULTI_PART" using False 1(2) by simp
    show ?thesis
      unfolding n packreq_parts.simps pieces using small
      by (simp add: Let_def 1(2) body [simplified] msg req_part_def)
  qed
qed

text \<open>Joining: the sizes must add up.\<close>

lemma concat_loop_spec:
  "int (length buff) \<le> sz \<Longrightarrow> concat_loop (map CStr cs) sz buff =
     (if int (length buff) + int (length (concat cs)) = sz then Some (buff @ concat cs) else None)"
proof (induction cs arbitrary: buff)
  case (Cons c cs)
  then show ?case by (cases "int (length c) + int (length buff) > sz") (auto simp: Cons.IH)
qed simp

lemma lconcat_spec:
  assumes "int (length msg) < 2147483648" "concat cs = msg"
  shows "lconcat (CInt (int (length msg)) # map CStr cs) = Some (Some (msg, int (length msg)))"
  using assms concat_loop_spec [of "[]" "int (length msg)" cs] by (simp add: lconcat_def to_int32_id Let_def)

subsection \<open>Responses\<close>

definition res_body :: "u32 \<Rightarrow> u8 \<Rightarrow> u8 list \<Rightarrow> u8 list" where
  "res_body session t d = fill_uint32 session @ [t] @ d"

lemma unpack_res:
  "lunpackresponse (res_body session t d) =
     (if t = 0 then Some [CInt (uint session), CBool False, CStr d]
      else if t = 1 \<or> t = 4 then Some [CInt (uint session), CBool True, CStr d]
      else if t = 3 then Some [CInt (uint session), CBool True, CStr d, CBool True]
      else if t = 2 \<and> length d = 4 then do { sz \<leftarrow> unpack_uint32 (res_body session t d) 5;
        Some [CInt (uint session), CBool True, CInt (uint sz), CBool True] }
      else Some [])"
proof -
  have at: "arr_get (fill_uint32 session @ t # d) 4 = Some t" by (simp add: arr_get_def nth_append)
  have rest: "drop 5 (fill_uint32 session @ t # d) = d" by (simp add: eval_nat_numeral)
  have ses: "unpack_uint32 (fill_uint32 session @ t # d) 0 = Some session"
    using unpack_fill [of 0 "[]" session "t # d"] by simp
  show ?thesis unfolding lunpackresponse_def res_body_def by (simp add: at rest ses Let_def)
qed

lemma unpack_res_begin:
  "lunpackresponse (res_body session 2 (fill_uint32 sz)) =
    Some [CInt (uint session), CBool True, CInt (uint sz), CBool True]"
  using unpack_fill [of 5 "fill_uint32 session @ [2]" sz "[]"] by (simp add: unpack_res) (simp add: res_body_def)

lemma packres_parts_spec:
  assumes "n = length (pieces ptr)"
  shows "packres_parts n session ptr (int (length ptr)) =
    Some (mark (\<lambda>b c. packet (res_body session (if b then 3 else 4) c)) (pieces ptr))"
  using assms
proof (induction ptr arbitrary: n rule: pieces.induct)
  case (1 ptr)
  let ?c = "take (nat MULTI_PART) ptr" and ?r = "drop (nat MULTI_PART) ptr"
  show ?case
  proof (cases "int (length ptr) > MULTI_PART")
    case True
    let ?b = "fill_uint32 session @ [3] @ ?c"
    have body: "fill_header (MULTI_PART + 5) = Some (take 2 (packet ?b))"
      "push_packet (take 2 (packet ?b) @ ?b) = Some (packet ?b)"
      using True packet_ok [of "MULTI_PART + 5" ?b] by (simp_all add: MULTI_PART_def push_packet_ok TEMP_LENGTH_def)
    have pieces: "pieces ptr = ?c # pieces ?r" using True by (subst pieces.simps) simp
    have "int (length ptr) - MULTI_PART = int (length ?r)" using True by (simp add: MULTI_PART_def int_ops(6))
    with 1(1) [OF True refl] have rest: "packres_parts (length (pieces ?r)) session ?r (int (length ptr) - MULTI_PART) =
      Some (mark (\<lambda>b c. packet (res_body session (if b then 3 else 4) c)) (pieces ?r))" by simp
    have n: "n = Suc (length (pieces ?r))" using 1(2) pieces by simp
    have msg: "message_bytes ptr MULTI_PART = Some ?c" using True by (intro message_bytes_ok) (simp_all add: MULTI_PART_def)
    show ?thesis
      unfolding n packres_parts.simps pieces using True
      by (simp add: Let_def body [simplified] msg rest mark_Cons res_body_def)
  next
    case False
    let ?b = "fill_uint32 session @ [4] @ ptr"
    have body: "fill_header (int (length ptr) + 5) = Some (take 2 (packet ?b))"
      "push_packet (take 2 (packet ?b) @ ?b) = Some (packet ?b)"
      using False packet_ok [of "int (length ptr) + 5" ?b] by (simp_all add: MULTI_PART_def push_packet_ok TEMP_LENGTH_def)
    have pieces: "pieces ptr = [ptr]" using False by (subst pieces.simps) simp
    have msg: "message_bytes ptr (int (length ptr)) = Some ptr" by (simp add: message_bytes_ok)
    have n: "n = Suc 0" using 1(2) pieces by simp
    show ?thesis
      unfolding n packres_parts.simps pieces using False
      by (simp add: Let_def body [simplified] msg res_body_def)
  qed
qed

subsection \<open>Properties\<close>

text \<open>The value by which the receiver of a request sees its address.\<close>

fun addr_value :: "cl_addr \<Rightarrow> cl_value option" where
  "addr_value (Addr_number a) = (if 0 \<le> a \<and> a < 4294967296 then Some (CInt a) else None)"
| "addr_value (Addr_string nm) = (if 1 \<le> length nm \<and> length nm \<le> 255 then Some (CStr nm) else None)"
| "addr_value Addr_other = None"

text \<open>The first packet of a request.\<close>

lemma packreq_first:
  assumes "addr_value addr = Some v" "0 \<le> session" "session < 4294967296" "int (length msg) < 4294967296"
  shows "\<exists>body. (case addr of
        Addr_number a \<Rightarrow> do { r \<leftarrow> packreq_number a session msg (of_nat (length msg)); Some (Inr r) }
      | Addr_string s \<Rightarrow> packreq_string (Some s) session msg (of_nat (length msg))
      | Addr_other \<Rightarrow> packreq_string None session msg (of_nat (length msg))) =
      Some (Inr (if int (length msg) < MULTI_PART then 0 else (int (length msg) - 1) div MULTI_PART + 1, packet body)) \<and>
    lunpackrequest body = Some (Inr (if int (length msg) < MULTI_PART then [v, CInt session, CStr msg]
      else [v, CInt session, CInt (int (length msg)), CBool True]))"
proof -
  let ?s = "word_of_int session :: u32" and ?sz = "of_nat (length msg) :: u32"
  have s: "uint ?s = session" using assms(2,3) by (simp add: uint_word_of_int)
  have sz: "uint ?sz = int (length msg)" using assms(4) by (simp add: uint_nat unat_of_nat take_bit_nat_eq_self_iff)
  have d: "message_bytes msg (int (length msg)) = Some msg" by (simp add: message_bytes_ok)
  show ?thesis
  proof (cases addr)
    case (Addr_number a)
    with assms(1) have v: "v = CInt a" "uint (word_of_int a :: u32) = a" by (auto simp: uint_word_of_int split: if_splits)
    show ?thesis
    proof (cases "int (length msg) < MULTI_PART")
      case True
      let ?b = "req_number 0 (word_of_int a) ?s msg"
      have "packreq_number a session msg ?sz = Some (0, packet ?b)"
        using True packet_ok [of "int (length msg) + 9" ?b]
        by (simp add: packreq_number_def sz d req_number_def MULTI_PART_def TEMP_LENGTH_def push_packet_ok)
      with True unpack_req_number(1) [of msg "word_of_int a" ?s] show ?thesis
        by (intro exI [of _ ?b]) (simp add: Addr_number v s MULTI_PART_def)
    next
      case False
      let ?b = "req_number 1 (word_of_int a) ?s (fill_uint32 ?sz)"
      have "packreq_number a session msg ?sz = Some ((int (length msg) - 1) div MULTI_PART + 1, packet ?b)"
        using False packet_ok [of 13 ?b]
        by (simp add: packreq_number_def sz d req_number_def TEMP_LENGTH_def push_packet_ok)
      with False unpack_req_number(2) [of "[]" "word_of_int a" ?s ?sz] show ?thesis
        by (intro exI [of _ ?b]) (simp add: Addr_number v s sz)
    qed
  next
    case (Addr_string nm)
    with assms(1) have v: "v = CStr nm" "nm \<noteq> []" "length nm \<le> 255" by (auto split: if_splits)
    show ?thesis
    proof (cases "int (length msg) < MULTI_PART")
      case True
      let ?b = "req_string 0x80 nm ?s msg"
      have "packreq_string (Some nm) session msg ?sz = Some (Inr (0, packet ?b))"
        using True v packet_ok [of "int (length msg) + 6 + int (length nm)" ?b]
        by (simp add: packreq_string_def sz d req_string_def MULTI_PART_def TEMP_LENGTH_def push_packet_ok)
      with True v unpack_req_string(1) [of msg nm ?s] show ?thesis
        by (intro exI [of _ ?b]) (simp add: Addr_string s MULTI_PART_def)
    next
      case False
      let ?b = "req_string 0x81 nm ?s (fill_uint32 ?sz)"
      have "packreq_string (Some nm) session msg ?sz = Some (Inr ((int (length msg) - 1) div MULTI_PART + 1, packet ?b))"
        using False v packet_ok [of "10 + int (length nm)" ?b]
        by (simp add: packreq_string_def sz d req_string_def TEMP_LENGTH_def push_packet_ok)
      with False v unpack_req_string(2) [of "[]" nm ?s ?sz] show ?thesis
        by (intro exI [of _ ?b]) (simp add: Addr_string s sz)
    qed
  next
    case Addr_other
    with assms(1) show ?thesis by simp
  qed
qed

text \<open>C12: a request packed by one node is read back by the other: the address, the session and the
  message of a short request; of a long one the address, the session and the size, and from
  its parts, each of which is delimited by its own size and is followed by another one
  exactly when it says so, \<open>lconcat\<close> puts the message together again.  The session that
  follows is positive.\<close>

theorem cluster_request_roundtrip:
  assumes "addr_value addr = Some v" "0 < session" "session < 2147483648" "int (length msg) < 2147483648"
  shows "\<exists>body following parts cs.
    lpackrequest addr session (Some msg) (int (length msg)) = Some (Inr (packet body, following, parts)) \<and>
    0 < following \<and> following < 2147483648 \<and>
    (if int (length msg) < MULTI_PART
     then parts = None \<and> lunpackrequest body = Some (Inr [v, CInt session, CStr msg])
     else lunpackrequest body = Some (Inr [v, CInt session, CInt (int (length msg)), CBool True]) \<and>
       map_option (map (\<lambda>p. (p = packet (drop 2 p), lunpackrequest (drop 2 p)))) parts =
         Some (mark (\<lambda>b c. (True, Some (Inr [CBool False, CInt session, CStr c, CBool b]))) cs) \<and>
       lconcat (CInt (int (length msg)) # map CStr cs) = Some (Some (msg, int (length msg))))"
proof -
  let ?s = "word_of_int session :: u32" and ?sz = "of_nat (length msg) :: u32"
  let ?next = "if to_int32 (session + 1) < 0 then 1 else to_int32 (session + 1)"
  let ?parts = "if int (length msg) < MULTI_PART then None
    else Some (mark (\<lambda>b c. packet (req_part (if b then 2 else 3) ?s c)) (pieces msg))"
  have s: "uint ?s = session" using assms(2,3) by (simp add: uint_word_of_int)
  have sz: "uint ?sz = int (length msg)" using assms(4) by (simp add: uint_nat unat_of_nat take_bit_nat_eq_self_iff)
  have ses: "to_int32 session = session" using assms(2,3) by (simp add: to_int32_id)
  have "0 < ?next \<and> ?next < 2147483648"
  proof (cases "session = 2147483647")
    case True
    then show ?thesis by (simp add: to_int32_def)
  next
    case False
    then show ?thesis using assms(2,3) by (simp add: to_int32_id)
  qed
  moreover from packreq_first [OF assms(1), of session msg] assms(2-4) obtain body where body:
    "(case addr of
        Addr_number a \<Rightarrow> do { r \<leftarrow> packreq_number a session msg ?sz; Some (Inr r) }
      | Addr_string s \<Rightarrow> packreq_string (Some s) session msg ?sz
      | Addr_other \<Rightarrow> packreq_string None session msg ?sz) =
      Some (Inr (if int (length msg) < MULTI_PART then 0 else (int (length msg) - 1) div MULTI_PART + 1, packet body))"
    "lunpackrequest body = Some (Inr (if int (length msg) < MULTI_PART then [v, CInt session, CStr msg]
      else [v, CInt session, CInt (int (length msg)), CBool True]))" by auto
  moreover have "lpackrequest addr session (Some msg) (int (length msg)) =
      Some (Inr (packet body, ?next, if int (length msg) < MULTI_PART then None
        else Some (mark (\<lambda>b c. packet (req_part (if b then 2 else 3) ?s c)) (pieces msg))))"
  proof (cases "int (length msg) < MULTI_PART")
    case True
    with assms(2) body(1) show ?thesis by (simp add: lpackrequest_def ses Let_def)
  next
    case False
    then have "msg \<noteq> []" by (auto simp: MULTI_PART_def)
    note len = length_pieces [OF this]
    then have "(int (length msg) - 1) div MULTI_PART + 1 \<noteq> 0" using pieces_not_Nil [of msg] by (metis length_0_conv of_nat_eq_0_iff)
    moreover have "packreq_multi session msg ?sz =
        Some (mark (\<lambda>b c. packet (req_part (if b then 2 else 3) ?s c)) (pieces msg))"
      unfolding packreq_multi_def sz by (rule packreq_parts_spec [OF sz]) (simp add: len [symmetric])
    ultimately show ?thesis using False assms(2) body(1) by (simp add: lpackrequest_def ses Let_def)
  qed
  moreover have "map (\<lambda>p. (p = packet (drop 2 p), lunpackrequest (drop 2 p)))
      (mark (\<lambda>b c. packet (req_part (if b then 2 else 3) ?s c)) (pieces msg)) =
    mark (\<lambda>b c. (True, Some (Inr [CBool False, CInt session, CStr c, CBool b]))) (pieces msg)"
    unfolding map_mark
    by (rule mark_cong) (use pieces_short in \<open>force simp: unpack_req_part s MULTI_PART_def\<close>)
  moreover have "lconcat (CInt (int (length msg)) # map CStr (pieces msg)) = Some (Some (msg, int (length msg)))"
    using assms(4) by (intro lconcat_spec) simp_all
  ultimately show ?thesis
    by (intro exI [of _ body] exI [of _ ?next] exI [of _ ?parts] exI [of _ "pieces msg"])
      (cases "int (length msg) < MULTI_PART"; simp)
qed

text \<open>C40: a response packed by one node is read back by the other: an error, cut to 32K, with the flag
  false; a message of up to 32K with the flag true; a longer one as its size, behind which
  the parts follow that give the message again.\<close>

theorem cluster_response_roundtrip:
  assumes "0 \<le> session" "session < 4294967296" "int (length msg) < 2147483648"
  shows "(\<exists>body. lpackresponse session False msg (of_nat (length msg)) = Some (Inl (packet body)) \<and>
      lunpackresponse body = Some [CInt session, CBool False, CStr (take (nat MULTI_PART) msg)]) \<and>
    (if int (length msg) \<le> MULTI_PART
     then \<exists>body. lpackresponse session True msg (of_nat (length msg)) = Some (Inl (packet body)) \<and>
       lunpackresponse body = Some [CInt session, CBool True, CStr msg]
     else \<exists>body ps cs. lpackresponse session True msg (of_nat (length msg)) = Some (Inr (packet body # ps)) \<and>
       lunpackresponse body = Some [CInt session, CBool True, CInt (int (length msg)), CBool True] \<and>
       map (\<lambda>p. (p = packet (drop 2 p), lunpackresponse (drop 2 p))) ps =
         mark (\<lambda>b c. (True, Some ([CInt session, CBool True, CStr c] @ (if b then [CBool True] else [])))) cs \<and>
       lconcat (CInt (int (length msg)) # map CStr cs) = Some (Some (msg, int (length msg))))"
proof -
  let ?s = "word_of_int session :: u32" and ?n = "int (length msg)"
  have s: "uint ?s = session" using assms(1,2) by (simp add: uint_word_of_int)
  have sz: "uint (of_nat (length msg) :: u64) = ?n"
  proof -
    have "length msg < 18446744073709551616" using assms(3) by linarith
    then show ?thesis by (simp add: uint_nat unat_of_nat take_bit_nat_eq_self_iff)
  qed
  have single: "do { h \<leftarrow> fill_header (m + 5); d \<leftarrow> message_bytes msg m;
      p \<leftarrow> push_packet (h @ fill_uint32 ?s @ [t] @ d); Some (Inl p) } =
      Some (Inl (packet (res_body ?s t (take (nat m) msg))) :: u8 list + u8 list list)"
    if "0 \<le> m" "m \<le> ?n" "m \<le> MULTI_PART" for m t
    using that packet_ok [of "m + 5" "res_body ?s t (take (nat m) msg)"]
    by (simp add: message_bytes_ok res_body_def MULTI_PART_def TEMP_LENGTH_def push_packet_ok)
  have "\<exists>body. lpackresponse session False msg (of_nat (length msg)) = Some (Inl (packet body)) \<and>
      lunpackresponse body = Some [CInt session, CBool False, CStr (take (nat MULTI_PART) msg)]"
  proof (cases "?n > MULTI_PART")
    case True
    with single [of MULTI_PART 0] show ?thesis
      by (intro exI [of _ "res_body ?s 0 (take (nat MULTI_PART) msg)"])
        (simp add: lpackresponse_def sz unpack_res s MULTI_PART_def Let_def)
  next
    case False
    with single [of ?n 0] show ?thesis
      by (intro exI [of _ "res_body ?s 0 msg"]) (simp add: lpackresponse_def sz unpack_res s Let_def)
  qed
  moreover have "\<exists>body. lpackresponse session True msg (of_nat (length msg)) = Some (Inl (packet body)) \<and>
      lunpackresponse body = Some [CInt session, CBool True, CStr msg]" if "?n \<le> MULTI_PART"
    using that single [of ?n 1]
    by (intro exI [of _ "res_body ?s 1 msg"]) (simp add: lpackresponse_def sz unpack_res s Let_def)
  moreover have "\<exists>body ps cs. lpackresponse session True msg (of_nat (length msg)) = Some (Inr (packet body # ps)) \<and>
       lunpackresponse body = Some [CInt session, CBool True, CInt ?n, CBool True] \<and>
       map (\<lambda>p. (p = packet (drop 2 p), lunpackresponse (drop 2 p))) ps =
         mark (\<lambda>b c. (True, Some ([CInt session, CBool True, CStr c] @ (if b then [CBool True] else [])))) cs \<and>
       lconcat (CInt ?n # map CStr cs) = Some (Some (msg, ?n))" if long: "\<not> ?n \<le> MULTI_PART"
  proof -
    let ?b = "res_body ?s 2 (fill_uint32 (word_of_int ?n))"
    let ?ps = "mark (\<lambda>b c. packet (res_body ?s (if b then 3 else 4) c)) (pieces msg)"
    have "msg \<noteq> []" using long by (auto simp: MULTI_PART_def)
    note len = length_pieces [OF this]
    have "(?n - 1) div MULTI_PART + 1 < 2147483648" using assms(3) by (simp add: MULTI_PART_def)
    then have "nat (to_int32 ((?n - 1) div MULTI_PART + 1)) = length (pieces msg)"
      using len by (simp add: to_int32_id)
    from packres_parts_spec [OF this, of ?s]
    have "lpackresponse session True msg (of_nat (length msg)) = Some (Inr (packet ?b # ?ps))"
      using long packet_ok [of 9 ?b]
      by (simp add: lpackresponse_def sz Let_def res_body_def TEMP_LENGTH_def push_packet_ok)
    moreover have "uint (of_nat (length msg) :: u32) = ?n"
    proof -
      have "length msg < 4294967296" using assms(3) by linarith
      then show ?thesis by (simp add: uint_nat unat_of_nat take_bit_nat_eq_self_iff)
    qed
    then have "lunpackresponse ?b = Some [CInt session, CBool True, CInt ?n, CBool True]"
      by (simp add: unpack_res_begin s)
    moreover have "map (\<lambda>p. (p = packet (drop 2 p), lunpackresponse (drop 2 p))) ?ps =
        mark (\<lambda>b c. (True, Some ([CInt session, CBool True, CStr c] @ (if b then [CBool True] else [])))) (pieces msg)"
      unfolding map_mark by (rule mark_cong) (simp add: unpack_res s)
    moreover have "lconcat (CInt ?n # map CStr (pieces msg)) = Some (Some (msg, ?n))"
      using assms(3) by (intro lconcat_spec) simp_all
    ultimately show ?thesis by blast
  qed
  ultimately show ?thesis by simp
qed

theorem cluster_request_roundtrip_witness:
  "\<exists>body following parts. lpackrequest (Addr_string [97, 98]) 2147483647 (Some [1, 2, 3]) 3 = Some (Inr (packet body, following, parts)) \<and>
    lunpackrequest body = Some (Inr [CStr [97, 98], CInt 2147483647, CStr [1, 2, 3]])"
  using cluster_request_roundtrip [of "Addr_string [97, 98]" "CStr [97, 98]" 2147483647 "[1, 2, 3]"]
  by (auto simp: MULTI_PART_def)

theorem cluster_response_roundtrip_witness:
  "\<exists>body. lpackresponse 7 True [1, 2, 3] 3 = Some (Inl (packet body)) \<and>
    lunpackresponse body = Some [CInt 7, CBool True, CStr [1, 2, 3]]"
  using cluster_response_roundtrip [of 7 "[1, 2, 3]"] by (simp add: MULTI_PART_def)

end
