(* ===== verification/Cstring.thy ===== *)
theory Cstring
  imports Prelude
begin

text \<open>
  The conversions between numbers and text of the C library that the engine uses:
  \<open>printf\<close>'s \<open>%x\<close>, \<open>%08x\<close>, \<open>%d\<close>, \<open>%u\<close>, and \<open>strtoul\<close>/\<open>strtol\<close>.  A C string is the list of
  its characters without the terminating zero.
\<close>

subsection \<open>Printing\<close>

definition HEX_LOWER :: string where "HEX_LOWER = ''0123456789abcdef''"
definition HEX_UPPER :: string where "HEX_UPPER = ''0123456789ABCDEF''"

text \<open>The digits of a number in a base of 2 to 16, the most significant first; \<open>0\<close> has one digit.\<close>

function print_base :: "nat \<Rightarrow> nat \<Rightarrow> string" where
  "print_base b n =
     (if b < 2 \<or> n < b then [HEX_LOWER ! n] else print_base b (n div b) @ [HEX_LOWER ! (n mod b)])"
  by pat_completeness auto
termination
  by (relation "measure snd") auto

declare print_base.simps [simp del]

definition print_x :: "u32 \<Rightarrow> string" where
  "print_x h = print_base 16 (unat h)"

definition print_08x :: "u32 \<Rightarrow> string" where
  "print_08x h = (let s = print_x h in replicate (8 - length s) CHR ''0'' @ s)"

definition print_d :: "int \<Rightarrow> string" where
  "print_d x = (if x < 0 then CHR ''-'' # print_base 10 (nat (- x)) else print_base 10 (nat x))"

definition print_02x :: "u8 \<Rightarrow> string" where
  "print_02x b = [HEX_LOWER ! (unat b div 16), HEX_LOWER ! (unat b mod 16)]"

subsection \<open>Parsing\<close>

definition c_isspace :: "char \<Rightarrow> bool" where
  "c_isspace c = (c = CHR '' '' \<or> of_char c \<in> {9, 10, 11, 12, 13::nat})"

text \<open>The value of a digit in a base of up to 36.\<close>

definition digit_value :: "char \<Rightarrow> nat option" where
  "digit_value c = (let k = of_char c :: nat in
     if 48 \<le> k \<and> k \<le> 57 then Some (k - 48)
     else if 97 \<le> k \<and> k \<le> 122 then Some (k - 87)
     else if 65 \<le> k \<and> k \<le> 90 then Some (k - 55) else None)"

definition is_digit :: "nat \<Rightarrow> char \<Rightarrow> bool" where
  "is_digit b c = (case digit_value c of Some v \<Rightarrow> v < b | None \<Rightarrow> False)"

definition digits_value :: "nat \<Rightarrow> string \<Rightarrow> nat" where
  "digits_value b s = foldl (\<lambda>acc c. acc * b + the (digit_value c)) 0 s"

text \<open>A prefix \<open>0x\<close> counts only before a hexadecimal digit.\<close>

fun hex_prefix :: "string \<Rightarrow> bool" where
  "hex_prefix (z # x # d # s) = (z = CHR ''0'' \<and> (x = CHR ''x'' \<or> x = CHR ''X'') \<and> is_digit 16 d)"
| "hex_prefix _ = False"

definition scan_number :: "nat \<Rightarrow> string \<Rightarrow> nat" where
  "scan_number base s =
     (let b = (if base \<noteq> 0 then base
               else if hex_prefix s then 16
               else if s \<noteq> [] \<and> hd s = CHR ''0'' then 8 else 10);
          s = (if b = 16 \<and> hex_prefix s then drop 2 s else s)
      in digits_value b (takeWhile (is_digit b) s))"

definition scan_sign :: "string \<Rightarrow> bool \<times> string" where
  "scan_sign s = (let s = dropWhile c_isspace s in
     case s of c # r \<Rightarrow> if c = CHR ''-'' then (True, r) else if c = CHR ''+'' then (False, r) else (False, s)
     | [] \<Rightarrow> (False, s))"

text \<open>\<open>strtoul\<close> on 64 bit longs: a value that does not fit gives \<open>ULONG_MAX\<close>, a minus sign negates
  in unsigned arithmetic.\<close>

definition strtoul :: "string \<Rightarrow> nat \<Rightarrow> u64" where
  "strtoul s base = (let (neg, r) = scan_sign s; v = scan_number base r in
     if int v > 0xffffffffffffffff then - 1 else if neg then - of_nat v else of_nat v)"

text \<open>\<open>strtol\<close> saturates at the ends of the range of \<open>long\<close>.\<close>

definition strtol :: "string \<Rightarrow> nat \<Rightarrow> int" where
  "strtol s base = (let (neg, r) = scan_sign s; v = int (scan_number base r) in
     if neg then max (- 0x8000000000000000) (- v) else min 0x7fffffffffffffff v)"

text \<open>The assignment \<open>uint32_t h = strtoul(s, NULL, 16)\<close>.\<close>

definition parse_handle :: "string \<Rightarrow> u32" where
  "parse_handle s = ucast (strtoul s 16)"

text \<open>The test \<open>s[0] == c\<close> for a character other than zero.\<close>

definition starts :: "char \<Rightarrow> string \<Rightarrow> bool" where
  "starts c s = (case s of [] \<Rightarrow> False | d # r \<Rightarrow> d = c)"

lemma starts_simps [simp]: "\<not> starts c []" "starts c (d # r) \<longleftrightarrow> d = c"
  by (simp_all add: starts_def)

subsection \<open>Printing and parsing are inverse\<close>

lemma print_base_not_Nil [simp]: "print_base b n \<noteq> []"
  by (subst print_base.simps) simp

lemma length_print_base:
  assumes "2 \<le> b" "n < b ^ k" "0 < k"
  shows "length (print_base b n) \<le> k"
  using assms
proof (induction k arbitrary: n)
  case 0
  then show ?case by simp
next
  case (Suc k)
  show ?case
  proof (cases "n < b")
    case True
    then show ?thesis by (subst print_base.simps) simp
  next
    case False
    with Suc.prems have "0 < k" by (cases k) auto
    have "n div b < b ^ k" using Suc.prems by (simp add: less_mult_imp_div_less mult.commute)
    from Suc.IH [OF Suc.prems(1) this \<open>0 < k\<close>] False show ?thesis by (subst print_base.simps) simp
  qed
qed

lemma hex_digit_value: "n < 16 \<Longrightarrow> digit_value (HEX_LOWER ! n) = Some n"
proof -
  have "\<forall>n \<in> set [0..<16]. digit_value (HEX_LOWER ! n) = Some n" by code_simp
  then show "n < 16 \<Longrightarrow> digit_value (HEX_LOWER ! n) = Some n" by simp
qed

lemma hex_upper_value: "n < 16 \<Longrightarrow> digit_value (HEX_UPPER ! n) = Some n"
proof -
  have "\<forall>n \<in> set [0..<16]. digit_value (HEX_UPPER ! n) = Some n" by code_simp
  then show "n < 16 \<Longrightarrow> digit_value (HEX_UPPER ! n) = Some n" by simp
qed

lemma digits_value_snoc: "digits_value b (s @ [c]) = digits_value b s * b + the (digit_value c)"
  by (simp add: digits_value_def)

lemma print_base_digits:
  assumes "2 \<le> b" "b \<le> 16"
  shows "digits_value b (print_base b n) = n \<and> (\<forall>c \<in> set (print_base b n). is_digit b c)"
proof (induction n rule: less_induct)
  case (less n)
  show ?case
  proof (cases "n < b")
    case True
    with assms show ?thesis
      by (subst (1 2) print_base.simps) (simp add: digits_value_def is_digit_def hex_digit_value)
  next
    case False
    with assms have "n div b < n" by simp
    from less.IH [OF this] have "digits_value b (print_base b (n div b)) = n div b"
      "\<forall>c \<in> set (print_base b (n div b)). is_digit b c" by auto
    moreover have "n mod b < b" "n mod b < 16" using assms by (auto intro: less_le_trans [of _ b])
    ultimately show ?thesis
      using False assms
      by (subst (1 2) print_base.simps) (simp add: digits_value_snoc is_digit_def hex_digit_value)
  qed
qed

text \<open>A string of hexadecimal digits parses to its value, whatever follows it.\<close>

lemma is_digit_nospace: "is_digit 16 c \<Longrightarrow> \<not> c_isspace c \<and> c \<noteq> CHR ''-'' \<and> c \<noteq> CHR ''+'' \<and>
    c \<noteq> CHR ''x'' \<and> c \<noteq> CHR ''X''"
  by (auto simp: is_digit_def digit_value_def c_isspace_def Let_def split: if_splits)

lemma hex_prefix_digits: "\<forall>c \<in> set s. is_digit 16 c \<Longrightarrow> \<not> hex_prefix s"
  by (cases s rule: hex_prefix.cases) (auto dest: is_digit_nospace)

lemma scan_sign_digits:
  assumes "\<forall>c \<in> set s. is_digit 16 c"
  shows "scan_sign s = (False, s)"
proof (cases s)
  case (Cons c r)
  with assms have "\<not> c_isspace c" "c \<noteq> CHR ''-''" "c \<noteq> CHR ''+''" using is_digit_nospace by auto
  with Cons show ?thesis by (simp add: scan_sign_def)
qed (simp add: scan_sign_def)

lemma strtoul_digits:
  assumes "\<forall>c \<in> set s. is_digit 16 c" "digits_value 16 s = unat (h :: u32)"
  shows "parse_handle s = h"
proof -
  have all: "takeWhile (is_digit 16) s = s" using assms(1) by simp
  have "scan_number 16 s = unat h"
    using assms(2) hex_prefix_digits [OF assms(1)] by (simp add: scan_number_def all)
  moreover have "\<not> 0xffffffffffffffff < unat h"
  proof -
    have "unat h < 4294967296" using unsigned_less [of h] by simp
    then show ?thesis by linarith
  qed
  ultimately have "strtoul s 16 = of_nat (unat h)"
    using scan_sign_digits [OF assms(1)] by (simp add: strtoul_def Let_def)
  moreover have "ucast (ucast h :: u64) = h" by (rule bit_word_eqI) (auto simp: bit_simps)
  ultimately show ?thesis by (simp add: parse_handle_def)
qed

lemma print_x_digits: "\<forall>c \<in> set (print_x h). is_digit 16 c" "digits_value 16 (print_x h) = unat h"
  using print_base_digits [of 16 "unat h"] by (simp_all add: print_x_def)

lemma parse_print_x: "parse_handle (print_x h) = h"
  by (rule strtoul_digits [OF print_x_digits])

lemma length_print_x: "length (print_x h) \<le> 8"
proof -
  have "unat h < 4294967296" using unsigned_less [of h] by simp
  then have "unat h < 16 ^ 8" by simp
  then show ?thesis unfolding print_x_def by (intro length_print_base) simp_all
qed

lemma length_print_d:
  assumes "- 2147483648 \<le> x" "x < 2147483648"
  shows "length (print_d x) \<le> 11"
proof (cases "x < 0")
  case True
  have "nat (- x) < 10 ^ 10" using assms by (simp add: nat_less_iff)
  from length_print_base [OF _ this] True show ?thesis by (simp add: print_d_def)
next
  case False
  have "nat x < 10 ^ 10" using assms by (simp add: nat_less_iff)
  from length_print_base [OF _ this] False show ?thesis by (simp add: print_d_def)
qed

end
