(* ===== verification/Node.thy ===== *)
theory Node
  imports Mq Timer Handle Cstring
begin

text \<open>
  The state of a skynet node, and the small components of \<open>3rd/skynet/skynet-src\<close> that the
  server is built on: service contexts and the node record (\<open>skynet_server.c\<close>), the
  module table (\<open>skynet_module.c\<close>), the environment (\<open>skynet_env.c\<close>), the worker
  monitors (\<open>skynet_monitor.c\<close>) and the memory of message payloads.

  \<open>world\<close> extends the store of message queues (\<open>Mq\<close>) by the handle storage (\<open>Handle\<close>),
  the timer (\<open>Timer\<close>), the heap of contexts and payloads and the C globals.  Addresses
  come from one counter, \<open>w_brk\<close>: \<open>skynet_malloc\<close> returns an address not used before.
  Reading, freeing or calling through an invalid pointer is a fault.
\<close>

subsection \<open>Data\<close>

record skynet_context =
  ctx_instance :: int
  ctx_mod :: nat
  ctx_cb_ud :: "nat option"
  ctx_cb :: "nat option"
  ctx_queue :: "qid option"
  ctx_logfile :: "nat option"
  ctx_result :: string
  ctx_handle :: u32
  ctx_session_id :: int
  ctx_ref :: int
  ctx_init :: bool
  ctx_endless :: bool

record skynet_module =
  mod_name :: string
  mod_module :: nat
  mod_create :: "nat option"
  mod_init :: "nat option"
  mod_release :: "nat option"
  mod_signal :: "nat option"

text \<open>The first \<open>count\<close> entries of the array \<open>m\<close>, and the search path.\<close>

record modules =
  mods_path :: string
  mods_m :: "skynet_module list"

definition MAX_MODULE_TYPE :: nat where "MAX_MODULE_TYPE = 32"

record remote_name =
  rn_name :: string
  rn_handle :: u32

record remote_message =
  rm_destination :: remote_name
  rm_message :: "nat option"
  rm_sz :: u64

record socket_message =
  sm_type :: int
  sm_id :: int
  sm_ud :: int
  sm_buffer :: "nat option"
  sm_data :: "u8 list"

text \<open>What an allocated block holds: bytes, or one of the structures that are sent as messages.\<close>

datatype payload =
    Bytes "u8 list"
  | Remote remote_message
  | Socket socket_message

record skynet_monitor =
  mon_version :: int
  mon_check_version :: int
  mon_source :: u32
  mon_destination :: u32

record world = mq_world +
  w_hs :: handle_storage
  w_ctxs :: "ctx_id \<Rightarrow> skynet_context option"
  w_mem :: "nat \<Rightarrow> payload option"
  w_files :: "nat \<Rightarrow> string option"
  w_brk :: nat
  w_total :: int
  w_node_init :: bool
  w_monitor_exit :: u32
  w_handle_key :: u32
  w_REMOTE :: "ctx_id option"
  w_HARBOR :: u32
  w_logger :: u32
  w_modules :: modules
  w_env :: "string \<Rightarrow> string option"
  w_timer :: timer

text \<open>
  What is outside the engine, as arguments of the operations: the dynamic linker, the
  functions of the loaded service modules (\<open>create\<close>, \<open>init\<close>, \<open>release\<close>, \<open>signal\<close> and the
  message callback) by the address of their code, the file system, the clocks, and the
  bytes with which a structure is represented in memory.
\<close>

record ext =
  x_dlopen :: "string \<Rightarrow> nat option"
  x_dlsym :: "nat \<Rightarrow> string \<Rightarrow> nat option"
  x_create :: "nat \<Rightarrow> world \<Rightarrow> (int option \<times> world) option"
  x_init :: "nat \<Rightarrow> int \<Rightarrow> ctx_id \<Rightarrow> string option \<Rightarrow> world \<Rightarrow> (int \<times> world) option"
  x_release :: "nat \<Rightarrow> int \<Rightarrow> world \<Rightarrow> world option"
  x_signal :: "nat \<Rightarrow> int \<Rightarrow> int \<Rightarrow> world \<Rightarrow> world option"
  x_cb :: "nat \<Rightarrow> ctx_id \<Rightarrow> nat option \<Rightarrow> nat \<Rightarrow> int \<Rightarrow> u32 \<Rightarrow> nat option \<Rightarrow> nat \<Rightarrow> world \<Rightarrow>
    (int \<times> world) option"
  x_fopen :: "string \<Rightarrow> bool"
  x_gettimeofday :: "int \<times> int"
  x_ctime :: "int \<Rightarrow> string"
  x_raw :: "payload \<Rightarrow> u8 list"

subsection \<open>Memory\<close>

definition skynet_malloc :: "payload \<Rightarrow> world \<Rightarrow> nat \<times> world" where
  "skynet_malloc b w =
     (w_brk w, w\<lparr>w_mem := (w_mem w)(w_brk w \<mapsto> b), w_brk := w_brk w + 1\<rparr>)"

text \<open>\<open>skynet_free\<close>: nothing for \<open>NULL\<close>; a block that is not allocated is a fault.\<close>

definition skynet_free :: "world \<Rightarrow> nat option \<Rightarrow> world option" where
  "skynet_free w ptr = (case ptr of
     None \<Rightarrow> Some w
   | Some a \<Rightarrow> do { b \<leftarrow> w_mem w a; Some (w\<lparr>w_mem := (w_mem w)(a := None)\<rparr>) })"

definition mem_bytes :: "ext \<Rightarrow> world \<Rightarrow> nat \<Rightarrow> u8 list option" where
  "mem_bytes X w a = do {
     b \<leftarrow> w_mem w a;
     Some (case b of Bytes bs \<Rightarrow> bs | _ \<Rightarrow> x_raw X b) }"

text \<open>\<open>%s\<close> on a pointer: the characters up to the first zero byte, which must exist; glibc prints
  \<open>(null)\<close> for \<open>NULL\<close>.\<close>

definition mem_string :: "ext \<Rightarrow> world \<Rightarrow> nat option \<Rightarrow> string option" where
  "mem_string X w ptr = (case ptr of
     None \<Rightarrow> Some ''(null)''
   | Some a \<Rightarrow> do {
       bs \<leftarrow> mem_bytes X w a;
       c_assert (0 \<in> set bs);
       Some (map (\<lambda>b. char_of (unat b)) (takeWhile (\<lambda>b. b \<noteq> 0) bs)) })"

definition string_bytes :: "string \<Rightarrow> u8 list" where
  "string_bytes s = map (\<lambda>c. of_nat (of_char c)) s"

subsection \<open>Contexts\<close>

text \<open>\<open>skynet_context_handle(ctx)\<close> for the registry.\<close>

definition w_hof :: "world \<Rightarrow> ctx_id \<Rightarrow> u32" where
  "w_hof w c = (case w_ctxs w c of Some x \<Rightarrow> ctx_handle x | None \<Rightarrow> 0)"

definition set_ctx :: "world \<Rightarrow> ctx_id \<Rightarrow> skynet_context \<Rightarrow> world" where
  "set_ctx w c x = w\<lparr>w_ctxs := (w_ctxs w)(c \<mapsto> x)\<rparr>"

text \<open>An assignment \<open>ctx->field = ...\<close> through a pointer.\<close>

definition upd_ctx :: "(skynet_context \<Rightarrow> skynet_context) \<Rightarrow> world \<Rightarrow> ctx_id \<Rightarrow> world option" where
  "upd_ctx f w c = do { x \<leftarrow> w_ctxs w c; Some (set_ctx w c (f x)) }"

subsection \<open>Modules\<close>

lemma path_rest_shorter:
  assumes "dropWhile (\<lambda>c. c = CHR '';'') path \<noteq> []"
  shows "length (dropWhile (\<lambda>c. c = CHR '';'') path) -
      length (takeWhile (\<lambda>c. c \<noteq> CHR '';'') (dropWhile (\<lambda>c. c = CHR '';'') path)) < length path"
proof -
  let ?p = "dropWhile (\<lambda>c. c = CHR '';'') path"
  from assms have "hd ?p \<noteq> CHR '';''" using hd_dropWhile [of "\<lambda>c. c = CHR '';''" path] by auto
  with assms have "takeWhile (\<lambda>c. c \<noteq> CHR '';'') ?p \<noteq> []" by (cases ?p) auto
  then have "0 < length (takeWhile (\<lambda>c. c \<noteq> CHR '';'') ?p)" by blast
  moreover have "length ?p \<le> length path" by (rule length_dropWhile_le)
  moreover have "0 < length ?p" using assms by blast
  ultimately show ?thesis by linarith
qed

text \<open>The loop of \<open>_try_open\<close> over the entries of the path; \<open>sz\<close> is the size of the buffer \<open>tmp\<close>
  that receives the file name and its terminating zero.  An entry without \<open>?\<close> ends the
  process.\<close>

function try_open_loop :: "ext \<Rightarrow> nat \<Rightarrow> string \<Rightarrow> string \<Rightarrow> nat option option" where
  "try_open_loop X sz path nm =
     (let path = dropWhile (\<lambda>c. c = CHR '';'') path in
      if path = [] then Some None
      else let ent = takeWhile (\<lambda>c. c \<noteq> CHR '';'') path;
               rest = drop (length ent) path;
               pre = takeWhile (\<lambda>c. c \<noteq> CHR ''?'') ent;
               tmp = pre @ nm @ drop (length pre + 1) ent
           in do {
             c_assert (CHR ''?'' \<in> set ent);
             c_assert (length tmp < sz);
             (case x_dlopen X tmp of
                Some dl \<Rightarrow> Some (Some dl)
              | None \<Rightarrow> try_open_loop X sz rest nm) })"
  by pat_completeness auto
termination
  by (relation "measure (\<lambda>(X, sz, path, nm). length path)") (auto intro!: path_rest_shorter)

declare try_open_loop.simps [simp del]

definition try_open :: "ext \<Rightarrow> modules \<Rightarrow> string \<Rightarrow> nat option option" where
  "try_open X m nm = try_open_loop X (length (mods_path m) + length nm) (mods_path m) nm"

text \<open>The index in the array stands for the address \<open>&M->m[i]\<close>.\<close>

fun query_loop :: "skynet_module list \<Rightarrow> nat \<Rightarrow> string \<Rightarrow> nat option" where
  "query_loop [] i nm = None"
| "query_loop (m # ms) i nm = (if strcmp (mod_name m) nm = 0 then Some i else query_loop ms (i + 1) nm)"

definition module_query :: "modules \<Rightarrow> string \<Rightarrow> nat option" where
  "module_query m nm = query_loop (mods_m m) 0 nm"

text \<open>\<open>_open_sym\<close>: the module with its four functions; it is usable when \<open>init\<close> exists.\<close>

definition open_sym :: "ext \<Rightarrow> skynet_module \<Rightarrow> skynet_module" where
  "open_sym X m = m\<lparr>
     mod_create := x_dlsym X (mod_module m) (mod_name m @ ''_create''),
     mod_init := x_dlsym X (mod_module m) (mod_name m @ ''_init''),
     mod_release := x_dlsym X (mod_module m) (mod_name m @ ''_release''),
     mod_signal := x_dlsym X (mod_module m) (mod_name m @ ''_signal'')\<rparr>"

definition skynet_module_query :: "ext \<Rightarrow> modules \<Rightarrow> string \<Rightarrow> (nat option \<times> modules) option" where
  "skynet_module_query X m nm = (case module_query m nm of
     Some i \<Rightarrow> Some (Some i, m)
   | None \<Rightarrow>
       if length (mods_m m) < MAX_MODULE_TYPE
       then do {
         r \<leftarrow> try_open X m nm;
         (case r of
            None \<Rightarrow> Some (None, m)
          | Some dl \<Rightarrow>
              let md = open_sym X \<lparr>mod_name = nm, mod_module = dl, mod_create = None, mod_init = None,
                         mod_release = None, mod_signal = None\<rparr>
              in if mod_init md \<noteq> None
                 then Some (Some (length (mods_m m)), m\<lparr>mods_m := mods_m m @ [md]\<rparr>)
                 else Some (None, m)) }
       else Some (None, m))"

definition skynet_module_insert :: "modules \<Rightarrow> skynet_module \<Rightarrow> modules option" where
  "skynet_module_insert m md = do {
     c_assert (module_query m (mod_name md) = None \<and> length (mods_m m) < MAX_MODULE_TYPE);
     Some (m\<lparr>mods_m := mods_m m @ [md]\<rparr>) }"

text \<open>The pointer \<open>(void * )(intptr_t)(~0)\<close>.\<close>

definition PTR_ONES :: int where "PTR_ONES = 0xffffffffffffffff"

definition skynet_module_instance_create ::
    "ext \<Rightarrow> world \<Rightarrow> nat \<Rightarrow> (int option \<times> world) option" where
  "skynet_module_instance_create X w i = do {
     m \<leftarrow> arr_get (mods_m (w_modules w)) i;
     (case mod_create m of Some f \<Rightarrow> x_create X f w | None \<Rightarrow> Some (Some PTR_ONES, w)) }"

definition skynet_module_instance_init ::
    "ext \<Rightarrow> world \<Rightarrow> nat \<Rightarrow> int \<Rightarrow> ctx_id \<Rightarrow> string option \<Rightarrow> (int \<times> world) option" where
  "skynet_module_instance_init X w i inst c parm = do {
     m \<leftarrow> arr_get (mods_m (w_modules w)) i;
     f \<leftarrow> mod_init m;
     x_init X f inst c parm w }"

definition skynet_module_instance_release :: "ext \<Rightarrow> world \<Rightarrow> nat \<Rightarrow> int \<Rightarrow> world option" where
  "skynet_module_instance_release X w i inst = do {
     m \<leftarrow> arr_get (mods_m (w_modules w)) i;
     (case mod_release m of Some f \<Rightarrow> x_release X f inst w | None \<Rightarrow> Some w) }"

definition skynet_module_instance_signal :: "ext \<Rightarrow> world \<Rightarrow> nat \<Rightarrow> int \<Rightarrow> int \<Rightarrow> world option" where
  "skynet_module_instance_signal X w i inst sig = do {
     m \<leftarrow> arr_get (mods_m (w_modules w)) i;
     (case mod_signal m of Some f \<Rightarrow> x_signal X f inst sig w | None \<Rightarrow> Some w) }"

definition skynet_module_init :: "string \<Rightarrow> modules" where
  "skynet_module_init path = \<lparr>mods_path = path, mods_m = []\<rparr>"

subsection \<open>Environment\<close>

text \<open>The environment is the table of globals of a Lua state without libraries: a map that is
  empty at first; the key of a set variable must be new.\<close>

definition skynet_getenv :: "world \<Rightarrow> string \<Rightarrow> string option" where
  "skynet_getenv w k = w_env w k"

definition skynet_setenv :: "world \<Rightarrow> string \<Rightarrow> string \<Rightarrow> world option" where
  "skynet_setenv w k v = do {
     c_assert (w_env w k = None);
     Some (w\<lparr>w_env := (w_env w)(k \<mapsto> v)\<rparr>) }"

definition skynet_env_init :: "world \<Rightarrow> world" where
  "skynet_env_init w = w\<lparr>w_env := \<lambda>_. None\<rparr>"

subsection \<open>Monitors\<close>

definition skynet_monitor_new :: skynet_monitor where
  "skynet_monitor_new = \<lparr>mon_version = 0, mon_check_version = 0, mon_source = 0, mon_destination = 0\<rparr>"

text \<open>\<open>ATOM_INC\<close> on an \<open>int\<close> wraps around.\<close>

definition skynet_monitor_trigger :: "skynet_monitor \<Rightarrow> u32 \<Rightarrow> u32 \<Rightarrow> skynet_monitor" where
  "skynet_monitor_trigger sm source destination =
     sm\<lparr>mon_source := source, mon_destination := destination, mon_version := to_int32 (mon_version sm + 1)\<rparr>"

subsection \<open>The module table\<close>

text \<open>The file name with the name of the service always fits into the buffer of \<open>_try_open\<close>.\<close>

lemma candidate_fits:
  assumes "CHR ''?'' \<in> set ent"
  shows "length (takeWhile (\<lambda>c. c \<noteq> CHR ''?'') ent @ nm @
      drop (length (takeWhile (\<lambda>c. c \<noteq> CHR ''?'') ent) + 1) ent) < length ent + length nm"
proof -
  let ?p = "takeWhile (\<lambda>c. c \<noteq> CHR ''?'') ent"
  have "CHR ''?'' \<notin> set ?p" by (auto dest: set_takeWhileD)
  with assms have "?p \<noteq> ent" by auto
  moreover have "?p = take (length ?p) ent" by (rule takeWhile_eq_take)
  ultimately have "length ?p \<noteq> length ent" by auto
  with length_takeWhile_le [of "\<lambda>c. c \<noteq> CHR ''?''" ent] have "length ?p < length ent" by linarith
  then show ?thesis by simp
qed

lemma query_loop_spec:
  "query_loop ms i nm = Some j \<Longrightarrow> i \<le> j \<and> j < i + length ms \<and> mod_name (ms ! (j - i)) = nm"
proof (induction ms arbitrary: i)
  case (Cons m ms)
  show ?case
  proof (cases "mod_name m = nm")
    case True
    with Cons.prems show ?thesis by (simp add: strcmp_eq_0)
  next
    case False
    with Cons.prems have "query_loop ms (i + 1) nm = Some j" by (simp add: strcmp_eq_0)
    from Cons.IH [OF this] show ?thesis by (auto simp: nth_Cons')
  qed
qed simp

lemma query_loop_None: "query_loop ms i nm = None \<longleftrightarrow> nm \<notin> mod_name ` set ms"
  by (induction ms arbitrary: i) (auto simp: strcmp_eq_0)

end
