(* ===== verification/Server.thy ===== *)
theory Server
  imports Node
begin

text \<open>
  The core of a node, \<open>skynet_server.c\<close>, with the files it calls and that call it:
  \<open>skynet_error.c\<close>, \<open>skynet_log.c\<close>, \<open>skynet_harbor.c\<close>.  Contexts with their reference
  counts, sending a message to a handle, to a name and to another node, starting a
  service, and the dispatch of a queue by a worker thread.

  The functions of service modules are the argument \<open>X\<close>; a callback acts on the whole
  world.  One call is one step of the model: what other threads do during a call is not
  interleaved with it.  Reference counts are unbounded here; a reference is held by the
  registry, by the harbor or by a thread, so that the \<open>int\<close> never overflows.
\<close>

definition MESSAGE_TYPE_MASK :: u64 where "MESSAGE_TYPE_MASK = 0x00ffffffffffffff"
definition PTYPE_TEXT :: u32 where "PTYPE_TEXT = 0"
definition PTYPE_CLIENT :: u32 where "PTYPE_CLIENT = 3"
definition PTYPE_SYSTEM :: u32 where "PTYPE_SYSTEM = 4"
definition PTYPE_HARBOR :: u32 where "PTYPE_HARBOR = 5"
definition PTYPE_SOCKET :: nat where "PTYPE_SOCKET = 6"
definition PTYPE_ERROR :: u32 where "PTYPE_ERROR = 7"
definition PTYPE_TAG_DONTCOPY :: u32 where "PTYPE_TAG_DONTCOPY = 0x10000"
definition PTYPE_TAG_ALLOCSESSION :: u32 where "PTYPE_TAG_ALLOCSESSION = 0x20000"
definition GLOBALNAME_LENGTH :: nat where "GLOBALNAME_LENGTH = 16"
definition LOG_MESSAGE_SIZE :: nat where "LOG_MESSAGE_SIZE = 256"

definition type_bits :: "u32 \<Rightarrow> u64" where
  "type_bits type = push_bit MESSAGE_TYPE_SHIFT (ucast type)"

subsection \<open>References\<close>

definition skynet_context_grab :: "world \<Rightarrow> ctx_id \<Rightarrow> world option" where
  "skynet_context_grab w c = upd_ctx (\<lambda>x. x\<lparr>ctx_ref := ctx_ref x + 1\<rparr>) w c"

definition skynet_context_reserve :: "world \<Rightarrow> ctx_id \<Rightarrow> world option" where
  "skynet_context_reserve w c = do {
     w \<leftarrow> skynet_context_grab w c;
     Some (w\<lparr>w_total := w_total w - 1\<rparr>) }"

definition fclose :: "world \<Rightarrow> nat \<Rightarrow> world option" where
  "fclose w f = do { s \<leftarrow> w_files w f; Some (w\<lparr>w_files := (w_files w)(f := None)\<rparr>) }"

definition delete_context :: "ext \<Rightarrow> world \<Rightarrow> ctx_id \<Rightarrow> world option" where
  "delete_context X w c = do {
     x \<leftarrow> w_ctxs w c;
     w \<leftarrow> (case ctx_logfile x of Some f \<Rightarrow> fclose w f | None \<Rightarrow> Some w);
     w \<leftarrow> skynet_module_instance_release X w (ctx_mod x) (ctx_instance x);
     x \<leftarrow> w_ctxs w c;
     p \<leftarrow> ctx_queue x;
     w \<leftarrow> skynet_mq_mark_release w p;
     Some (w\<lparr>w_ctxs := (w_ctxs w)(c := None), w_total := w_total w - 1\<rparr>) }"

definition skynet_context_release :: "ext \<Rightarrow> world \<Rightarrow> ctx_id \<Rightarrow> (ctx_id option \<times> world) option" where
  "skynet_context_release X w c = do {
     w \<leftarrow> upd_ctx (\<lambda>x. x\<lparr>ctx_ref := ctx_ref x - 1\<rparr>) w c;
     x \<leftarrow> w_ctxs w c;
     (if ctx_ref x = 0
      then do { w \<leftarrow> delete_context X w c; Some (None, w) }
      else Some (Some c, w)) }"

text \<open>\<open>skynet_handle_grab\<close> and \<open>skynet_handle_retire\<close> with the reference they take and give up.\<close>

definition handle_grab :: "world \<Rightarrow> u32 \<Rightarrow> (ctx_id option \<times> world) option" where
  "handle_grab w h = do {
     r \<leftarrow> skynet_handle_grab (w_hof w) (w_hs w) h;
     (case r of
        None \<Rightarrow> Some (None, w)
      | Some c \<Rightarrow> do { w \<leftarrow> skynet_context_grab w c; Some (Some c, w) }) }"

definition handle_retire :: "ext \<Rightarrow> world \<Rightarrow> u32 \<Rightarrow> (nat \<times> world) option" where
  "handle_retire X w h = do {
     (r, s) \<leftarrow> skynet_handle_retire (w_hof w) (w_hs w) h;
     let w = w\<lparr>w_hs := s\<rparr>;
     (case r of
        None \<Rightarrow> Some (0, w)
      | Some c \<Rightarrow> do { (ret, w) \<leftarrow> skynet_context_release X w c; Some (1, w) }) }"

text \<open>The inner and the outer loop of \<open>skynet_handle_retireall\<close>.\<close>

partial_function (option) retire_pass :: "ext \<Rightarrow> world \<Rightarrow> nat \<Rightarrow> nat \<Rightarrow> (nat \<times> world) option" where
  "retire_pass X w i n =
     (if i < hs_slot_size (w_hs w)
      then do {
        cell \<leftarrow> arr_get (hs_slot (w_hs w)) i;
        (r, w) \<leftarrow> (let h = (case cell of Some c \<Rightarrow> w_hof w c | None \<Rightarrow> 0)
                   in if h \<noteq> 0 then handle_retire X w h else Some (0, w));
        retire_pass X w (i + 1) (n + r) }
      else Some (n, w))"

partial_function (option) skynet_handle_retireall :: "ext \<Rightarrow> world \<Rightarrow> world option" where
  "skynet_handle_retireall X w = do {
     (n, w) \<leftarrow> retire_pass X w 0 0;
     (if n = 0 then Some w else skynet_handle_retireall X w) }"

declare retire_pass.simps [code]
declare skynet_handle_retireall.simps [code]

text \<open>\<open>++ctx->session_id\<close> is an \<open>int\<close>: after the greatest one it overflows, which is undefined behaviour,
  so that the test for a negative result does not guard it.\<close>

definition skynet_context_newsession :: "world \<Rightarrow> ctx_id \<Rightarrow> (int \<times> world) option" where
  "skynet_context_newsession w c = do {
     x \<leftarrow> w_ctxs w c;
     session \<leftarrow> c_sint (ctx_session_id x + 1);
     (if session \<le> 0
      then Some (1, set_ctx w c (x\<lparr>ctx_session_id := 1\<rparr>))
      else Some (session, set_ctx w c (x\<lparr>ctx_session_id := session\<rparr>))) }"

subsection \<open>Pushing a message\<close>

definition skynet_context_push :: "ext \<Rightarrow> world \<Rightarrow> u32 \<Rightarrow> skynet_message \<Rightarrow> (int \<times> world) option" where
  "skynet_context_push X w h m = do {
     (r, w) \<leftarrow> handle_grab w h;
     (case r of
        None \<Rightarrow> Some (- 1, w)
      | Some c \<Rightarrow> do {
          x \<leftarrow> w_ctxs w c;
          p \<leftarrow> ctx_queue x;
          w \<leftarrow> skynet_mq_push w p m;
          (ret, w) \<leftarrow> skynet_context_release X w c;
          Some (0, w) }) }"

definition skynet_context_endless :: "ext \<Rightarrow> world \<Rightarrow> u32 \<Rightarrow> world option" where
  "skynet_context_endless X w h = do {
     (r, w) \<leftarrow> handle_grab w h;
     (case r of
        None \<Rightarrow> Some w
      | Some c \<Rightarrow> do {
          w \<leftarrow> upd_ctx (\<lambda>x. x\<lparr>ctx_endless := True\<rparr>) w c;
          (ret, w) \<leftarrow> skynet_context_release X w c;
          Some w }) }"

text \<open>The size of the buffer that \<open>skynet_error\<close> allocates for a text of \<open>len\<close> characters: the
  exact size for a short one, else the first of 512, 1024, ... that holds it.\<close>

partial_function (option) error_size_loop :: "nat \<Rightarrow> nat \<Rightarrow> nat option" where
  "error_size_loop len max_size = do {
     max_size \<leftarrow> c_int (max_size * 2);
     (if len < max_size then Some max_size else error_size_loop len max_size) }"

definition error_size :: "nat \<Rightarrow> nat option" where
  "error_size len = (if len < LOG_MESSAGE_SIZE then Some (len + 1) else error_size_loop len LOG_MESSAGE_SIZE)"

declare error_size_loop.simps [code]

text \<open>\<open>skynet_error\<close> with the text its format gives.  The bytes of a large buffer after the
  terminating zero are not initialised by the code and are zero here.\<close>

definition skynet_error :: "ext \<Rightarrow> world \<Rightarrow> ctx_id option \<Rightarrow> string \<Rightarrow> world option" where
  "skynet_error X w ctx s = do {
     lg \<leftarrow> (if w_logger w = 0 then skynet_handle_findname (w_hs w) ''logger'' else Some (w_logger w));
     let w = w\<lparr>w_logger := lg\<rparr>;
     (if lg = 0 then Some w
      else do {
        len \<leftarrow> c_int (length s);
        size \<leftarrow> error_size len;
        let (a, w) = skynet_malloc (Bytes (string_bytes s @ replicate (size - len) 0)) w;
        source \<leftarrow> (case ctx of None \<Rightarrow> Some 0 | Some c \<Rightarrow> map_option ctx_handle (w_ctxs w c));
        (r, w) \<leftarrow> skynet_context_push X w lg
          \<lparr>msg_source = source, msg_session = 0, msg_data = Some a, msg_sz = of_nat len OR type_bits PTYPE_TEXT\<rparr>;
        Some w }) }"

subsection \<open>The harbor\<close>

definition skynet_context_send ::
    "world \<Rightarrow> ctx_id \<Rightarrow> nat option \<Rightarrow> u64 \<Rightarrow> u32 \<Rightarrow> u32 \<Rightarrow> int \<Rightarrow> world option" where
  "skynet_context_send w c data sz source type session = do {
     x \<leftarrow> w_ctxs w c;
     p \<leftarrow> ctx_queue x;
     skynet_mq_push w p \<lparr>msg_source = source, msg_session = session, msg_data = data,
       msg_sz = sz OR type_bits type\<rparr> }"

definition SIZEOF_REMOTE :: u64 where "SIZEOF_REMOTE = 40"

definition skynet_harbor_send :: "world \<Rightarrow> nat \<Rightarrow> u32 \<Rightarrow> int \<Rightarrow> world option" where
  "skynet_harbor_send w a source session = do {
     b \<leftarrow> w_mem w a;
     rmsg \<leftarrow> (case b of Remote r \<Rightarrow> Some r | _ \<Rightarrow> None);
     let type = (ucast (drop_bit MESSAGE_TYPE_SHIFT (rm_sz rmsg)) :: u32);
     let w = w\<lparr>w_mem := (w_mem w)(a \<mapsto> Remote (rmsg\<lparr>rm_sz := rm_sz rmsg AND MESSAGE_TYPE_MASK\<rparr>))\<rparr>;
     c_assert (type \<noteq> PTYPE_SYSTEM \<and> type \<noteq> PTYPE_HARBOR);
     c \<leftarrow> w_REMOTE w;
     skynet_context_send w c (Some a) SIZEOF_REMOTE source type session }"

definition skynet_harbor_message_isremote :: "world \<Rightarrow> u32 \<Rightarrow> bool option" where
  "skynet_harbor_message_isremote w h = do {
     c_assert (w_HARBOR w \<noteq> - 1);
     let n = h AND NOT HANDLE_MASK;
     Some (n \<noteq> w_HARBOR w \<and> n \<noteq> 0) }"

definition skynet_harbor_init :: "world \<Rightarrow> int \<Rightarrow> world" where
  "skynet_harbor_init w harbor = w\<lparr>w_HARBOR := push_bit HANDLE_REMOTE_SHIFT (word_of_int harbor)\<rparr>"

definition skynet_harbor_start :: "world \<Rightarrow> ctx_id \<Rightarrow> world option" where
  "skynet_harbor_start w c = do {
     w \<leftarrow> skynet_context_reserve w c;
     Some (w\<lparr>w_REMOTE := Some c\<rparr>) }"

definition skynet_harbor_exit :: "ext \<Rightarrow> world \<Rightarrow> world option" where
  "skynet_harbor_exit X w = (case w_REMOTE w of
     None \<Rightarrow> Some w
   | Some c \<Rightarrow> do { (ret, w) \<leftarrow> skynet_context_release X (w\<lparr>w_REMOTE := None\<rparr>) c; Some w })"

definition skynet_isremote :: "world \<Rightarrow> u32 \<Rightarrow> (bool \<times> nat) option" where
  "skynet_isremote w h = do {
     r \<leftarrow> skynet_harbor_message_isremote w h;
     Some (r, unat (drop_bit HANDLE_REMOTE_SHIFT h)) }"

subsection \<open>Sending\<close>

text \<open>\<open>_filter_args\<close>: the session, the payload (copied with a terminating zero unless the sender
  gives it away) and the size with the type in its high byte.\<close>

definition filter_args :: "ext \<Rightarrow> world \<Rightarrow> ctx_id option \<Rightarrow> u32 \<Rightarrow> int \<Rightarrow> nat option \<Rightarrow> u64 \<Rightarrow>
    (int \<times> nat option \<times> u64 \<times> world) option" where
  "filter_args X w ctx type session data sz = do {
     (session, w) \<leftarrow>
       (if type AND PTYPE_TAG_ALLOCSESSION \<noteq> 0
        then do { c_assert (session = 0); c \<leftarrow> ctx; skynet_context_newsession w c }
        else Some (session, w));
     (data, w) \<leftarrow>
       (case data of
          Some a \<Rightarrow>
            if type AND PTYPE_TAG_DONTCOPY = 0
            then do {
              bs \<leftarrow> mem_bytes X w a;
              c_assert (unat sz \<le> length bs);
              let (m, w) = skynet_malloc (Bytes (take (unat sz) bs @ [0])) w;
              Some (Some m, w) }
            else Some (Some a, w)
        | None \<Rightarrow> Some (None, w));
     Some (session, data, sz OR type_bits (type AND 0xff), w) }"

definition skynet_send :: "ext \<Rightarrow> world \<Rightarrow> ctx_id option \<Rightarrow> u32 \<Rightarrow> u32 \<Rightarrow> u32 \<Rightarrow> int \<Rightarrow> nat option \<Rightarrow> u64 \<Rightarrow>
    (int \<times> world) option" where
  "skynet_send X w ctx source destination type session data sz =
     (if sz AND MESSAGE_TYPE_MASK \<noteq> sz
      then do {
        w \<leftarrow> skynet_error X w ctx (''The message to '' @ print_x destination @ '' is too large'');
        w \<leftarrow> (if type AND PTYPE_TAG_DONTCOPY \<noteq> 0 then skynet_free w data else Some w);
        Some (- 1, w) }
      else do {
        (session, data, sz, w) \<leftarrow> filter_args X w ctx type session data sz;
        source \<leftarrow> (if source = 0 then do { c \<leftarrow> ctx; x \<leftarrow> w_ctxs w c; Some (ctx_handle x) } else Some source);
        (if destination = 0 then Some (session, w)
         else do {
           remote \<leftarrow> skynet_harbor_message_isremote w destination;
           (if remote
            then do {
              let (a, w) = skynet_malloc (Remote \<lparr>rm_destination = \<lparr>rn_name = [], rn_handle = destination\<rparr>,
                             rm_message = data, rm_sz = sz\<rparr>) w;
              w \<leftarrow> skynet_harbor_send w a source session;
              Some (session, w) }
            else do {
              (r, w) \<leftarrow> skynet_context_push X w destination
                \<lparr>msg_source = source, msg_session = session, msg_data = data, msg_sz = sz\<rparr>;
              (if r \<noteq> 0 then do { w \<leftarrow> skynet_free w data; Some (- 1, w) }
               else Some (session, w)) }) }) })"

text \<open>\<open>copy_name\<close>: sixteen characters, filled up with zeros.\<close>

fun copy_name_loop :: "nat \<Rightarrow> string \<Rightarrow> string" where
  "copy_name_loop 0 addr = []"
| "copy_name_loop (Suc n) addr =
     (case addr of a # r \<Rightarrow> a # copy_name_loop n r | [] \<Rightarrow> CHR 0x00 # copy_name_loop n [])"

definition copy_name :: "string \<Rightarrow> string" where
  "copy_name addr = copy_name_loop GLOBALNAME_LENGTH addr"

definition skynet_sendname :: "ext \<Rightarrow> world \<Rightarrow> ctx_id option \<Rightarrow> u32 \<Rightarrow> string \<Rightarrow> u32 \<Rightarrow> int \<Rightarrow> nat option \<Rightarrow>
    u64 \<Rightarrow> (int \<times> world) option" where
  "skynet_sendname X w ctx source addr type session data sz = do {
     source \<leftarrow> (if source = 0 then do { c \<leftarrow> ctx; x \<leftarrow> w_ctxs w c; Some (ctx_handle x) } else Some source);
     (if starts CHR '':'' addr then skynet_send X w ctx source (parse_handle (tl addr)) type session data sz
      else if starts CHR ''.'' addr then do {
          des \<leftarrow> skynet_handle_findname (w_hs w) (tl addr);
          (if des = 0
           then do {
             w \<leftarrow> (if type AND PTYPE_TAG_DONTCOPY \<noteq> 0 then skynet_free w data else Some w);
             Some (- 1, w) }
           else skynet_send X w ctx source des type session data sz) }
      else do {
          (session, data, sz, w) \<leftarrow> filter_args X w ctx type session data sz;
          let (a, w) = skynet_malloc (Remote \<lparr>rm_destination = \<lparr>rn_name = copy_name addr, rn_handle = 0\<rparr>,
                         rm_message = data, rm_sz = sz\<rparr>) w;
          w \<leftarrow> skynet_harbor_send w a source session;
          Some (session, w) }) }"

text \<open>\<open>drop_message\<close>: the payload is freed and the sender is told.\<close>

definition drop_message :: "ext \<Rightarrow> u32 \<Rightarrow> skynet_message \<Rightarrow> world \<Rightarrow> world option" where
  "drop_message X source m w = do {
     w \<leftarrow> skynet_free w (msg_data m);
     c_assert (source \<noteq> 0);
     (r, w) \<leftarrow> skynet_send X w None source (msg_source m) PTYPE_ERROR 0 None 0;
     Some w }"

definition skynet_callback :: "world \<Rightarrow> ctx_id \<Rightarrow> nat option \<Rightarrow> nat option \<Rightarrow> world option" where
  "skynet_callback w c ud cb = upd_ctx (\<lambda>x. x\<lparr>ctx_cb := cb, ctx_cb_ud := ud\<rparr>) w c"

subsection \<open>Log files of services\<close>

definition fprintf :: "world \<Rightarrow> nat \<Rightarrow> string \<Rightarrow> world option" where
  "fprintf w f s = do { t \<leftarrow> w_files w f; Some (w\<lparr>w_files := (w_files w)(f \<mapsto> t @ s)\<rparr>) }"

definition print_ptime :: "world \<Rightarrow> string" where
  "print_ptime w = print_base 10 (unat (ucast (skynet_now (w_timer w)) :: u32))"

text \<open>\<open>skynet_log_open\<close>: the file, or \<open>None\<close> when no path is configured or \<open>fopen\<close> fails.\<close>

definition skynet_log_open :: "ext \<Rightarrow> world \<Rightarrow> ctx_id \<Rightarrow> u32 \<Rightarrow> (nat option \<times> world) option" where
  "skynet_log_open X w ctx h = (case skynet_getenv w ''logpath'' of
     None \<Rightarrow> Some (None, w)
   | Some logpath \<Rightarrow>
       let tmp = logpath @ ''/'' @ print_08x h @ ''.log'' in do {
         c_assert (length tmp < length logpath + 16);
         (if x_fopen X tmp
          then do {
            let f = w_brk w;
            let ti = (uint (ucast (skynet_starttime (w_timer w)) + skynet_now (w_timer w) div 100 :: u64));
            w \<leftarrow> skynet_error X (w\<lparr>w_files := (w_files w)(f \<mapsto> []), w_brk := f + 1\<rparr>) (Some ctx)
              (''Open log file '' @ tmp);
            w \<leftarrow> fprintf w f (''open time: '' @ print_ptime w @ '' '' @ x_ctime X ti);
            Some (Some f, w) }
          else do {
            w \<leftarrow> skynet_error X w (Some ctx) (''Open log file '' @ tmp @ '' fail'');
            Some (None, w) }) })"

definition skynet_log_close :: "ext \<Rightarrow> world \<Rightarrow> ctx_id \<Rightarrow> nat \<Rightarrow> u32 \<Rightarrow> world option" where
  "skynet_log_close X w ctx f h = do {
     w \<leftarrow> skynet_error X w (Some ctx) (''Close log file :'' @ print_08x h);
     w \<leftarrow> fprintf w f (''close time: '' @ print_ptime w @ [CHR 0x0A]);
     fclose w f }"

definition log_blob :: "ext \<Rightarrow> world \<Rightarrow> nat option \<Rightarrow> nat \<Rightarrow> string option" where
  "log_blob X w buffer sz =
     (if sz = 0 then Some []
      else do {
        a \<leftarrow> buffer;
        bs \<leftarrow> mem_bytes X w a;
        c_assert (sz \<le> length bs);
        Some (concat (map print_02x (take sz bs))) })"

definition SIZEOF_SOCKET :: u64 where "SIZEOF_SOCKET = 24"

text \<open>\<open>[%*s]\<close> prints the characters up to the zero byte, which must exist, in a field of at least
  the given width.\<close>

definition log_socket :: "ext \<Rightarrow> world \<Rightarrow> nat option \<Rightarrow> u64 \<Rightarrow> string option" where
  "log_socket X w buffer sz = do {
     a \<leftarrow> buffer;
     b \<leftarrow> w_mem w a;
     m \<leftarrow> (case b of Socket m \<Rightarrow> Some m | _ \<Rightarrow> None);
     t \<leftarrow> (case sm_buffer m of
            None \<Rightarrow> do {
              c_assert (0 \<in> set (sm_data m));
              let s = takeWhile (\<lambda>b. b \<noteq> 0) (sm_data m);
              let width = (if length s < unat (sz - SIZEOF_SOCKET) then length s else unat (sz - SIZEOF_SOCKET));
              Some (''['' @ replicate (width - length s) CHR '' '' @ map (\<lambda>b. char_of (unat b)) s @ '']'') }
          | Some d \<Rightarrow> log_blob X w (Some d) (unat (word_of_int (sm_ud m) :: u64)));
     Some (''[socket] '' @ print_d (sm_type m) @ '' '' @ print_d (sm_id m) @ '' '' @ print_d (sm_ud m) @ '' '' @ t @
       [CHR 0x0A]) }"

definition skynet_log_output ::
    "ext \<Rightarrow> world \<Rightarrow> nat \<Rightarrow> u32 \<Rightarrow> nat \<Rightarrow> int \<Rightarrow> nat option \<Rightarrow> u64 \<Rightarrow> world option" where
  "skynet_log_output X w f source type session buffer sz =
     (if type = PTYPE_SOCKET
      then do { t \<leftarrow> log_socket X w buffer sz; fprintf w f t }
      else do {
        t \<leftarrow> log_blob X w buffer (unat sz);
        fprintf w f ('':'' @ print_08x source @ '' '' @ print_d (int type) @ '' '' @ print_d session @ '' '' @
          print_ptime w @ '' '' @ t @ [CHR 0x0A]) })"

subsection \<open>Starting a service\<close>

definition new_context :: "nat \<Rightarrow> int \<Rightarrow> skynet_context" where
  "new_context md inst = \<lparr>ctx_instance = inst, ctx_mod = md, ctx_cb_ud = None, ctx_cb = None, ctx_queue = None,
     ctx_logfile = None, ctx_result = [], ctx_handle = 0, ctx_session_id = 0, ctx_ref = 2, ctx_init = False,
     ctx_endless = False\<rparr>"

text \<open>The first half of \<open>skynet_context_new\<close>: the context is allocated, registered and given its
  queue; then the module's \<open>init\<close> runs and the second half follows.\<close>

definition context_setup :: "world \<Rightarrow> nat \<Rightarrow> int \<Rightarrow> (ctx_id \<times> qid \<times> world) option" where
  "context_setup w md inst = do {
     let c = w_brk w;
     let w = (set_ctx w c (new_context md inst))\<lparr>w_brk := c + 1\<rparr>;
     (h, s) \<leftarrow> skynet_handle_register (w_hof w) (w_hs w) c;
     w \<leftarrow> upd_ctx (\<lambda>x. x\<lparr>ctx_handle := h\<rparr>) (w\<lparr>w_hs := s\<rparr>) c;
     let p = w_brk w;
     w \<leftarrow> upd_ctx (\<lambda>x. x\<lparr>ctx_queue := Some p\<rparr>) ((skynet_mq_create w p h)\<lparr>w_brk := p + 1\<rparr>) c;
     Some (c, p, w\<lparr>w_total := w_total w + 1\<rparr>) }"

definition context_started ::
    "ext \<Rightarrow> world \<Rightarrow> ctx_id \<Rightarrow> qid \<Rightarrow> string \<Rightarrow> string option \<Rightarrow> (ctx_id option \<times> world) option" where
  "context_started X w c p nm param = do {
     (ret, w) \<leftarrow> skynet_context_release X w c;
     w \<leftarrow> (if ret \<noteq> None then upd_ctx (\<lambda>x. x\<lparr>ctx_init := True\<rparr>) w c else Some w);
     w \<leftarrow> skynet_globalmq_push w p;
     w \<leftarrow> (if ret \<noteq> None
           then skynet_error X w ret (''LAUNCH '' @ nm @ '' '' @ (case param of Some s \<Rightarrow> s | None \<Rightarrow> []))
           else Some w);
     Some (ret, w) }"

definition context_failed ::
    "ext \<Rightarrow> world \<Rightarrow> ctx_id \<Rightarrow> qid \<Rightarrow> string \<Rightarrow> (ctx_id option \<times> world) option" where
  "context_failed X w c p nm = do {
     w \<leftarrow> skynet_error X w (Some c) (''FAILED launch '' @ nm);
     x \<leftarrow> w_ctxs w c;
     let h = ctx_handle x;
     (ret, w) \<leftarrow> skynet_context_release X w c;
     (n, w) \<leftarrow> handle_retire X w h;
     w \<leftarrow> skynet_mq_release (drop_message X h) w p;
     Some (None, w) }"

definition skynet_context_new ::
    "ext \<Rightarrow> world \<Rightarrow> string \<Rightarrow> string option \<Rightarrow> (ctx_id option \<times> world) option" where
  "skynet_context_new X w nm param = do {
     (md, ms) \<leftarrow> skynet_module_query X (w_modules w) nm;
     let w = w\<lparr>w_modules := ms\<rparr>;
     (case md of
        None \<Rightarrow> Some (None, w)
      | Some md \<Rightarrow> do {
          (inst, w) \<leftarrow> skynet_module_instance_create X w md;
          (case inst of
             None \<Rightarrow> Some (None, w)
           | Some inst \<Rightarrow> do {
               (c, p, w) \<leftarrow> context_setup w md inst;
               (r, w) \<leftarrow> skynet_module_instance_init X w md inst c param;
               (if r = 0 then context_started X w c p nm param else context_failed X w c p nm) }) }) }"

subsection \<open>Dispatching\<close>

definition dispatch_message :: "ext \<Rightarrow> world \<Rightarrow> ctx_id \<Rightarrow> skynet_message \<Rightarrow> world option" where
  "dispatch_message X w c m = do {
     x \<leftarrow> w_ctxs w c;
     c_assert (ctx_init x);
     let w = w\<lparr>w_handle_key := ctx_handle x\<rparr>;
     let type = unat (drop_bit MESSAGE_TYPE_SHIFT (msg_sz m));
     let sz = msg_sz m AND MESSAGE_TYPE_MASK;
     w \<leftarrow> (case ctx_logfile x of
            Some f \<Rightarrow> skynet_log_output X w f (msg_source m) type (msg_session m) (msg_data m) sz
          | None \<Rightarrow> Some w);
     cb \<leftarrow> ctx_cb x;
     (r, w) \<leftarrow> x_cb X cb c (ctx_cb_ud x) type (msg_session m) (msg_source m) (msg_data m) (unat sz) w;
     (if r = 0 then skynet_free w (msg_data m) else Some w) }"

partial_function (option) skynet_context_dispatchall :: "ext \<Rightarrow> world \<Rightarrow> ctx_id \<Rightarrow> qid \<Rightarrow> world option" where
  "skynet_context_dispatchall X w c p = do {
     (r, w) \<leftarrow> skynet_mq_pop w p;
     (case r of
        None \<Rightarrow> Some w
      | Some m \<Rightarrow> do { w \<leftarrow> dispatch_message X w c m; skynet_context_dispatchall X w c p }) }"

declare skynet_context_dispatchall.simps [code]

definition overload_text :: "ext \<Rightarrow> nat \<Rightarrow> skynet_message \<Rightarrow> string \<Rightarrow> string" where
  "overload_text X overload m s =
     ''['' @ print_base 10 (nat (fst (x_gettimeofday X) * 1000 + snd (x_gettimeofday X) div 1000)) @
     ''], May overload, message queue length = '' @ print_d (int overload) @ '', '' @ print_x (msg_source m) @
     '', '' @ s"

text \<open>What the loop of \<open>skynet_context_message_dispatch\<close> does with one message.\<close>

definition dispatch_one :: "ext \<Rightarrow> ctx_id \<Rightarrow> qid \<Rightarrow> u32 \<Rightarrow> skynet_monitor \<Rightarrow> skynet_message \<Rightarrow> world \<Rightarrow>
    (skynet_monitor \<times> world) option" where
  "dispatch_one X c p h sm m w = do {
     q \<leftarrow> mqs w p;
     let (overload, q) = skynet_mq_overload q;
     let w = set_mq w p q;
     w \<leftarrow> (if overload \<noteq> 0
           then do {
             s \<leftarrow> mem_string X w (msg_data m);
             skynet_error X w (Some c) (overload_text X overload m s) }
           else Some w);
     let sm = skynet_monitor_trigger sm (msg_source m) h;
     x \<leftarrow> w_ctxs w c;
     w \<leftarrow> (if ctx_cb x = None then skynet_free w (msg_data m) else dispatch_message X w c m);
     Some (skynet_monitor_trigger sm 0 0, w) }"

text \<open>The loop \<open>for (i=0;i<n;i++)\<close>; the flag of the result tells that the queue was found empty.\<close>

function dispatch_loop :: "ext \<Rightarrow> ctx_id \<Rightarrow> qid \<Rightarrow> u32 \<Rightarrow> int \<Rightarrow> nat \<Rightarrow> nat \<Rightarrow> skynet_monitor \<Rightarrow> world \<Rightarrow>
    (bool \<times> skynet_monitor \<times> world) option" where
  "dispatch_loop X c p h weight i n sm w =
     (if i < n
      then do {
        (r, w) \<leftarrow> skynet_mq_pop w p;
        (case r of
           None \<Rightarrow> Some (True, sm, w)
         | Some m \<Rightarrow> do {
             q \<leftarrow> mqs w p;
             let n = (if i = 0 \<and> 0 \<le> weight then skynet_mq_length q div 2 ^ nat weight else n);
             (sm, w) \<leftarrow> dispatch_one X c p h sm m w;
             dispatch_loop X c p h weight (i + 1) n sm w }) }
      else Some (False, sm, w))"
  by pat_completeness auto
termination
  by (relation "measures [\<lambda>(X, c, p, h, weight, i, n, sm, w). if i = 0 then 1 else 0,
      \<lambda>(X, c, p, h, weight, i, n, sm, w). n - i]") auto

declare dispatch_loop.simps [simp del]

text \<open>\<open>skynet_context_message_dispatch\<close> once it has a queue.\<close>

definition dispatch_queue ::
    "ext \<Rightarrow> skynet_monitor \<Rightarrow> qid \<Rightarrow> int \<Rightarrow> world \<Rightarrow> (qid option \<times> skynet_monitor \<times> world) option" where
  "dispatch_queue X sm p weight w = do {
     mq \<leftarrow> mqs w p;
     let h = skynet_mq_handle mq;
     (r, w) \<leftarrow> handle_grab w h;
     (case r of
        None \<Rightarrow> do {
          w \<leftarrow> skynet_mq_release (drop_message X h) w p;
          (nq, w) \<leftarrow> skynet_globalmq_pop w;
          Some (nq, sm, w) }
      | Some c \<Rightarrow> do {
          (empty, sm, w) \<leftarrow> dispatch_loop X c p h weight 0 1 sm w;
          (if empty
           then do {
             (ret, w) \<leftarrow> skynet_context_release X w c;
             (nq, w) \<leftarrow> skynet_globalmq_pop w;
             Some (nq, sm, w) }
           else do {
             x \<leftarrow> w_ctxs w c;
             c_assert (Some p = ctx_queue x);
             (nq, w) \<leftarrow> skynet_globalmq_pop w;
             (q, w) \<leftarrow> (case nq of
                 Some nq \<Rightarrow> do { w \<leftarrow> skynet_globalmq_push w p; Some (nq, w) }
               | None \<Rightarrow> Some (p, w));
             (ret, w) \<leftarrow> skynet_context_release X w c;
             Some (Some q, sm, w) }) }) }"

definition skynet_context_message_dispatch ::
    "ext \<Rightarrow> skynet_monitor \<Rightarrow> qid option \<Rightarrow> int \<Rightarrow> world \<Rightarrow> (qid option \<times> skynet_monitor \<times> world) option" where
  "skynet_context_message_dispatch X sm q weight w = do {
     (q, w) \<leftarrow> (case q of Some p \<Rightarrow> Some (Some p, w) | None \<Rightarrow> skynet_globalmq_pop w);
     (case q of
        None \<Rightarrow> Some (None, sm, w)
      | Some p \<Rightarrow> dispatch_queue X sm p weight w) }"

subsection \<open>Threads of the node\<close>

text \<open>The check of a worker's monitor by the monitor thread.\<close>

definition skynet_monitor_check :: "ext \<Rightarrow> skynet_monitor \<Rightarrow> world \<Rightarrow> (skynet_monitor \<times> world) option" where
  "skynet_monitor_check X sm w =
     (if mon_version sm = mon_check_version sm
      then if mon_destination sm \<noteq> 0
           then do {
             w \<leftarrow> skynet_context_endless X w (mon_destination sm);
             w \<leftarrow> skynet_error X w None (''A message from [ :'' @ print_08x (mon_source sm) @ '' ] to [ :'' @
               print_08x (mon_destination sm) @ '' ] maybe in an endless loop (version = '' @
               print_d (mon_version sm) @ '')'');
             Some (sm, w) }
           else Some (sm, w)
      else Some (sm\<lparr>mon_check_version := mon_version sm\<rparr>, w))"

text \<open>The messages of expired timers, \<open>dispatch_list\<close>, are pushed in order; a handle that is gone
  is skipped.\<close>

fun push_timeouts :: "ext \<Rightarrow> world \<Rightarrow> (u32 \<times> skynet_message) list \<Rightarrow> world option" where
  "push_timeouts X w [] = Some w"
| "push_timeouts X w ((h, m) # ms) = do {
     (r, w) \<leftarrow> skynet_context_push X w h m;
     push_timeouts X w ms }"

definition node_updatetime :: "ext \<Rightarrow> world \<Rightarrow> u64 \<Rightarrow> world option" where
  "node_updatetime X w cp = do {
     (err, outs, T) \<leftarrow> skynet_updatetime (w_timer w) cp;
     w \<leftarrow> (if err then skynet_error X (w\<lparr>w_timer := T\<rparr>) None (''time diff error: change from '' @
             print_d (sint cp) @ '' to '' @ print_d (sint (tm_current_point (w_timer w))))
           else Some (w\<lparr>w_timer := T\<rparr>));
     push_timeouts X w (dispatch_list (concat outs)) }"

end
