(* ===== verification/Command.thy ===== *)
theory Command
  imports Server
begin

text \<open>
  The text commands of \<open>skynet_server.c\<close>: \<open>skynet_command\<close> and its table of functions, and
  the resolution of addresses.  A command returns a string or \<open>NULL\<close> (\<open>None\<close>); results
  are written into the 32 bytes of \<open>ctx->result\<close>, where a longer text is a fault.
\<close>

type_synonym command = "ext \<Rightarrow> world \<Rightarrow> ctx_id \<Rightarrow> string option \<Rightarrow> (string option \<times> world) option"

definition RESULT_SIZE :: nat where "RESULT_SIZE = 32"

definition set_result :: "world \<Rightarrow> ctx_id \<Rightarrow> string \<Rightarrow> (string option \<times> world) option" where
  "set_result w c s = do {
     c_assert (length s < RESULT_SIZE);
     w \<leftarrow> upd_ctx (\<lambda>x. x\<lparr>ctx_result := s\<rparr>) w c;
     Some (Some s, w) }"

text \<open>\<open>id_to_hex\<close>: a colon and eight upper case digits.\<close>

definition id_to_hex :: "u32 \<Rightarrow> string" where
  "id_to_hex h = CHR '':'' # map (\<lambda>i. HEX_UPPER ! unat (drop_bit ((7 - i) * 4) h AND 0xf)) [0..<8]"

definition skynet_queryname :: "ext \<Rightarrow> world \<Rightarrow> ctx_id option \<Rightarrow> string \<Rightarrow> (u32 \<times> world) option" where
  "skynet_queryname X w ctx nm =
     (if starts CHR '':'' nm then Some (parse_handle (tl nm), w)
      else if starts CHR ''.'' nm
      then do { h \<leftarrow> skynet_handle_findname (w_hs w) (tl nm); Some (h, w) }
      else do {
        w \<leftarrow> skynet_error X w ctx (''Don't support query global name '' @ nm);
        Some (0, w) })"

definition handle_exit :: "ext \<Rightarrow> world \<Rightarrow> ctx_id \<Rightarrow> u32 \<Rightarrow> world option" where
  "handle_exit X w c h = do {
     x \<leftarrow> w_ctxs w c;
     let self = (h = 0);
     let h = (if self then ctx_handle x else h);
     w \<leftarrow> skynet_error X w (Some c) (if self then ''KILL self'' else ''KILL :'' @ print_x h);
     w \<leftarrow> (if w_monitor_exit w \<noteq> 0
           then do {
             (r, w) \<leftarrow> skynet_send X w (Some c) h (w_monitor_exit w) PTYPE_CLIENT 0 None 0;
             Some w }
           else Some w);
     (n, w) \<leftarrow> handle_retire X w h;
     Some w }"

definition cmd_timeout :: command where
  "cmd_timeout X w c param = do {
     s \<leftarrow> param;
     let ti = to_int32 (strtol s 10);
     (session, w) \<leftarrow> skynet_context_newsession w c;
     x \<leftarrow> w_ctxs w c;
     w \<leftarrow> (case skynet_timeout (w_timer w) (ctx_handle x) ti session of
            Inl (h, m) \<Rightarrow> do { (r, w) \<leftarrow> skynet_context_push X w h m; Some w }
          | Inr T \<Rightarrow> Some (w\<lparr>w_timer := T\<rparr>));
     set_result w c (print_d session) }"

definition cmd_reg :: command where
  "cmd_reg X w c param = do {
     x \<leftarrow> w_ctxs w c;
     (case param of
        None \<Rightarrow> set_result w c ('':'' @ print_x (ctx_handle x))
      | Some s \<Rightarrow>
          if s = [] then set_result w c ('':'' @ print_x (ctx_handle x))
          else if starts CHR ''.'' s
          then do {
            (r, hs) \<leftarrow> skynet_handle_namehandle (w_hs w) (ctx_handle x) (tl s);
            Some (r, w\<lparr>w_hs := hs\<rparr>) }
          else do {
            w \<leftarrow> skynet_error X w (Some c) (''Can't register global name '' @ s @ '' in C'');
            Some (None, w) }) }"

definition cmd_query :: command where
  "cmd_query X w c param = do {
     s \<leftarrow> param;
     (if starts CHR ''.'' s
      then do {
        h \<leftarrow> skynet_handle_findname (w_hs w) (tl s);
        (if h \<noteq> 0 then set_result w c ('':'' @ print_x h) else Some (None, w)) }
      else Some (None, w)) }"

text \<open>\<open>sscanf\<close> with \<open>%s\<close>: the next word and the rest.\<close>

definition scan_word :: "string \<Rightarrow> string \<times> string" where
  "scan_word s = (let s = dropWhile c_isspace s in
     (takeWhile (\<lambda>c. \<not> c_isspace c) s, dropWhile (\<lambda>c. \<not> c_isspace c) s))"

text \<open>With fewer than two words the array \<open>handle\<close> is read without having been written.\<close>

definition cmd_name :: command where
  "cmd_name X w c param = do {
     s \<leftarrow> param;
     let (nm, r) = scan_word s;
     let (hdl, r) = scan_word r;
     c_assert (hdl \<noteq> []);
     (if \<not> starts CHR '':'' hdl then Some (None, w)
      else let h = parse_handle (tl hdl) in
        if h = 0 then Some (None, w)
        else if starts CHR ''.'' nm
        then do {
          (r, hs) \<leftarrow> skynet_handle_namehandle (w_hs w) h (tl nm);
          Some (r, w\<lparr>w_hs := hs\<rparr>) }
        else do {
          w \<leftarrow> skynet_error X w (Some c) (''Can't set global name '' @ nm @ '' in C'');
          Some (None, w) }) }"

definition cmd_exit :: command where
  "cmd_exit X w c param = do { w \<leftarrow> handle_exit X w c 0; Some (None, w) }"

definition tohandle :: "ext \<Rightarrow> world \<Rightarrow> ctx_id \<Rightarrow> string \<Rightarrow> (u32 \<times> world) option" where
  "tohandle X w c s =
     (if starts CHR '':'' s then Some (parse_handle (tl s), w)
      else if starts CHR ''.'' s
      then do { h \<leftarrow> skynet_handle_findname (w_hs w) (tl s); Some (h, w) }
      else do {
        w \<leftarrow> skynet_error X w (Some c) (''Can't convert '' @ s @ '' to handle'');
        Some (0, w) })"

definition cmd_kill :: command where
  "cmd_kill X w c param = do {
     s \<leftarrow> param;
     (h, w) \<leftarrow> tohandle X w c s;
     w \<leftarrow> (if h \<noteq> 0 then handle_exit X w c h else Some w);
     Some (None, w) }"

text \<open>The two calls of \<open>strsep\<close>: the module's name, and the rest of the line if there is one.\<close>

definition launch_args :: "string \<Rightarrow> string \<times> string option" where
  "launch_args s =
     (let sep = (\<lambda>c. c \<in> {CHR '' '', CHR 0x09, CHR 0x0D, CHR 0x0A});
          r = dropWhile (\<lambda>c. \<not> sep c) s
      in (takeWhile (\<lambda>c. \<not> sep c) s,
          if r = [] then None else Some (takeWhile (\<lambda>c. c \<noteq> CHR 0x0D \<and> c \<noteq> CHR 0x0A) (tl r))))"

definition cmd_launch :: command where
  "cmd_launch X w c param = do {
     s \<leftarrow> param;
     let (md, args) = launch_args s;
     (inst, w) \<leftarrow> skynet_context_new X w md args;
     (case inst of
        None \<Rightarrow> Some (None, w)
      | Some i \<Rightarrow> do { x \<leftarrow> w_ctxs w i; set_result w c (id_to_hex (ctx_handle x)) }) }"

definition cmd_getenv :: command where
  "cmd_getenv X w c param = do { k \<leftarrow> param; Some (skynet_getenv w k, w) }"

definition cmd_setenv :: command where
  "cmd_setenv X w c param = do {
     s \<leftarrow> param;
     let key = takeWhile (\<lambda>ch. ch \<noteq> CHR '' '') s;
     (if length key = length s then Some (None, w)
      else do {
        w \<leftarrow> skynet_setenv w key (drop (length key + 1) s);
        Some (None, w) }) }"

definition cmd_starttime :: command where
  "cmd_starttime X w c param = set_result w c (print_base 10 (unat (skynet_starttime (w_timer w))))"

definition cmd_endless :: command where
  "cmd_endless X w c param = do {
     x \<leftarrow> w_ctxs w c;
     (if ctx_endless x
      then do {
        (r, w) \<leftarrow> set_result w c ''1'';
        w \<leftarrow> upd_ctx (\<lambda>x. x\<lparr>ctx_endless := False\<rparr>) w c;
        Some (r, w) }
      else Some (None, w)) }"

definition cmd_abort :: command where
  "cmd_abort X w c param = do { w \<leftarrow> skynet_handle_retireall X w; Some (None, w) }"

definition cmd_monitor :: command where
  "cmd_monitor X w c param =
     (case param of
        Some (ch # s) \<Rightarrow> do {
          (h, w) \<leftarrow> tohandle X w c (ch # s);
          Some (None, w\<lparr>w_monitor_exit := h\<rparr>) }
      | _ \<Rightarrow>
          if w_monitor_exit w \<noteq> 0 then set_result w c ('':'' @ print_x (w_monitor_exit w))
          else Some (None, w))"

definition cmd_mqlen :: command where
  "cmd_mqlen X w c param = do {
     x \<leftarrow> w_ctxs w c;
     p \<leftarrow> ctx_queue x;
     q \<leftarrow> mqs w p;
     set_result w c (print_d (int (skynet_mq_length q))) }"

text \<open>The common part of \<open>cmd_logon\<close>, \<open>cmd_logoff\<close> and \<open>cmd_signal\<close>: the service that the
  parameter names is grabbed, used and released.\<close>

definition with_service ::
    "ext \<Rightarrow> world \<Rightarrow> ctx_id \<Rightarrow> string option \<Rightarrow> (world \<Rightarrow> u32 \<Rightarrow> ctx_id \<Rightarrow> string \<Rightarrow> world option) \<Rightarrow>
     (string option \<times> world) option" where
  "with_service X w c param f = do {
     s \<leftarrow> param;
     (h, w) \<leftarrow> tohandle X w c s;
     (if h = 0 then Some (None, w)
      else do {
        (r, w) \<leftarrow> handle_grab w h;
        (case r of
           None \<Rightarrow> Some (None, w)
         | Some d \<Rightarrow> do {
             w \<leftarrow> f w h d s;
             (ret, w) \<leftarrow> skynet_context_release X w d;
             Some (None, w) }) }) }"

text \<open>The compare-and-swap of \<open>cmd_logon\<close> fails when a file was opened since the test; the text
  that \<open>skynet_log_open\<close> logs cannot do that, but the comparison is kept.\<close>

definition cmd_logon :: command where
  "cmd_logon X w c param = with_service X w c param (\<lambda>w h d s. do {
     x \<leftarrow> w_ctxs w d;
     (if ctx_logfile x = None
      then do {
        (f, w) \<leftarrow> skynet_log_open X w c h;
        (case f of
           None \<Rightarrow> Some w
         | Some f \<Rightarrow> do {
             x \<leftarrow> w_ctxs w d;
             (if ctx_logfile x = None then upd_ctx (\<lambda>x. x\<lparr>ctx_logfile := Some f\<rparr>) w d else fclose w f) }) }
      else Some w) })"

definition cmd_logoff :: command where
  "cmd_logoff X w c param = with_service X w c param (\<lambda>w h d s. do {
     x \<leftarrow> w_ctxs w d;
     (case ctx_logfile x of
        None \<Rightarrow> Some w
      | Some f \<Rightarrow> do {
          w \<leftarrow> upd_ctx (\<lambda>x. x\<lparr>ctx_logfile := None\<rparr>) w d;
          skynet_log_close X w c f h }) })"

definition cmd_signal :: command where
  "cmd_signal X w c param = with_service X w c param (\<lambda>w h d s. do {
     let r = dropWhile (\<lambda>ch. ch \<noteq> CHR '' '') s;
     let sig = (if r = [] then 0 else to_int32 (strtol r 0));
     x \<leftarrow> w_ctxs w d;
     skynet_module_instance_signal X w (ctx_mod x) (ctx_instance x) sig })"

definition cmd_funcs :: "(string \<times> command) list" where
  "cmd_funcs =
    [(''TIMEOUT'', cmd_timeout), (''REG'', cmd_reg), (''QUERY'', cmd_query), (''NAME'', cmd_name),
     (''EXIT'', cmd_exit), (''KILL'', cmd_kill), (''LAUNCH'', cmd_launch), (''GETENV'', cmd_getenv),
     (''SETENV'', cmd_setenv), (''STARTTIME'', cmd_starttime), (''ENDLESS'', cmd_endless),
     (''ABORT'', cmd_abort), (''MONITOR'', cmd_monitor), (''MQLEN'', cmd_mqlen), (''LOGON'', cmd_logon),
     (''LOGOFF'', cmd_logoff), (''SIGNAL'', cmd_signal)]"

fun command_loop :: "(string \<times> command) list \<Rightarrow> string \<Rightarrow> command" where
  "command_loop [] cmd X w c param = Some (None, w)"
| "command_loop ((nm, f) # ms) cmd X w c param =
     (if strcmp cmd nm = 0 then f X w c param else command_loop ms cmd X w c param)"

definition skynet_command :: "ext \<Rightarrow> world \<Rightarrow> ctx_id \<Rightarrow> string \<Rightarrow> string option \<Rightarrow> (string option \<times> world) option" where
  "skynet_command X w c cmd param = command_loop cmd_funcs cmd X w c param"

text \<open>\<open>THREAD_MAIN\<close> is 1; before \<open>skynet_globalinit\<close> the current handle is \<open>(uint32_t)(-1)\<close>.\<close>

definition skynet_initthread :: "world \<Rightarrow> int \<Rightarrow> world" where
  "skynet_initthread w m = w\<lparr>w_handle_key := word_of_int (- m)\<rparr>"

definition skynet_globalinit :: "world \<Rightarrow> world" where
  "skynet_globalinit w =
     skynet_initthread (w\<lparr>w_total := 0, w_monitor_exit := 0, w_node_init := True\<rparr>) 1"

definition skynet_current_handle :: "world \<Rightarrow> u32" where
  "skynet_current_handle w = (if w_node_init w then w_handle_key w else word_of_int (- 1))"

definition skynet_context_total :: "world \<Rightarrow> int" where
  "skynet_context_total w = w_total w"

end
