(* ===== verification/Nodeinv.thy ===== *)
theory Nodeinv
  imports Command
begin

text \<open>
  The invariant of a node and its preservation by every operation of the server: the
  reference count of a context is the number of references to it, a registered handle
  leads to a live context, a live context owns a live queue, the scheduler's invariant
  of the queues holds, and the node counts its contexts.
\<close>

subsection \<open>What queue operations leave alone\<close>

text \<open>Everything but the queues, and of every queue its handle and release mark.\<close>

definition mq_tags :: "world \<Rightarrow> qid \<Rightarrow> (u32 \<times> nat) option" where
  "mq_tags w r = map_option (\<lambda>q. (mq_handle q, mq_release q)) (mqs w r)"

definition mq_same :: "world \<Rightarrow> world \<Rightarrow> bool" where
  "mq_same w w' \<longleftrightarrow> mq_world.more w' = mq_world.more w \<and> mq_tags w' = mq_tags w"

lemma more_fields:
  assumes "mq_world.more w' = mq_world.more w"
  shows "w_hs w' = w_hs w" "w_ctxs w' = w_ctxs w" "w_brk w' = w_brk w" "w_total w' = w_total w"
    "w_REMOTE w' = w_REMOTE w" "w_mem w' = w_mem w" "w_HARBOR w' = w_HARBOR w" "w_modules w' = w_modules w"
    "w_logger w' = w_logger w" "w_timer w' = w_timer w" "w_files w' = w_files w" "w_env w' = w_env w"
    "w_monitor_exit w' = w_monitor_exit w" "w_handle_key w' = w_handle_key w" "w_node_init w' = w_node_init w"
  using assms by (cases w; cases w'; simp)+

lemma mq_same_refl [simp]: "mq_same w w"
  and mq_same_trans: "mq_same w w' \<Longrightarrow> mq_same w' w'' \<Longrightarrow> mq_same w w''"
  by (simp_all add: mq_same_def)

lemma mq_same_set_mq:
  "mqs w p = Some q \<Longrightarrow> mq_handle q' = mq_handle q \<Longrightarrow> mq_release q' = mq_release q \<Longrightarrow>
   mq_same w (set_mq w p q')"
  by (auto simp: mq_same_def set_mq_def mq_tags_def fun_eq_iff)

lemma mq_same_globalmq_push: "wlp (skynet_globalmq_push w p) (mq_same w)"
  unfolding skynet_globalmq_push_def
  by (intro wlp_intro wlp_any) (auto simp: mq_same_def set_mq_def mq_tags_def fun_eq_iff)

lemma mq_same_globalmq_pop: "wlp (skynet_globalmq_pop w) (\<lambda>(r, w'). mq_same w w')"
  unfolding skynet_globalmq_pop_def
  by (intro wlp_intro wlp_any) (auto simp: mq_same_def set_mq_def mq_tags_def fun_eq_iff)

lemma ring_push_tags: "wlp (mq_ring_push q m) (\<lambda>q'. mq_handle q' = mq_handle q \<and> mq_release q' = mq_release q)"
  unfolding mq_ring_push_def expand_queue_def
  by (intro wlp_intro wlp_any) auto

lemma overload_loop_tags:
  assumes "overload_loop len q = Some q'"
  shows "mq_handle q' = mq_handle q \<and> mq_release q' = mq_release q"
proof (rule overload_loop.raw_induct [where P = "\<lambda>len q q'. mq_handle q' = mq_handle q \<and>
    mq_release q' = mq_release q", OF _ assms])
  fix rec len q q'
  assume IH: "\<And>len q q'. rec len q = Some q' \<Longrightarrow> mq_handle q' = mq_handle q \<and> mq_release q' = mq_release q"
    and eq: "(if mq_overload_threshold q < len
       then do { th \<leftarrow> c_int (mq_overload_threshold q * 2);
                 rec len (q\<lparr>mq_overload := len, mq_overload_threshold := th\<rparr>) }
       else Some q) = Some q'"
  show "mq_handle q' = mq_handle q \<and> mq_release q' = mq_release q"
  proof (cases "mq_overload_threshold q < len")
    case True
    with eq obtain th where
      "rec len (q\<lparr>mq_overload := len, mq_overload_threshold := th\<rparr>) = Some q'"
      by (auto simp: bind_eq_Some_conv)
    from IH [OF this] show ?thesis by simp
  next
    case False
    with eq show ?thesis by simp
  qed
qed

lemma ring_pop_tags:
  "wlp (mq_ring_pop q) (\<lambda>(r, q'). mq_handle q' = mq_handle q \<and> mq_release q' = mq_release q)"
  unfolding mq_ring_pop_def
  by (intro wlp_intro wlp_any) (auto dest: overload_loop_tags)

lemma mq_same_push: "wlp (skynet_mq_push w p m) (mq_same w)"
proof (rule wlp_any)
  fix w'
  assume *: "skynet_mq_push w p m = Some w'"
  then obtain q q' where q: "mqs w p = Some q" "mq_ring_push q m = Some q'"
    by (auto simp: skynet_mq_push_def bind_eq_Some_conv)
  note tags = wlpD [OF ring_push_tags q(2)]
  show "mq_same w w'"
  proof (cases "mq_in_global q' = 0")
    case True
    with * q have push: "skynet_globalmq_push (set_mq w p (q'\<lparr>mq_in_global := MQ_IN_GLOBAL\<rparr>)) p = Some w'"
      by (simp add: skynet_mq_push_def)
    from tags q(1) have "mq_same w (set_mq w p (q'\<lparr>mq_in_global := MQ_IN_GLOBAL\<rparr>))"
      by (intro mq_same_set_mq) auto
    from mq_same_trans [OF this wlpD [OF mq_same_globalmq_push push]] show ?thesis .
  next
    case False
    with * q tags show ?thesis by (auto simp: skynet_mq_push_def intro: mq_same_set_mq)
  qed
qed

lemma mq_same_pop: "wlp (skynet_mq_pop w p) (\<lambda>(r, w'). mq_same w w')"
proof (rule wlp_any)
  fix a
  assume "skynet_mq_pop w p = Some a"
  then obtain q r q' where q: "mqs w p = Some q" "mq_ring_pop q = Some (r, q')" "a = (r, set_mq w p q')"
    by (auto simp: skynet_mq_pop_def bind_eq_Some_conv)
  from wlpD [OF ring_pop_tags q(2)] q show "case a of (r, w') \<Rightarrow> mq_same w w'"
    by (auto intro: mq_same_set_mq)
qed

subsection \<open>The invariant\<close>

text \<open>
  \<open>G c\<close> is the number of references to the context \<open>c\<close> that threads hold, \<open>H\<close> the set of
  queues that threads hold, \<open>D\<close> the set of contexts that are being deleted.
\<close>

definition ctx_refs :: "world \<Rightarrow> (ctx_id \<Rightarrow> nat) \<Rightarrow> ctx_id \<Rightarrow> int" where
  "ctx_refs w G c = (if Some c \<in> set (hs_slot (w_hs w)) then 1 else 0) +
     (if w_REMOTE w = Some c then 1 else 0) + int (G c)"

definition owns_queue :: "world \<Rightarrow> skynet_context \<Rightarrow> bool" where
  "owns_queue w x \<longleftrightarrow> (\<exists>p. ctx_queue x = Some p \<and> mq_tags w p = Some (ctx_handle x, 0))"

definition node_inv :: "world \<Rightarrow> (ctx_id \<Rightarrow> nat) \<Rightarrow> qid set \<Rightarrow> ctx_id set \<Rightarrow> bool" where
  "node_inv w G H D \<longleftrightarrow>
     (\<exists>ps. sched_inv_at ps (w, H)) \<and>
     slots_wf (w_hof w) (w_hs w) \<and> names_wf (w_hs w) \<and>
     (\<forall>c. Some c \<in> set (hs_slot (w_hs w)) \<or> w_REMOTE w = Some c \<or> 0 < G c \<or> c \<in> D \<longrightarrow>
        w_ctxs w c \<noteq> None) \<and>
     (\<forall>c x. w_ctxs w c = Some x \<longrightarrow>
        c < w_brk w \<and> ctx_ref x = ctx_refs w G c \<and> (c \<in> D \<longleftrightarrow> ctx_refs w G c = 0) \<and> owns_queue w x) \<and>
     (\<forall>c d x y. w_ctxs w c = Some x \<longrightarrow> w_ctxs w d = Some y \<longrightarrow> ctx_queue x = ctx_queue y \<longrightarrow> c = d) \<and>
     (\<forall>p t. mq_tags w p = Some t \<longrightarrow> p < w_brk w \<and>
        (snd t = 0 \<longrightarrow> (\<exists>c x. w_ctxs w c = Some x \<and> ctx_queue x = Some p))) \<and>
     w_total w = int (card (dom (w_ctxs w))) - (if w_REMOTE w = None then 0 else 1)"

text \<open>What no operation undoes: addresses are not reused, a context keeps its handle and queue, and
  a new context has a new queue.\<close>

definition evolves :: "world \<Rightarrow> world \<Rightarrow> bool" where
  "evolves w w' \<longleftrightarrow> w_brk w \<le> w_brk w' \<and>
     (\<forall>c. c < w_brk w \<longrightarrow> w_ctxs w c = None \<longrightarrow> w_ctxs w' c = None) \<and>
     (\<forall>c x. w_ctxs w c = Some x \<longrightarrow> c < w_brk w \<and>
        (\<forall>x'. w_ctxs w' c = Some x' \<longrightarrow> ctx_queue x' = ctx_queue x \<and> ctx_handle x' = ctx_handle x)) \<and>
     (\<forall>c x'. w_ctxs w c = None \<longrightarrow> w_ctxs w' c = Some x' \<longrightarrow> (\<exists>p. ctx_queue x' = Some p \<and> w_brk w \<le> p))"

lemma evolvesD:
  assumes "evolves w w'"
  shows "w_brk w \<le> w_brk w'" "c < w_brk w \<Longrightarrow> w_ctxs w c = None \<Longrightarrow> w_ctxs w' c = None"
    "w_ctxs w c = Some x \<Longrightarrow> c < w_brk w"
    "w_ctxs w c = Some x \<Longrightarrow> w_ctxs w' c = Some x' \<Longrightarrow> ctx_queue x' = ctx_queue x \<and> ctx_handle x' = ctx_handle x"
    "w_ctxs w c = None \<Longrightarrow> w_ctxs w' c = Some x' \<Longrightarrow> \<exists>p. ctx_queue x' = Some p \<and> w_brk w \<le> p"
  using assms unfolding evolves_def by blast+

lemma evolvesI:
  assumes "w_brk w \<le> w_brk w'" "\<And>c. c < w_brk w \<Longrightarrow> w_ctxs w c = None \<Longrightarrow> w_ctxs w' c = None"
    "\<And>c x. w_ctxs w c = Some x \<Longrightarrow> c < w_brk w"
    "\<And>c x x'. w_ctxs w c = Some x \<Longrightarrow> w_ctxs w' c = Some x' \<Longrightarrow>
       ctx_queue x' = ctx_queue x \<and> ctx_handle x' = ctx_handle x"
    "\<And>c x'. w_ctxs w c = None \<Longrightarrow> w_ctxs w' c = Some x' \<Longrightarrow> \<exists>p. ctx_queue x' = Some p \<and> w_brk w \<le> p"
  shows "evolves w w'"
  unfolding evolves_def using assms by blast

lemma evolves_trans:
  assumes a: "evolves w w'" and b: "evolves w' w''"
  shows "evolves w w''"
proof (rule evolvesI)
  note le = evolvesD(1) [OF a]
  show "w_brk w \<le> w_brk w''" using le evolvesD(1) [OF b] by simp
  show "w_ctxs w'' c = None" if "c < w_brk w" "w_ctxs w c = None" for c
    using evolvesD(2) [OF b, of c] evolvesD(2) [OF a that] that(1) le by simp
  show "c < w_brk w" if "w_ctxs w c = Some x" for c x using evolvesD(3) [OF a that] .
  show "ctx_queue x' = ctx_queue x \<and> ctx_handle x' = ctx_handle x"
    if x: "w_ctxs w c = Some x" "w_ctxs w'' c = Some x'" for c x x'
  proof (cases "w_ctxs w' c")
    case None
    with evolvesD(2) [OF b, of c] evolvesD(3) [OF a x(1)] le x(2) show ?thesis by simp
  next
    case (Some y)
    with evolvesD(4) [OF a x(1) Some] evolvesD(4) [OF b Some x(2)] show ?thesis by simp
  qed
  show "\<exists>p. ctx_queue x' = Some p \<and> w_brk w \<le> p" if x: "w_ctxs w c = None" "w_ctxs w'' c = Some x'" for c x'
  proof (cases "w_ctxs w' c")
    case None
    with evolvesD(5) [OF b None x(2)] le show ?thesis by auto
  next
    case (Some y)
    with evolvesD(5) [OF a x(1) Some] evolvesD(4) [OF b Some x(2)] show ?thesis by auto
  qed
qed

lemma evolves_cong:
  assumes "evolves w0 w" "w_ctxs w' = w_ctxs w" "w_brk w \<le> w_brk w'"
  shows "evolves w0 w'"
proof -
  from assms(1) have "w_brk w0 \<le> w_brk w" unfolding evolves_def by blast
  from order_trans [OF this assms(3)] have "w_brk w0 \<le> w_brk w'" .
  with assms(1) show ?thesis unfolding evolves_def assms(2) by (elim conjE) (intro conjI)
qed

lemma node_invD:
  assumes "node_inv w G H D"
  shows "slots_wf (w_hof w) (w_hs w)" "names_wf (w_hs w)" "\<exists>ps. sched_inv_at ps (w, H)"
    "Some c \<in> set (hs_slot (w_hs w)) \<or> w_REMOTE w = Some c \<or> 0 < G c \<or> c \<in> D \<Longrightarrow> w_ctxs w c \<noteq> None"
    "w_ctxs w c = Some x \<Longrightarrow> c < w_brk w"
    "w_ctxs w c = Some x \<Longrightarrow> ctx_ref x = ctx_refs w G c"
    "w_ctxs w c = Some x \<Longrightarrow> c \<in> D \<longleftrightarrow> ctx_refs w G c = 0"
    "w_ctxs w c = Some x \<Longrightarrow> owns_queue w x"
    "w_ctxs w c = Some x \<Longrightarrow> w_ctxs w d = Some y \<Longrightarrow> ctx_queue x = ctx_queue y \<Longrightarrow> c = d"
    "mq_tags w p = Some t \<Longrightarrow> p < w_brk w"
    "mq_tags w p = Some t \<Longrightarrow> snd t = 0 \<Longrightarrow> \<exists>c x. w_ctxs w c = Some x \<and> ctx_queue x = Some p"
    "w_total w = int (card (dom (w_ctxs w))) - (if w_REMOTE w = None then 0 else 1)"
  using assms unfolding node_inv_def by blast+

text \<open>A state of the node, seen from an earlier world \<open>w0\<close>.\<close>

definition node_ok :: "world \<Rightarrow> (ctx_id \<Rightarrow> nat) \<Rightarrow> qid set \<Rightarrow> ctx_id set \<Rightarrow> world \<Rightarrow> bool" where
  "node_ok w0 G H D w \<longleftrightarrow> node_inv w G H D \<and> evolves w0 w"

lemma evolves_refl: "node_inv w G H D \<Longrightarrow> evolves w w"
  using node_invD(5) unfolding evolves_def by auto

lemma node_ok_refl: "node_inv w G H D \<Longrightarrow> node_ok w G H D w"
  by (simp add: node_ok_def evolves_refl)

lemma node_ok_step:
  assumes "node_ok w0 G H D w" "node_ok w G' H' D' w'"
  shows "node_ok w0 G' H' D' w'"
  using assms evolves_trans unfolding node_ok_def by blast

text \<open>Only these fields matter.\<close>

lemma node_invI:
  assumes "sched_inv_at ps (w, H)" "slots_wf (w_hof w) (w_hs w)" "names_wf (w_hs w)"
    "\<And>c. Some c \<in> set (hs_slot (w_hs w)) \<or> w_REMOTE w = Some c \<or> 0 < G c \<or> c \<in> D \<Longrightarrow> w_ctxs w c \<noteq> None"
    "\<And>c x. w_ctxs w c = Some x \<Longrightarrow>
       c < w_brk w \<and> ctx_ref x = ctx_refs w G c \<and> (c \<in> D \<longleftrightarrow> ctx_refs w G c = 0) \<and> owns_queue w x"
    "\<And>c d x y. w_ctxs w c = Some x \<Longrightarrow> w_ctxs w d = Some y \<Longrightarrow> ctx_queue x = ctx_queue y \<Longrightarrow> c = d"
    "\<And>p t. mq_tags w p = Some t \<Longrightarrow> p < w_brk w \<and>
       (snd t = 0 \<longrightarrow> (\<exists>c x. w_ctxs w c = Some x \<and> ctx_queue x = Some p))"
    "w_total w = int (card (dom (w_ctxs w))) - (if w_REMOTE w = None then 0 else 1)"
  shows "node_inv w G H D"
  unfolding node_inv_def using assms by blast

text \<open>Two worlds that agree outside the queues, and in the tags of the queues.\<close>

lemma node_inv_same:
  assumes inv: "node_inv w G H D" and sched: "sched_inv_at ps (w', H')" and tags: "mq_tags w' = mq_tags w"
    and eqs: "w_hs w' = w_hs w" "w_ctxs w' = w_ctxs w" "w_brk w \<le> w_brk w'" "w_total w' = w_total w"
      "w_REMOTE w' = w_REMOTE w"
  shows "node_inv w' G H' D"
proof (rule node_invI [OF sched])
  have hof: "w_hof w' = w_hof w" using eqs by (simp add: fun_eq_iff w_hof_def)
  show "slots_wf (w_hof w') (w_hs w')" "names_wf (w_hs w')" using node_invD(1,2) [OF inv] by (simp_all add: hof eqs)
  have refs: "ctx_refs w' G c = ctx_refs w G c" for c by (simp add: ctx_refs_def eqs)
  fix c assume "Some c \<in> set (hs_slot (w_hs w')) \<or> w_REMOTE w' = Some c \<or> 0 < G c \<or> c \<in> D"
  then show "w_ctxs w' c \<noteq> None" unfolding eqs by (rule node_invD(4) [OF inv])
next
  fix c x assume "w_ctxs w' c = Some x"
  then have x: "w_ctxs w c = Some x" by (simp add: eqs)
  have "ctx_refs w' G c = ctx_refs w G c" by (simp add: ctx_refs_def eqs)
  with node_invD(5-8) [OF inv x] eqs(3) show "c < w_brk w' \<and> ctx_ref x = ctx_refs w' G c \<and>
      (c \<in> D \<longleftrightarrow> ctx_refs w' G c = 0) \<and> owns_queue w' x"
    by (simp add: owns_queue_def tags)
next
  fix c d x y assume "w_ctxs w' c = Some x" "w_ctxs w' d = Some y" "ctx_queue x = ctx_queue y"
  with node_invD(9) [OF inv] show "c = d" by (simp add: eqs)
next
  fix p t assume "mq_tags w' p = Some t"
  with node_invD(10,11) [OF inv, of p t] order_less_le_trans [OF _ eqs(3)]
  show "p < w_brk w' \<and> (snd t = 0 \<longrightarrow> (\<exists>c x. w_ctxs w' c = Some x \<and> ctx_queue x = Some p))"
    by (auto simp: tags eqs)
next
  show "w_total w' = int (card (dom (w_ctxs w'))) - (if w_REMOTE w' = None then 0 else 1)"
    using node_invD(12) [OF inv] by (simp add: eqs)
qed

lemma node_inv_cong:
  assumes "mqs w' = mqs w" "gq_head w' = gq_head w" "gq_tail w' = gq_tail w" "w_hs w' = w_hs w"
    "w_ctxs w' = w_ctxs w" "w_brk w \<le> w_brk w'" "w_total w' = w_total w" "w_REMOTE w' = w_REMOTE w"
    "node_inv w G H D"
  shows "node_inv w' G H D"
proof -
  from node_invD(3) [OF assms(9)] obtain ps where "sched_inv_at ps (w, H)" by blast
  then have "sched_inv_at ps (w', H)" using assms by (simp add: sched_inv_at_def gq_abs_def)
  moreover have "mq_tags w' = mq_tags w" using assms by (simp add: fun_eq_iff mq_tags_def)
  ultimately show ?thesis using assms node_inv_same by blast
qed

lemma node_ok_cong:
  assumes "node_ok w0 G H D w" "mqs w' = mqs w" "gq_head w' = gq_head w" "gq_tail w' = gq_tail w"
    "w_hs w' = w_hs w" "w_ctxs w' = w_ctxs w" "w_brk w \<le> w_brk w'" "w_total w' = w_total w"
    "w_REMOTE w' = w_REMOTE w"
  shows "node_ok w0 G H D w'"
proof -
  from assms(1) have "evolves w0 w" by (simp add: node_ok_def)
  from evolves_cong [OF this assms(6,7)] have "evolves w0 w'" .
  moreover have "node_inv w' G H D"
    using assms(1) unfolding node_ok_def by (intro node_inv_cong [OF assms(2-9)]) simp
  ultimately show ?thesis by (simp add: node_ok_def)
qed

text \<open>The queue operations.\<close>

lemma mq_same_node_ok:
  assumes "node_ok w0 G H D w" "mq_same w w'" "sched_inv_at ps (w', H')"
  shows "node_ok w0 G H' D w'"
proof -
  from assms(2) have same: "mq_world.more w' = mq_world.more w" "mq_tags w' = mq_tags w"
    by (simp_all add: mq_same_def)
  note eqs = more_fields [OF same(1)]
  from assms(1) have inv: "node_inv w G H D" and ev: "evolves w0 w" by (simp_all add: node_ok_def)
  have "node_inv w' G H' D"
    using node_inv_same [OF inv assms(3) same(2)] eqs by simp
  moreover have "evolves w0 w'" using evolves_cong [OF ev eqs(2)] eqs(3) by simp
  ultimately show ?thesis by (simp add: node_ok_def)
qed

lemma node_ok_inv: "node_ok w0 G H D w \<Longrightarrow> node_inv w G H D"
  by (simp add: node_ok_def)

lemma node_ok_sched: "node_ok w0 G H D w \<Longrightarrow> \<exists>ps. sched_inv_at ps (w, H)"
  by (rule node_invD(3) [OF node_ok_inv])

lemma tags_Some: "mq_tags w p = Some t \<longleftrightarrow> (\<exists>q. mqs w p = Some q \<and> t = (mq_handle q, mq_release q))"
  by (auto simp: mq_tags_def)

lemma mq_push_ok:
  assumes ok: "node_ok w0 G H D w" and p: "mq_tags w p = Some (h, 0)"
  shows "wlp (skynet_mq_push w p m) (node_ok w0 G H D)"
proof (rule wlp_any)
  fix w'
  assume push: "skynet_mq_push w p m = Some w'"
  from p obtain q where q: "mqs w p = Some q" "mq_release q = 0" by (auto simp: tags_Some)
  from push q obtain q' where "mq_ring_push q m = Some q'" by (auto simp: skynet_mq_push_def bind_eq_Some_conv)
  moreover from node_ok_sched [OF ok] obtain ps where "sched_inv_at ps (w, H)" by blast
  ultimately obtain ps' where "sched_inv_at ps' (w', H)" using sched_send_any q push by fastforce
  from mq_same_node_ok [OF ok wlpD [OF mq_same_push push] this] show "node_ok w0 G H D w'" .
qed

lemma mq_pop_ok:
  assumes ok: "node_ok w0 G H D w" and p: "p \<in> H"
  shows "wlp (skynet_mq_pop w p) (\<lambda>(r, w'). case r of
      Some m \<Rightarrow> node_ok w0 G H D w' \<and> mq_tags w' = mq_tags w
    | None \<Rightarrow> (\<forall>h. mq_tags w p = Some (h, 0) \<longrightarrow> node_ok w0 G (H - {p}) D w'))"
proof (rule wlp_any)
  fix a
  assume pop: "skynet_mq_pop w p = Some a"
  obtain r w' where a: "a = (r, w')" by (cases a)
  from node_ok_sched [OF ok] obtain ps where inv: "sched_inv_at ps (w, H)" by blast
  from wlpD [OF mq_same_pop pop] a have same: "mq_same w w'" by simp
  show "case a of (r, w') \<Rightarrow> case r of
      Some m \<Rightarrow> node_ok w0 G H D w' \<and> mq_tags w' = mq_tags w
    | None \<Rightarrow> (\<forall>h. mq_tags w p = Some (h, 0) \<longrightarrow> node_ok w0 G (H - {p}) D w')"
  proof (cases r)
    case (Some m)
    with sched_recv [OF inv p] pop a have "sched_inv_at ps (w', H)" by simp
    with mq_same_node_ok [OF ok same] a Some same show ?thesis by (auto simp: mq_same_def)
  next
    case None
    have "node_ok w0 G (H - {p}) D w'" if "mq_tags w p = Some (h, 0)" for h
      using sched_idle [OF inv p] pop a None that mq_same_node_ok [OF ok same] by (auto simp: tags_Some)
    with a None show ?thesis by auto
  qed
qed

lemma globalmq_push_ok:
  assumes ok: "node_ok w0 G H D w" and p: "p \<in> H"
  shows "wlp (skynet_globalmq_push w p) (\<lambda>w'. node_ok w0 G (H - {p}) D w' \<and> mq_same w w')"
proof (rule wlp_any)
  fix w'
  assume push: "skynet_globalmq_push w p = Some w'"
  from node_ok_sched [OF ok] obtain ps where inv: "sched_inv_at ps (w, H)" by blast
  from sched_put [OF inv p] push have "sched_inv_at (ps @ [p]) (w', H - {p})" by simp
  from mq_same_node_ok [OF ok wlpD [OF mq_same_globalmq_push push] this] wlpD [OF mq_same_globalmq_push push]
  show "node_ok w0 G (H - {p}) D w' \<and> mq_same w w'" by simp
qed

lemma globalmq_pop_ok:
  assumes ok: "node_ok w0 G H D w"
  shows "wlp (skynet_globalmq_pop w)
    (\<lambda>(r, w'). node_ok w0 G (case r of Some p \<Rightarrow> insert p H | None \<Rightarrow> H) D w' \<and> mq_same w w' \<and>
       (\<forall>p. r = Some p \<longrightarrow> p \<notin> H))"
proof (rule wlp_any)
  fix a
  assume pop: "skynet_globalmq_pop w = Some a"
  obtain r w' where a: "a = (r, w')" by (cases a)
  from node_ok_sched [OF ok] obtain ps where inv: "sched_inv_at ps (w, H)" by blast
  from wlpD [OF mq_same_globalmq_pop pop] a have same: "mq_same w w'" by simp
  show "case a of (r, w') \<Rightarrow> node_ok w0 G (case r of Some p \<Rightarrow> insert p H | None \<Rightarrow> H) D w' \<and> mq_same w w' \<and>
       (\<forall>p. r = Some p \<longrightarrow> p \<notin> H)"
  proof (cases r)
    case (Some p)
    with sched_take [OF inv] pop a obtain ps' where ps': "ps = p # ps'" "sched_inv_at ps' (w', insert p H)" by blast
    moreover from ps' sched_inv_atD(2) [OF inv] have "p \<notin> H" by auto
    ultimately show ?thesis using mq_same_node_ok [OF ok same] a Some same by simp
  next
    case None
    then have "w' = w" using pop a by (auto simp: skynet_globalmq_pop_def bind_eq_Some_conv split: option.splits)
    with a None ok same show ?thesis by simp
  qed
qed

text \<open>Updates of a context.\<close>

lemma set_ctx_fields [simp]:
  "w_hs (set_ctx w c y) = w_hs w" "w_brk (set_ctx w c y) = w_brk w" "w_REMOTE (set_ctx w c y) = w_REMOTE w"
  "w_total (set_ctx w c y) = w_total w" "mq_tags (set_ctx w c y) = mq_tags w"
  "w_ctxs (set_ctx w c y) = (w_ctxs w)(c \<mapsto> y)" "w_mem (set_ctx w c y) = w_mem w"
  "ctx_refs (set_ctx w c y) G = ctx_refs w G" "owns_queue (set_ctx w c y) = owns_queue w"
  by (simp_all add: set_ctx_def mq_tags_def ctx_refs_def owns_queue_def fun_eq_iff)

lemma evolves_set_ctx:
  assumes ev: "evolves w0 w" and x: "w_ctxs w c = Some x"
    and y: "ctx_queue y = ctx_queue x" "ctx_handle y = ctx_handle x"
  shows "evolves w0 (set_ctx w c y)"
proof (rule evolvesI)
  show "w_brk w0 \<le> w_brk (set_ctx w c y)" using evolvesD(1) [OF ev] by simp
  show "w_ctxs (set_ctx w c y) d = None" if "d < w_brk w0" "w_ctxs w0 d = None" for d
    using evolvesD(2) [OF ev that] x by auto
  show "d < w_brk w0" if "w_ctxs w0 d = Some z" for d z using evolvesD(3) [OF ev that] .
  show "ctx_queue z' = ctx_queue z \<and> ctx_handle z' = ctx_handle z"
    if "w_ctxs w0 d = Some z" "w_ctxs (set_ctx w c y) d = Some z'" for d z z'
    using evolvesD(4) [OF ev that(1)] that(2) x y by (cases "d = c") auto
  show "\<exists>p. ctx_queue z' = Some p \<and> w_brk w0 \<le> p"
    if "w_ctxs w0 d = None" "w_ctxs (set_ctx w c y) d = Some z'" for d z'
    using evolvesD(5) [OF ev that(1)] that(2) x y by (cases "d = c") auto
qed

lemma set_ctx_ok:
  assumes ok: "node_ok w0 G H D w" and x: "w_ctxs w c = Some x"
    and y: "ctx_queue y = ctx_queue x" "ctx_handle y = ctx_handle x" "ctx_ref y = ctx_refs w G' c"
    and G': "\<And>d. d \<noteq> c \<Longrightarrow> G' d = G d" "\<And>d. d \<noteq> c \<Longrightarrow> d \<in> D' \<longleftrightarrow> d \<in> D"
    and D': "c \<in> D' \<longleftrightarrow> ctx_refs w G' c = 0"
  shows "node_ok w0 G' H D' (set_ctx w c y)"
proof -
  let ?w = "set_ctx w c y"
  from ok have inv: "node_inv w G H D" and ev: "evolves w0 w" by (simp_all add: node_ok_def)
  have refs: "ctx_refs w G' d = ctx_refs w G d" if "d \<noteq> c" for d using that by (simp add: ctx_refs_def G')
  have own: "owns_queue w y" using node_invD(8) [OF inv x] y by (simp add: owns_queue_def)
  have hof: "w_hof ?w = w_hof w" using x y by (simp add: fun_eq_iff w_hof_def)
  from node_invD(3) [OF inv] obtain ps where "sched_inv_at ps (w, H)" by blast
  then have "sched_inv_at ps (?w, H)" by (simp add: sched_inv_at_def gq_abs_def set_ctx_def)
  then have "node_inv ?w G' H D'"
  proof (rule node_invI)
    show "slots_wf (w_hof ?w) (w_hs ?w)" "names_wf (w_hs ?w)" using node_invD(1,2) [OF inv] by (simp_all add: hof)
    show "w_ctxs ?w d \<noteq> None" if "Some d \<in> set (hs_slot (w_hs ?w)) \<or> w_REMOTE ?w = Some d \<or> 0 < G' d \<or> d \<in> D'"
      for d using node_invD(4) [OF inv, of d] that G' by (cases "d = c") auto
    show "d < w_brk ?w \<and> ctx_ref z = ctx_refs ?w G' d \<and> (d \<in> D' \<longleftrightarrow> ctx_refs ?w G' d = 0) \<and> owns_queue ?w z"
      if "w_ctxs ?w d = Some z" for d z
      using that node_invD(5-8) [OF inv, of d z] node_invD(5) [OF inv x] y(3) D' own refs [of d] G'(2) [of d]
      by (cases "d = c") auto
    show "d = e" if "w_ctxs ?w d = Some u" "w_ctxs ?w e = Some v" "ctx_queue u = ctx_queue v" for d e u v
      using that node_invD(9) [OF inv] x y(1) by (auto split: if_splits)
    show "p < w_brk ?w \<and> (snd t = 0 \<longrightarrow> (\<exists>d z. w_ctxs ?w d = Some z \<and> ctx_queue z = Some p))"
      if "mq_tags ?w p = Some t" for p t
    proof -
      have t: "mq_tags w p = Some t" using that by simp
      from node_invD(11) [OF inv t] x y(1)
      have "snd t = 0 \<longrightarrow> (\<exists>d z. w_ctxs ?w d = Some z \<and> ctx_queue z = Some p)"
        by (metis fun_upd_apply option.inject set_ctx_fields(6))
      with node_invD(10) [OF inv t] show ?thesis by simp
    qed
    have "dom (w_ctxs ?w) = dom (w_ctxs w)" using x by auto
    then show "w_total ?w = int (card (dom (w_ctxs ?w))) - (if w_REMOTE ?w = None then 0 else 1)"
      using node_invD(12) [OF inv] by simp
  qed
  moreover have "evolves w0 ?w" by (rule evolves_set_ctx [OF ev x y(1,2)])
  ultimately show ?thesis by (simp add: node_ok_def)
qed

lemma upd_ctx_ok:
  assumes ok: "node_ok w0 G H D w"
    and f: "\<And>x. ctx_queue (f x) = ctx_queue x" "\<And>x. ctx_handle (f x) = ctx_handle x" "\<And>x. ctx_ref (f x) = ctx_ref x"
  shows "wlp (upd_ctx f w c) (node_ok w0 G H D)"
proof (rule wlp_any)
  fix w'
  assume "upd_ctx f w c = Some w'"
  then obtain x where x: "w_ctxs w c = Some x" "w' = set_ctx w c (f x)" by (auto simp: upd_ctx_def bind_eq_Some_conv)
  with node_invD(6,7) [OF node_ok_inv [OF ok] x(1)] f show "node_ok w0 G H D w'"
    by (auto intro!: set_ctx_ok [OF ok x(1)])
qed

subsection \<open>References\<close>

lemma refs_nonneg: "0 \<le> ctx_refs w G c"
  by (simp add: ctx_refs_def)

definition held :: "(ctx_id \<Rightarrow> nat) \<Rightarrow> ctx_id \<Rightarrow> ctx_id \<Rightarrow> nat" where
  "held G c = G(c := G c + 1)"

lemma refs_held: "ctx_refs w (held G c) d = ctx_refs w G d + (if d = c then 1 else 0)"
  by (simp add: ctx_refs_def held_def)

lemma held_other: "d \<noteq> c \<Longrightarrow> held G c d = G d"
  by (simp add: held_def)

lemma context_grab_ok:
  assumes ok: "node_ok w0 G H D w" and c: "c \<notin> D"
  shows "wlp (skynet_context_grab w c) (\<lambda>w'. node_ok w0 (held G c) H D w' \<and> (\<exists>x. w_ctxs w' c = Some x) \<and>
    mqs w' = mqs w \<and> w_mem w' = w_mem w)"
proof (rule wlp_any)
  fix w'
  assume "skynet_context_grab w c = Some w'"
  then obtain x where x: "w_ctxs w c = Some x" "w' = set_ctx w c (x\<lparr>ctx_ref := ctx_ref x + 1\<rparr>)"
    by (auto simp: skynet_context_grab_def upd_ctx_def bind_eq_Some_conv)
  have "node_ok w0 (held G c) H D w'"
    unfolding x(2) using node_invD(6,7) [OF node_ok_inv [OF ok] x(1)] refs_nonneg [of w G c] c
    by (intro set_ctx_ok [OF ok x(1)]) (auto simp: refs_held held_other)
  then show "node_ok w0 (held G c) H D w' \<and> (\<exists>x. w_ctxs w' c = Some x) \<and> mqs w' = mqs w \<and> w_mem w' = w_mem w"
    using x(2) by (simp add: set_ctx_def)
qed

text \<open>A registered context is alive and not being deleted.\<close>

lemma live_ctx:
  assumes inv: "node_inv w G H D" and live: "handle_live (w_hof w) (w_hs w) h = Some c"
  shows "Some c \<in> set (hs_slot (w_hs w))" "c \<notin> D" "\<exists>x. w_ctxs w c = Some x \<and> ctx_handle x = h"
proof -
  from live live_iff [OF node_invD(1) [OF inv]] show reg: "Some c \<in> set (hs_slot (w_hs w))" by simp
  with node_invD(4) [OF inv, of c] obtain x where x: "w_ctxs w c = Some x" by auto
  have "0 < ctx_refs w G c" using reg by (simp add: ctx_refs_def)
  with node_invD(7) [OF inv x] show "c \<notin> D" by simp
  from live live_iff [OF node_invD(1) [OF inv]] have "w_hof w c = h" by simp
  with x show "\<exists>x. w_ctxs w c = Some x \<and> ctx_handle x = h" by (simp add: w_hof_def)
qed

lemma handle_grab_ok:
  assumes ok: "node_ok w0 G H D w"
  shows "wlp (handle_grab w h) (\<lambda>(r, w'). r = handle_live (w_hof w) (w_hs w) h \<and> mqs w' = mqs w \<and> w_mem w' = w_mem w \<and>
    (case r of None \<Rightarrow> w' = w
     | Some c \<Rightarrow> node_ok w0 (held G c) H D w' \<and> (\<exists>x. w_ctxs w' c = Some x)))"
proof -
  note inv = node_ok_inv [OF ok]
  have eq: "skynet_handle_grab (w_hof w) (w_hs w) h = Some (handle_live (w_hof w) (w_hs w) h)"
    by (rule grab_live [OF node_invD(1) [OF inv]])
  show ?thesis
  proof (cases "handle_live (w_hof w) (w_hs w) h")
    case None
    with eq show ?thesis by (simp add: handle_grab_def wlp_def)
  next
    case (Some c)
    with eq have "handle_grab w h = skynet_context_grab w c \<bind> (\<lambda>w'. Some (Some c, w'))"
      by (simp add: handle_grab_def)
    then show ?thesis
      unfolding Some using context_grab_ok [OF ok live_ctx(2) [OF inv Some]]
      by (auto intro!: wlp_intro elim!: wlp_mono)
  qed
qed

text \<open>What is assumed of the functions of service modules: they act on the node through the
  operations of the engine, so that they keep the invariant, whatever references and
  queues the calling thread holds.\<close>

definition services_ok :: "ext \<Rightarrow> bool" where
  "services_ok X \<longleftrightarrow> (\<forall>w G H D. node_inv w G H D \<longrightarrow>
     (\<forall>f. wlp (x_create X f w) (\<lambda>(r, w'). node_ok w G H D w')) \<and>
     (\<forall>f i c s. wlp (x_init X f i c s w) (\<lambda>(r, w'). node_ok w G H D w')) \<and>
     (\<forall>f i. wlp (x_release X f i w) (node_ok w G H D)) \<and>
     (\<forall>f i sig. wlp (x_signal X f i sig w) (node_ok w G H D)) \<and>
     (\<forall>f c ud type session source data sz.
        wlp (x_cb X f c ud type session source data sz w) (\<lambda>(r, w'). node_ok w G H D w')))"

lemma node_ok_wlp:
  assumes "node_ok w0 G H D w"
  shows "wlp m (node_ok w G' H' D') \<Longrightarrow> wlp m (node_ok w0 G' H' D')"
    "wlp m' (\<lambda>(r, w'). node_ok w G' H' D' w') \<Longrightarrow> wlp m' (\<lambda>(r, w'). node_ok w0 G' H' D' w')"
  using node_ok_step [OF assms] by (auto simp: wlp_def)

lemma services_okD:
  assumes "services_ok X" "node_ok w0 G H D w"
  shows "wlp (x_create X f w) (\<lambda>(r, w'). node_ok w0 G H D w')"
    "wlp (x_init X f i c s w) (\<lambda>(r, w'). node_ok w0 G H D w')"
    "wlp (x_release X f i w) (node_ok w0 G H D)"
    "wlp (x_signal X f i sig w) (node_ok w0 G H D)"
    "wlp (x_cb X f c ud type session source data sz w) (\<lambda>(r, w'). node_ok w0 G H D w')"
proof -
  note base = assms(1) [unfolded services_ok_def, rule_format, OF node_ok_inv [OF assms(2)]]
  note lift = node_ok_wlp [OF assms(2)]
  from base show "wlp (x_create X f w) (\<lambda>(r, w'). node_ok w0 G H D w')" by (intro lift) blast
  from base show "wlp (x_init X f i c s w) (\<lambda>(r, w'). node_ok w0 G H D w')" by (intro lift) blast
  from base show "wlp (x_release X f i w) (node_ok w0 G H D)" by (intro lift) blast
  from base show "wlp (x_signal X f i sig w) (node_ok w0 G H D)" by (intro lift) blast
  from base show "wlp (x_cb X f c ud type session source data sz w) (\<lambda>(r, w'). node_ok w0 G H D w')"
    by (intro lift) blast
qed

lemma mark_release_spec:
  assumes inv: "sched_inv_at ps (w, H)" and q: "mqs w p = Some q" "mq_release q = 0"
    and mark: "skynet_mq_mark_release w p = Some w'"
  shows "\<exists>ps'. sched_inv_at ps' (w', H)" "mq_world.more w' = mq_world.more w"
    "mq_tags w' = (mq_tags w)(p \<mapsto> (mq_handle q, 1))"
proof -
  show "\<exists>ps'. sched_inv_at ps' (w', H)" using sched_mark [OF inv q] mark by auto
  let ?w = "set_mq w p (q\<lparr>mq_release := 1\<rparr>)"
  have w: "mq_world.more ?w = mq_world.more w" "mq_tags ?w = (mq_tags w)(p \<mapsto> (mq_handle q, 1))"
    by (auto simp: set_mq_def mq_tags_def fun_eq_iff)
  have "mq_same ?w w'"
  proof (cases "mq_in_global q = MQ_IN_GLOBAL")
    case True
    with q mark show ?thesis by (simp add: skynet_mq_mark_release_def)
  next
    case False
    with q mark have "skynet_globalmq_push ?w p = Some w'" by (simp add: skynet_mq_mark_release_def)
    then show ?thesis by (rule wlpD [OF mq_same_globalmq_push])
  qed
  with w show "mq_world.more w' = mq_world.more w" "mq_tags w' = (mq_tags w)(p \<mapsto> (mq_handle q, 1))"
    by (simp_all add: mq_same_def)
qed

lemma slots_wf_cong:
  "slots_wf hof s \<Longrightarrow> (\<And>c. Some c \<in> set (hs_slot s) \<Longrightarrow> hof' c = hof c) \<Longrightarrow> slots_wf hof' s"
  unfolding slots_wf_def by (metis nth_mem)

lemma ctxs_finite: "node_inv w G H D \<Longrightarrow> finite (dom (w_ctxs w))"
  by (rule finite_subset [of _ "{..<w_brk w}"]) (auto dest: node_invD(5))

text \<open>The end of \<open>delete_context\<close>: the context is removed and its queue marked.\<close>

lemma remove_ctx_ok:
  assumes ok: "node_ok w0 G H D w" and c: "c \<in> D" and x: "w_ctxs w c = Some x" "ctx_queue x = Some p"
    and w': "\<exists>ps. sched_inv_at ps (w', H)" "mq_world.more w' = mq_world.more w"
      "mq_tags w' = (mq_tags w)(p \<mapsto> (h, 1))"
  shows "node_ok w0 G H (D - {c}) (w'\<lparr>w_ctxs := (w_ctxs w')(c := None), w_total := w_total w' - 1\<rparr>)"
proof -
  let ?w = "w'\<lparr>w_ctxs := (w_ctxs w')(c := None), w_total := w_total w' - 1\<rparr>"
  from ok have inv: "node_inv w G H D" and ev: "evolves w0 w" by (simp_all add: node_ok_def)
  note eqs = more_fields [OF w'(2)]
  have refs0: "ctx_refs w G c = 0" using node_invD(7) [OF inv x(1)] c by simp
  then have free: "Some c \<notin> set (hs_slot (w_hs w))" "w_REMOTE w \<noteq> Some c" "G c = 0"
    by (auto simp: ctx_refs_def split: if_splits)
  have tags: "mq_tags ?w = (mq_tags w)(p \<mapsto> (h, 1))" using w'(3) by (simp add: mq_tags_def fun_eq_iff)
  have other: "ctx_queue y \<noteq> Some p" if "w_ctxs w d = Some y" "d \<noteq> c" for d y
    using node_invD(9) [OF inv that(1) x(1)] that(2) x(2) by auto
  from w'(1) obtain ps where "sched_inv_at ps (w', H)" by blast
  then have "sched_inv_at ps (?w, H)" by (simp add: sched_inv_at_def gq_abs_def)
  then have "node_inv ?w G H (D - {c})"
  proof (rule node_invI)
    show "slots_wf (w_hof ?w) (w_hs ?w)"
    proof -
      have "slots_wf (w_hof ?w) (w_hs w)"
        using node_invD(1) [OF inv] by (rule slots_wf_cong) (use free in \<open>auto simp: w_hof_def eqs\<close>)
      then show ?thesis by (simp add: eqs)
    qed
    show "names_wf (w_hs ?w)" using node_invD(2) [OF inv] by (simp add: eqs)
    show "w_ctxs ?w d \<noteq> None"
      if "Some d \<in> set (hs_slot (w_hs ?w)) \<or> w_REMOTE ?w = Some d \<or> 0 < G d \<or> d \<in> D - {c}" for d
      using node_invD(4) [OF inv, of d] that free by (auto simp: eqs)
    show "d < w_brk ?w \<and> ctx_ref y = ctx_refs ?w G d \<and> (d \<in> D - {c} \<longleftrightarrow> ctx_refs ?w G d = 0) \<and> owns_queue ?w y"
      if "w_ctxs ?w d = Some y" for d y
    proof -
      from that have y: "w_ctxs w d = Some y" "d \<noteq> c" by (auto simp: eqs split: if_splits)
      have "ctx_refs ?w G d = ctx_refs w G d" by (simp add: ctx_refs_def eqs)
      moreover have "owns_queue ?w y"
        using node_invD(8) [OF inv y(1)] other [OF y] unfolding owns_queue_def tags by auto
      ultimately show ?thesis using node_invD(5-7) [OF inv y(1)] y(2) by (simp add: eqs)
    qed
    show "d = e" if "w_ctxs ?w d = Some u" "w_ctxs ?w e = Some v" "ctx_queue u = ctx_queue v" for d e u v
      using that node_invD(9) [OF inv] by (auto simp: eqs split: if_splits)
    show "r < w_brk ?w \<and> (snd t = 0 \<longrightarrow> (\<exists>d y. w_ctxs ?w d = Some y \<and> ctx_queue y = Some r))"
      if "mq_tags ?w r = Some t" for r t
    proof (cases "r = p")
      case True
      from node_invD(8) [OF inv x(1)] x(2) obtain t' where "mq_tags w p = Some t'"
        by (auto simp: owns_queue_def)
      moreover have "t = (h, 1)" using that True unfolding tags by simp
      ultimately show ?thesis using True node_invD(10) [OF inv] by (auto simp: eqs)
    next
      case False
      with that have t: "mq_tags w r = Some t" by (simp add: tags)
      have "\<exists>d y. w_ctxs ?w d = Some y \<and> ctx_queue y = Some r" if "snd t = 0"
      proof -
        from node_invD(11) [OF inv t that] obtain d y where y: "w_ctxs w d = Some y" "ctx_queue y = Some r" by blast
        with x False have "d \<noteq> c" by auto
        with y show ?thesis by (auto simp: eqs)
      qed
      with node_invD(10) [OF inv t] show ?thesis by (simp add: eqs)
    qed
    have "dom (w_ctxs ?w) = dom (w_ctxs w) - {c}" by (auto simp: eqs)
    moreover have "0 < card (dom (w_ctxs w))" using x(1) ctxs_finite [OF inv] by (auto simp: card_gt_0_iff)
    moreover have "card (dom (w_ctxs w) - {c}) = card (dom (w_ctxs w)) - 1"
      using x(1) by (intro card_Diff_singleton) auto
    ultimately have "int (card (dom (w_ctxs ?w))) = int (card (dom (w_ctxs w))) - 1" by (simp add: of_nat_diff)
    then show "w_total ?w = int (card (dom (w_ctxs ?w))) - (if w_REMOTE ?w = None then 0 else 1)"
      using node_invD(12) [OF inv] by (simp add: eqs)
  qed
  moreover have "evolves w0 ?w"
  proof (rule evolvesI)
    show "w_brk w0 \<le> w_brk ?w" using evolvesD(1) [OF ev] by (simp add: eqs)
    show "w_ctxs ?w d = None" if "d < w_brk w0" "w_ctxs w0 d = None" for d
      using evolvesD(2) [OF ev that] by (simp add: eqs)
    show "d < w_brk w0" if "w_ctxs w0 d = Some z" for d z using evolvesD(3) [OF ev that] .
    show "ctx_queue z' = ctx_queue z \<and> ctx_handle z' = ctx_handle z"
      if "w_ctxs w0 d = Some z" "w_ctxs ?w d = Some z'" for d z z'
      using evolvesD(4) [OF ev that(1)] that(2) by (cases "d = c") (auto simp: eqs)
    show "\<exists>p. ctx_queue z' = Some p \<and> w_brk w0 \<le> p"
      if "w_ctxs w0 d = None" "w_ctxs ?w d = Some z'" for d z'
      using evolvesD(5) [OF ev that(1)] that(2) by (cases "d = c") (auto simp: eqs)
  qed
  ultimately show ?thesis by (simp add: node_ok_def)
qed

text \<open>Operations that touch none of the fields of the invariant.\<close>

lemma fclose_ok: "node_ok w0 G H D w \<Longrightarrow> wlp (fclose w f) (node_ok w0 G H D)"
  unfolding fclose_def by (intro wlp_intro wlp_any) (auto elim!: node_ok_cong)

lemma fprintf_ok: "node_ok w0 G H D w \<Longrightarrow> wlp (fprintf w f s) (node_ok w0 G H D)"
  unfolding fprintf_def by (intro wlp_intro wlp_any) (auto elim!: node_ok_cong)

lemma free_ok: "node_ok w0 G H D w \<Longrightarrow> wlp (skynet_free w ptr) (node_ok w0 G H D)"
  unfolding skynet_free_def by (intro wlp_intro wlp_any) (auto elim!: node_ok_cong)

lemma malloc_ok: "skynet_malloc b w = (a, w') \<Longrightarrow> node_ok w0 G H D w \<Longrightarrow> node_ok w0 G H D w'"
  by (auto simp: skynet_malloc_def elim!: node_ok_cong)

lemma instance_ok:
  assumes "services_ok X" "node_ok w0 G H D w"
  shows "wlp (skynet_module_instance_create X w md) (\<lambda>(r, w'). node_ok w0 G H D w')"
    "wlp (skynet_module_instance_init X w md i c s) (\<lambda>(r, w'). node_ok w0 G H D w')"
    "wlp (skynet_module_instance_release X w md i) (node_ok w0 G H D)"
    "wlp (skynet_module_instance_signal X w md i sig) (node_ok w0 G H D)"
  unfolding skynet_module_instance_create_def skynet_module_instance_init_def
    skynet_module_instance_release_def skynet_module_instance_signal_def
  by (auto intro!: wlp_intro intro: wlp_any services_okD [OF assms] simp: assms(2))

lemma delete_context_ok:
  assumes X: "services_ok X" and ok: "node_ok w0 G H D w" and c: "c \<in> D"
  shows "wlp (delete_context X w c) (node_ok w0 G H (D - {c}))"
proof -
  have fin: "wlp (skynet_mq_mark_release w2 p)
      (\<lambda>w. wlp (Some (w\<lparr>w_ctxs := (w_ctxs w)(c := None), w_total := w_total w - 1\<rparr>)) (node_ok w0 G H (D - {c})))"
    if ok2: "node_ok w0 G H D w2" and x: "w_ctxs w2 c = Some x" "ctx_queue x = Some p" for w2 x p
  proof (rule wlp_any)
    fix w3
    assume mark: "skynet_mq_mark_release w2 p = Some w3"
    note inv = node_ok_inv [OF ok2]
    from node_invD(8) [OF inv x(1)] x(2) obtain q where q: "mqs w2 p = Some q" "mq_release q = 0"
      by (auto simp: owns_queue_def tags_Some)
    from node_ok_sched [OF ok2] obtain ps where "sched_inv_at ps (w2, H)" by blast
    note spec = mark_release_spec [OF this q mark]
    show "wlp (Some (w3\<lparr>w_ctxs := (w_ctxs w3)(c := None), w_total := w_total w3 - 1\<rparr>)) (node_ok w0 G H (D - {c}))"
      by (rule wlp_Some, rule remove_ctx_ok [OF ok2 c x spec])
  qed
  show ?thesis
    unfolding delete_context_def
    by (rule wlp_rules wlp_mono [OF fclose_ok] wlp_mono [OF instance_ok(3) [OF X]] fin wlp_any | assumption | rule ok)+
qed

text \<open>Fields that the invariant does not mention.\<close>

lemma node_ok_frame:
  assumes "node_ok w0 G H D w"
  shows "node_ok w0 G H D (w\<lparr>w_mem := a\<rparr>)" "node_ok w0 G H D (w\<lparr>w_files := b\<rparr>)"
    "node_ok w0 G H D (w\<lparr>w_logger := d\<rparr>)" "node_ok w0 G H D (w\<lparr>w_modules := e\<rparr>)"
    "node_ok w0 G H D (w\<lparr>w_timer := t\<rparr>)" "node_ok w0 G H D (w\<lparr>w_monitor_exit := m\<rparr>)"
    "node_ok w0 G H D (w\<lparr>w_handle_key := k\<rparr>)" "node_ok w0 G H D (w\<lparr>w_env := v\<rparr>)"
    "node_ok w0 G H D (w\<lparr>w_files := f, w_brk := w_brk w + 1\<rparr>)"
  by (rule node_ok_cong [OF assms]; simp)+

text \<open>\<open>skynet_context_release\<close> gives up one reference; the last one deletes the context.\<close>

lemma context_release_spec:
  assumes X: "services_ok X" and ok: "node_ok w0 (held G c) H D w"
  shows "wlp (skynet_context_release X w c) (\<lambda>(r, w'). node_ok w0 G H D w' \<and>
    (case r of None \<Rightarrow> ctx_refs w G c = 0
     | Some d \<Rightarrow> d = c \<and> 0 < ctx_refs w G c \<and> (\<exists>x. w_ctxs w' c = Some x) \<and> mqs w' = mqs w))"
proof (rule wlp_any)
  fix a
  assume rel: "skynet_context_release X w c = Some a"
  then obtain x where x: "w_ctxs w c = Some x"
    by (auto simp: skynet_context_release_def upd_ctx_def bind_eq_Some_conv)
  note inv = node_ok_inv [OF ok]
  have ref: "ctx_ref x = ctx_refs w G c + 1" using node_invD(6) [OF inv x] by (simp add: refs_held)
  have cD: "c \<notin> D" using node_invD(7) [OF inv x] refs_nonneg [of w G c] by (simp add: refs_held)
  let ?w = "set_ctx w c (x\<lparr>ctx_ref := ctx_refs w G c\<rparr>)"
  show "case a of (r, w') \<Rightarrow> node_ok w0 G H D w' \<and>
    (case r of None \<Rightarrow> ctx_refs w G c = 0
     | Some d \<Rightarrow> d = c \<and> 0 < ctx_refs w G c \<and> (\<exists>x. w_ctxs w' c = Some x) \<and> mqs w' = mqs w)"
  proof (cases "ctx_refs w G c = 0")
    case True
    have "node_ok w0 G H (insert c D) ?w"
      using True by (intro set_ctx_ok [OF ok x]) (auto simp: held_other)
    from delete_context_ok [OF X this insertI1] have del: "wlp (delete_context X ?w c) (node_ok w0 G H D)"
      using cD by simp
    from rel True x ref obtain w' where "delete_context X ?w c = Some w'" "a = (None, w')"
      by (auto simp: skynet_context_release_def upd_ctx_def bind_eq_Some_conv)
    with wlpD [OF del] True show ?thesis by simp
  next
    case False
    with rel x ref have "a = (Some c, ?w)"
      by (auto simp: skynet_context_release_def upd_ctx_def bind_eq_Some_conv)
    moreover have "node_ok w0 G H D ?w"
      using False cD by (intro set_ctx_ok [OF ok x]) (auto simp: held_other)
    moreover have "0 < ctx_refs w G c" using False refs_nonneg [of w G c] by simp
    ultimately show ?thesis by (simp add: set_ctx_def)
  qed
qed

lemma context_release_ok:
  assumes "services_ok X" "node_ok w0 (held G c) H D w" "\<And>r w'. node_ok w0 G H D w' \<Longrightarrow> Q (r, w')"
  shows "wlp (skynet_context_release X w c) Q"
  by (rule wlp_pair [OF context_release_spec [OF assms(1,2)]]) (blast intro: assms(3))

lemma handle_grab_cases:
  assumes "node_ok w0 G H D w" "handle_live (w_hof w) (w_hs w) h = None \<Longrightarrow> Q (None, w)"
    "\<And>c w'. node_ok w0 (held G c) H D w' \<Longrightarrow> mqs w' = mqs w \<Longrightarrow> handle_live (w_hof w) (w_hs w) h = Some c \<Longrightarrow>
       Q (Some c, w')"
  shows "wlp (handle_grab w h) Q"
  by (rule wlp_pair [OF handle_grab_ok [OF assms(1)]]) (auto intro: assms(2,3) split: option.splits)

lemma ctx_push_ok:
  assumes "node_ok w0 G H D w" "ctx_queue x = Some p" "w_ctxs w c = Some x"
  shows "wlp (skynet_mq_push w p m) (node_ok w0 G H D)"
  by (rule mq_push_ok [OF assms(1)])
    (use node_invD(8) [OF node_ok_inv [OF assms(1)] assms(3)] assms(2) in \<open>simp add: owns_queue_def\<close>)

text \<open>The rules for the proofs below: structure, calls, fields.\<close>

lemma context_push_ok:
  assumes X: "services_ok X" and ok: "node_ok w0 G H D w"
  shows "wlp (skynet_context_push X w h m) (\<lambda>(r, w'). node_ok w0 G H D w')"
  unfolding skynet_context_push_def
  by (rule wlp_rules handle_grab_cases wlp_mono [OF ctx_push_ok] context_release_ok [OF X] ok wlp_any | assumption)+

lemma context_endless_ok:
  assumes X: "services_ok X" and ok: "node_ok w0 G H D w"
  shows "wlp (skynet_context_endless X w h) (node_ok w0 G H D)"
  unfolding skynet_context_endless_def
  by (rule wlp_rules handle_grab_cases wlp_mono [OF upd_ctx_ok] context_release_ok [OF X] ok wlp_any | assumption |
      simp; fail)+

lemma error_ok:
  assumes X: "services_ok X" and ok: "node_ok w0 G H D w"
  shows "wlp (skynet_error X w ctx s) (node_ok w0 G H D)"
  unfolding skynet_error_def
  by (rule wlp_rules wlp_pair [OF context_push_ok [OF X]] node_ok_frame ok wlp_any | assumption | erule malloc_ok)+

subsection \<open>Sending\<close>

lemma newsession_ok:
  assumes ok: "node_ok w0 G H D w"
  shows "wlp (skynet_context_newsession w c) (\<lambda>(r, w'). node_ok w0 G H D w')"
proof (rule wlp_any)
  fix a
  assume new: "skynet_context_newsession w c = Some a"
  then obtain x where x1: "w_ctxs w c = Some x"
    by (cases "w_ctxs w c") (auto simp: skynet_context_newsession_def)
  obtain n where "snd a = set_ctx w c (x\<lparr>ctx_session_id := n\<rparr>)"
    using new x1 by (cases "ctx_session_id x + 1 \<le> 0")
      (auto simp: skynet_context_newsession_def bind_eq_Some_conv simp del: set_ctx_fields)
  note x = x1 this
  have "node_ok w0 G H D (snd a)"
    unfolding x(2) using node_invD(6,7) [OF node_ok_inv [OF ok] x(1)] by (intro set_ctx_ok [OF ok x(1)]) auto
  then show "case a of (r, w') \<Rightarrow> node_ok w0 G H D w'" by (simp add: case_prod_unfold)
qed

lemma filter_args_ok:
  assumes ok: "node_ok w0 G H D w"
  shows "wlp (filter_args X w ctx type session data sz) (\<lambda>(s, d, z, w'). node_ok w0 G H D w')"
proof -
  have R: "wlp (Some (s, d, z, w')) (\<lambda>(s, d, z, w'). node_ok w0 G H D w')" if "node_ok w0 G H D w'" for s d z w'
    using that by (simp add: wlp_def)
  show ?thesis
    unfolding filter_args_def
    by (rule R wlp_case_pair wlp_case_Some wlp_case_None wlp_None wlp_bind wlp_assert wlp_if wlp_option
        wlp_prod wlp_Let wlp_Some wlp_pair [OF newsession_ok] ok wlp_any | assumption | erule malloc_ok)+
qed

lemma context_send_ok:
  assumes ok: "node_ok w0 G H D w"
  shows "wlp (skynet_context_send w c data sz source type session) (node_ok w0 G H D)"
  unfolding skynet_context_send_def
  by (rule wlp_rules wlp_mono [OF ctx_push_ok] ok wlp_any | assumption)+

lemma harbor_send_ok:
  assumes ok: "node_ok w0 G H D w"
  shows "wlp (skynet_harbor_send w a source session) (node_ok w0 G H D)"
proof -
  have R: "wlp m Q" if "\<And>r. Q r" for m :: "remote_message option" and Q
    using that by (simp add: wlp_def)
  show ?thesis
    unfolding skynet_harbor_send_def
    by (rule wlp_bind R wlp_assert wlp_Let context_send_ok node_ok_frame ok wlp_any | assumption)+
qed

lemma wlp_quad:
  "wlp m (\<lambda>(s, d, z, w). P w) \<Longrightarrow> (\<And>s d z w. P w \<Longrightarrow> Q (s, d, z, w)) \<Longrightarrow> wlp m Q"
  by (auto simp: wlp_def)

lemma send_ok:
  assumes X: "services_ok X" and ok: "node_ok w0 G H D w"
  shows "wlp (skynet_send X w ctx source destination type session data sz) (\<lambda>(r, w'). node_ok w0 G H D w')"
  unfolding skynet_send_def
  by (rule wlp_rules wlp_mono [OF error_ok [OF X]] wlp_mono [OF free_ok] wlp_quad [OF filter_args_ok]
      wlp_mono [OF harbor_send_ok] wlp_pair [OF context_push_ok [OF X]] ok wlp_any | assumption | erule malloc_ok)+

lemma sendname_ok:
  assumes X: "services_ok X" and ok: "node_ok w0 G H D w"
  shows "wlp (skynet_sendname X w ctx source addr type session data sz) (\<lambda>(r, w'). node_ok w0 G H D w')"
  unfolding skynet_sendname_def
  by (rule wlp_rules wlp_mono [OF free_ok] wlp_quad [OF filter_args_ok] send_ok [OF X]
      wlp_mono [OF harbor_send_ok] ok wlp_any | assumption | erule malloc_ok)+

lemma drop_message_ok:
  assumes X: "services_ok X" and ok: "node_ok w0 G H D w"
  shows "wlp (drop_message X source m w) (node_ok w0 G H D)"
  unfolding drop_message_def
  by (rule wlp_rules wlp_mono [OF free_ok] wlp_pair [OF send_ok [OF X]] ok wlp_any | assumption)+

subsection \<open>The registry\<close>

lemma hs_update_ok:
  assumes ok: "node_ok w0 G H D w" and wf: "slots_wf (w_hof w) s'" "names_wf s'"
    and refs: "\<And>d. ctx_refs (w\<lparr>w_hs := s'\<rparr>) G' d = ctx_refs w G d"
    and alive: "\<And>d. Some d \<in> set (hs_slot s') \<or> 0 < G' d \<Longrightarrow> w_ctxs w d \<noteq> None"
  shows "node_ok w0 G' H D (w\<lparr>w_hs := s'\<rparr>)"
proof -
  let ?w = "w\<lparr>w_hs := s'\<rparr>"
  from ok have inv: "node_inv w G H D" and ev: "evolves w0 w" by (simp_all add: node_ok_def)
  have hof: "w_hof ?w = w_hof w" by (simp add: fun_eq_iff w_hof_def)
  have tags: "mq_tags ?w = mq_tags w" by (simp add: fun_eq_iff mq_tags_def)
  from node_invD(3) [OF inv] obtain ps where "sched_inv_at ps (w, H)" by blast
  then have "sched_inv_at ps (?w, H)" by (simp add: sched_inv_at_def gq_abs_def)
  then have "node_inv ?w G' H D"
  proof (rule node_invI)
    show "slots_wf (w_hof ?w) (w_hs ?w)" "names_wf (w_hs ?w)" using wf by (simp_all add: hof)
    show "w_ctxs ?w d \<noteq> None"
      if "Some d \<in> set (hs_slot (w_hs ?w)) \<or> w_REMOTE ?w = Some d \<or> 0 < G' d \<or> d \<in> D" for d
      using that alive [of d] node_invD(4) [OF inv, of d] by auto
    show "d < w_brk ?w \<and> ctx_ref y = ctx_refs ?w G' d \<and> (d \<in> D \<longleftrightarrow> ctx_refs ?w G' d = 0) \<and> owns_queue ?w y"
      if "w_ctxs ?w d = Some y" for d y
    proof -
      from that have y: "w_ctxs w d = Some y" by simp
      show ?thesis using node_invD(5-8) [OF inv y] unfolding refs by (simp add: owns_queue_def tags)
    qed
    show "d = e" if "w_ctxs ?w d = Some u" "w_ctxs ?w e = Some v" "ctx_queue u = ctx_queue v" for d e u v
      using that node_invD(9) [OF inv] by simp
    show "r < w_brk ?w \<and> (snd t = 0 \<longrightarrow> (\<exists>d y. w_ctxs ?w d = Some y \<and> ctx_queue y = Some r))"
      if "mq_tags ?w r = Some t" for r t
    proof -
      from that have t: "mq_tags w r = Some t" by (simp add: tags)
      show ?thesis using node_invD(10,11) [OF inv t] by simp
    qed
    show "w_total ?w = int (card (dom (w_ctxs ?w))) - (if w_REMOTE ?w = None then 0 else 1)"
      using node_invD(12) [OF inv] by simp
  qed
  moreover have "evolves w0 ?w" by (rule evolves_cong [OF ev]) simp_all
  ultimately show ?thesis by (simp add: node_ok_def)
qed

lemma namehandle_ok:
  assumes ok: "node_ok w0 G H D w" and ret: "skynet_handle_namehandle (w_hs w) h nm = Some (r, s')"
  shows "node_ok w0 G H D (w\<lparr>w_hs := s'\<rparr>)"
proof -
  note inv = node_ok_inv [OF ok]
  from namehandle_returned [OF node_invD(2) [OF inv] ret] have s': "names_wf s'" "same_slots (w_hs w) s'" by auto
  then have "hs_slot s' = hs_slot (w_hs w)" by (simp add: same_slots_def)
  with s' same_slots_live [OF s'(2), of "w_hof w"] node_invD(1) [OF inv] node_invD(4) [OF inv] show ?thesis
    by (intro hs_update_ok [OF ok]) (auto simp: ctx_refs_def)
qed

lemma handle_retire_ok:
  assumes X: "services_ok X" and ok: "node_ok w0 G H D w"
  shows "wlp (handle_retire X w h) (\<lambda>(r, w'). node_ok w0 G H D w')"
proof -
  note inv = node_ok_inv [OF ok]
  note sw = node_invD(1) [OF inv]
  from retire_spec [OF sw node_invD(2) [OF inv], of h] obtain s' where
    s': "skynet_handle_retire (w_hof w) (w_hs w) h = Some (handle_live (w_hof w) (w_hs w) h, s')"
      "slots_wf (w_hof w) s'" "names_wf s'"
      "handle_live (w_hof w) s' = (handle_live (w_hof w) (w_hs w))(h := None)"
      "handle_live (w_hof w) (w_hs w) h = None \<longrightarrow> s' = w_hs w" by (elim exE conjE) (rule that)
  show ?thesis
  proof (cases "handle_live (w_hof w) (w_hs w) h")
    case None
    with s' ok show ?thesis by (simp add: handle_retire_def wlp_def)
  next
    case (Some c)
    have reg: "Some d \<in> set (hs_slot s') \<longleftrightarrow> Some d \<in> set (hs_slot (w_hs w)) \<and> d \<noteq> c" for d
    proof -
      have "Some d \<in> set (hs_slot s') \<longleftrightarrow> handle_live (w_hof w) s' (w_hof w d) = Some d"
        using live_iff [OF s'(2)] by blast
      also have "\<dots> \<longleftrightarrow> w_hof w d \<noteq> h \<and> handle_live (w_hof w) (w_hs w) (w_hof w d) = Some d"
        unfolding s'(4) by simp
      also have "\<dots> \<longleftrightarrow> w_hof w d \<noteq> h \<and> Some d \<in> set (hs_slot (w_hs w))"
        using live_iff [OF sw] by blast
      also have "\<dots> \<longleftrightarrow> Some d \<in> set (hs_slot (w_hs w)) \<and> d \<noteq> c"
        using live_iff [OF sw, of h c] live_iff [OF sw, of h d] Some by (metis option.inject)
      finally show ?thesis .
    qed
    have "node_ok w0 (held G c) H D (w\<lparr>w_hs := s'\<rparr>)"
    proof (rule hs_update_ok [OF ok s'(2,3)])
      show "ctx_refs (w\<lparr>w_hs := s'\<rparr>) (held G c) d = ctx_refs w G d" for d
        using live_ctx(1) [OF inv Some] by (auto simp: ctx_refs_def held_def reg)
      show "w_ctxs w d \<noteq> None" if "Some d \<in> set (hs_slot s') \<or> 0 < held G c d" for d
        using that live_ctx(3) [OF inv Some] node_invD(4) [OF inv, of d] by (auto simp: reg held_def split: if_splits)
    qed
    then have "wlp (skynet_context_release X (w\<lparr>w_hs := s'\<rparr>) c \<bind> (\<lambda>(ret, w). Some (1::nat, w)))
        (\<lambda>(r, w'). node_ok w0 G H D w')"
      by (intro wlp_rules context_release_ok [OF X])
    with s'(1) Some show ?thesis by (simp add: handle_retire_def)
  qed
qed

lemma retire_pass_ok:
  assumes X: "services_ok X" and ret: "retire_pass X w i n = Some y" and ok: "node_ok w0 G H D w"
  shows "node_ok w0 G H D (snd y)"
proof -
  have "services_ok X \<longrightarrow> node_ok w0 G H D w \<longrightarrow> node_ok w0 G H D (snd y)"
  proof (rule retire_pass.raw_induct [where P = "\<lambda>X w i n y. services_ok X \<longrightarrow> node_ok w0 G H D w \<longrightarrow>
      node_ok w0 G H D (snd y)", OF _ ret], intro impI)
    fix rec X w i n y
    assume IH: "\<And>X w i n y. rec X w i n = Some y \<Longrightarrow>
        services_ok X \<longrightarrow> node_ok w0 G H D w \<longrightarrow> node_ok w0 G H D (snd y)"
      and eq: "(if i < hs_slot_size (w_hs w)
        then do { cell \<leftarrow> arr_get (hs_slot (w_hs w)) i;
          (r, w) \<leftarrow> (let h = (case cell of Some c \<Rightarrow> w_hof w c | None \<Rightarrow> 0)
                     in if h \<noteq> 0 then handle_retire X w h else Some (0, w));
          rec X w (i + 1) (n + r) }
        else Some (n, w)) = Some y"
      and X: "services_ok X" and ok: "node_ok w0 G H D w"
    have R: "wlp (rec X w i n) (\<lambda>y. node_ok w0 G H D (snd y))" if "node_ok w0 G H D w" for w i n
      using IH X that by (auto simp: wlp_def)
    have "wlp (if i < hs_slot_size (w_hs w)
        then do { cell \<leftarrow> arr_get (hs_slot (w_hs w)) i;
          (r, w) \<leftarrow> (let h = (case cell of Some c \<Rightarrow> w_hof w c | None \<Rightarrow> 0)
                     in if h \<noteq> 0 then handle_retire X w h else Some (0, w));
          rec X w (i + 1) (n + r) }
        else Some (n, w)) (\<lambda>y. node_ok w0 G H D (snd y))"
      by (rule R wlp_rules wlp_pair [OF handle_retire_ok [OF X]] ok wlp_any | assumption | simp add: ok)+
    from wlpD [OF this eq] show "node_ok w0 G H D (snd y)" .
  qed
  with X ok show ?thesis by blast
qed

lemma retireall_ok:
  assumes X: "services_ok X" and ok: "node_ok w0 G H D w"
  shows "wlp (skynet_handle_retireall X w) (node_ok w0 G H D)"
proof (rule wlp_any)
  fix w'
  assume ret: "skynet_handle_retireall X w = Some w'"
  have "services_ok X \<longrightarrow> node_ok w0 G H D w \<longrightarrow> node_ok w0 G H D w'"
  proof (rule skynet_handle_retireall.raw_induct [where P = "\<lambda>X w w'. services_ok X \<longrightarrow> node_ok w0 G H D w \<longrightarrow>
      node_ok w0 G H D w'", OF _ ret], intro impI)
    fix rec X w w'
    assume IH: "\<And>X w w'. rec X w = Some w' \<Longrightarrow> services_ok X \<longrightarrow> node_ok w0 G H D w \<longrightarrow> node_ok w0 G H D w'"
      and eq: "do { (n, w) \<leftarrow> retire_pass X w 0 0; (if n = 0 then Some w else rec X w) } = Some w'"
      and X: "services_ok X" and ok: "node_ok w0 G H D w"
    from eq obtain n w1 where "retire_pass X w 0 0 = Some (n, w1)" "(if n = 0 then Some w1 else rec X w1) = Some w'"
      by (auto simp: bind_eq_Some_conv)
    with retire_pass_ok [OF X _ ok] IH X show "node_ok w0 G H D w'" by (fastforce split: if_splits)
  qed
  with X ok show "node_ok w0 G H D w'" by blast
qed

subsection \<open>Starting a service\<close>

text \<open>A new context is registered with one reference of the registry and one of its creator,
  and its queue is held by the creator.\<close>

lemma new_context_ok:
  assumes ok: "node_ok w0 G H D w"
    and c: "c = w_brk w" "p = c + 1"
    and x: "x = (new_context md inst)\<lparr>ctx_handle := h, ctx_queue := Some p\<rparr>"
    and s': "slots_wf ((w_hof w)(c := h)) s'" "names_wf s'"
      "\<And>d. Some d \<in> set (hs_slot s') \<longleftrightarrow> d = c \<or> Some d \<in> set (hs_slot (w_hs w))"
    and w': "w' = (skynet_mq_create w p h)\<lparr>w_hs := s', w_ctxs := (w_ctxs w)(c \<mapsto> x), w_brk := p + 1,
      w_total := w_total w + 1\<rparr>"
  shows "node_ok w0 (held G c) (insert p H) D w'"
proof -
  from ok have inv: "node_inv w G H D" and ev: "evolves w0 w" by (simp_all add: node_ok_def)
  have new: "w_ctxs w c = None" using node_invD(5) [OF inv] c(1) by (metis nat_less_le not_None_eq)
  have pnew: "mq_tags w p = None" using node_invD(10) [OF inv, of p] c by (cases "mq_tags w p") auto
  then have pnone: "mqs w p = None" by (simp add: mq_tags_def)
  have cfree: "\<not> (Some c \<in> set (hs_slot (w_hs w)) \<or> w_REMOTE w = Some c \<or> 0 < G c \<or> c \<in> D)"
    using node_invD(4) [OF inv, of c] new by blast
  have eqs: "w_hs w' = s'" "w_ctxs w' = (w_ctxs w)(c \<mapsto> x)" "w_brk w' = p + 1" "w_total w' = w_total w + 1"
    "w_REMOTE w' = w_REMOTE w" "mq_tags w' = (mq_tags w)(p \<mapsto> (h, 0))"
    unfolding w' by (simp_all add: skynet_mq_create_def set_mq_def mq_tags_def fun_eq_iff)
  have hof: "w_hof w' = (w_hof w)(c := h)" using x by (simp add: fun_eq_iff w_hof_def eqs)
  have refs: "ctx_refs w' (held G c) d = (if d = c then 2 else ctx_refs w G d)" for d
    using cfree by (auto simp: ctx_refs_def held_def eqs s'(3))
  from node_invD(3) [OF inv] obtain ps where "sched_inv_at ps (w, H)" by blast
  from sched_create [OF this pnone, of h] have "sched_inv_at ps (w', insert p H)"
    unfolding w' by (simp add: sched_inv_at_def gq_abs_def)
  then have "node_inv w' (held G c) (insert p H) D"
  proof (rule node_invI)
    show "slots_wf (w_hof w') (w_hs w')" "names_wf (w_hs w')" using s' by (simp_all add: hof eqs)
    show "w_ctxs w' d \<noteq> None"
      if "Some d \<in> set (hs_slot (w_hs w')) \<or> w_REMOTE w' = Some d \<or> 0 < held G c d \<or> d \<in> D" for d
      using that node_invD(4) [OF inv, of d] by (cases "d = c") (auto simp: eqs s'(3) held_other)
    show "d < w_brk w' \<and> ctx_ref y = ctx_refs w' (held G c) d \<and> (d \<in> D \<longleftrightarrow> ctx_refs w' (held G c) d = 0) \<and>
        owns_queue w' y" if "w_ctxs w' d = Some y" for d y
    proof (cases "d = c")
      case True
      with that have y: "y = x" by (simp add: eqs)
      have "owns_queue w' x" unfolding owns_queue_def eqs(6) by (simp add: x)
      moreover have "ctx_ref x = 2" by (simp add: x new_context_def)
      ultimately show ?thesis using True cfree c(2) by (simp add: y eqs(3) refs)
    next
      case False
      with that have y: "w_ctxs w d = Some y" by (simp add: eqs)
      from node_invD(8) [OF inv y] pnew have "owns_queue w' y" unfolding owns_queue_def eqs(6) by force
      moreover have "d < p + 1" using node_invD(5) [OF inv y] c by simp
      ultimately show ?thesis using False node_invD(6,7) [OF inv y] by (simp add: eqs(3) refs)
    qed
    have other: "ctx_queue y \<noteq> Some p" if "w_ctxs w d = Some y" for d y
      using node_invD(8) [OF inv that] pnew by (auto simp: owns_queue_def)
    show "d = e" if "w_ctxs w' d = Some u" "w_ctxs w' e = Some v" "ctx_queue u = ctx_queue v" for d e u v
    proof -
      have xq: "ctx_queue x = Some p" by (simp add: x)
      show ?thesis
        using that other [of e v] other [of d u] node_invD(9) [OF inv, of d u e v] xq
        by (cases "d = c"; cases "e = c") (simp_all add: eqs(2))
    qed
    show "r < w_brk w' \<and> (snd t = 0 \<longrightarrow> (\<exists>d y. w_ctxs w' d = Some y \<and> ctx_queue y = Some r))"
      if "mq_tags w' r = Some t" for r t
    proof (cases "r = p")
      case True
      have "w_ctxs w' c = Some x" "ctx_queue x = Some p" by (simp_all add: eqs x)
      with True show ?thesis by (auto simp: eqs(3))
    next
      case False
      with that have t: "mq_tags w r = Some t" by (simp add: eqs)
      have "\<exists>d y. w_ctxs w' d = Some y \<and> ctx_queue y = Some r" if "snd t = 0"
        using node_invD(11) [OF inv t that] new by (metis eqs(2) fun_upd_other option.distinct(1))
      with node_invD(10) [OF inv t] c show ?thesis by (simp add: eqs(3))
    qed
    have "card (dom (w_ctxs w')) = Suc (card (dom (w_ctxs w)))"
      using new ctxs_finite [OF inv] by (simp add: eqs domIff)
    then show "w_total w' = int (card (dom (w_ctxs w'))) - (if w_REMOTE w' = None then 0 else 1)"
      using node_invD(12) [OF inv] by (simp add: eqs(4,5))
  qed
  moreover have "evolves w0 w'"
  proof (rule evolvesI)
    show "w_brk w0 \<le> w_brk w'" using evolvesD(1) [OF ev] c by (simp add: eqs)
    show "w_ctxs w' d = None" if "d < w_brk w0" "w_ctxs w0 d = None" for d
      using evolvesD(2) [OF ev that] evolvesD(1) [OF ev] that c by (simp add: eqs)
    show "d < w_brk w0" if "w_ctxs w0 d = Some z" for d z using evolvesD(3) [OF ev that] .
    show "ctx_queue z' = ctx_queue z \<and> ctx_handle z' = ctx_handle z"
      if "w_ctxs w0 d = Some z" "w_ctxs w' d = Some z'" for d z z'
      using evolvesD(4) [OF ev that(1)] evolvesD(1) [OF ev] evolvesD(3) [OF ev that(1)] that(2) c
      by (cases "d = c") (auto simp: eqs)
    show "\<exists>p. ctx_queue z' = Some p \<and> w_brk w0 \<le> p"
      if "w_ctxs w0 d = None" "w_ctxs w' d = Some z'" for d z'
    proof -
      have "ctx_queue x = Some p" "w_brk w0 \<le> p" using evolvesD(1) [OF ev] c by (simp_all add: x)
      then show ?thesis using evolvesD(5) [OF ev that(1)] that(2) by (cases "d = c") (simp_all add: eqs(2))
    qed
  qed
  ultimately show ?thesis by (simp add: node_ok_def)
qed

lemma context_setup_ok:
  assumes ok: "node_ok w0 G H D w"
  shows "wlp (context_setup w md inst) (\<lambda>(c, p, w'). node_ok w0 (held G c) (insert p H) D w' \<and> p \<notin> H \<and>
    (\<exists>x. w_ctxs w' c = Some x \<and> ctx_queue x = Some p))"
proof (rule wlp_any)
  fix a
  assume start: "context_setup w md inst = Some a"
  let ?c = "w_brk w" and ?p = "w_brk w + 1"
  let ?w = "(set_ctx w ?c (new_context md inst))\<lparr>w_brk := ?c + 1\<rparr>"
  note inv = node_ok_inv [OF ok]
  have new: "w_ctxs w ?c = None" using node_invD(5) [OF inv] by (metis nat_less_le not_None_eq)
  have cfree: "Some ?c \<notin> set (hs_slot (w_hs w))" using node_invD(4) [OF inv, of ?c] new by blast
  have hof: "w_hof ?w = w_hof w" using new by (simp add: fun_eq_iff w_hof_def new_context_def)
  have hs: "w_hs ?w = w_hs w" by simp
  from start obtain h s' where reg: "skynet_handle_register (w_hof w) (w_hs w) ?c = Some (h, s')"
    unfolding context_setup_def Let_def hof hs by (auto simp: bind_eq_Some_conv)
  from register_returned [OF node_invD(1) [OF inv] cfree reg] have s':
    "slots_wf ((w_hof w)(?c := h)) s'"
    "handle_live ((w_hof w)(?c := h)) s' = (handle_live (w_hof w) (w_hs w))(h \<mapsto> ?c)" "same_names (w_hs w) s'"
    "handle_live (w_hof w) (w_hs w) h = None" by auto
  have names: "names_wf s'" using same_names_map [OF s'(3)] node_invD(2) [OF inv] by simp
  have slots: "Some d \<in> set (hs_slot s') \<longleftrightarrow> d = ?c \<or> Some d \<in> set (hs_slot (w_hs w))" for d
  proof -
    let ?hof = "(w_hof w)(?c := h)"
    have "Some d \<in> set (hs_slot s') \<longleftrightarrow> ((handle_live (w_hof w) (w_hs w))(h \<mapsto> ?c)) (?hof d) = Some d"
      using live_iff [OF s'(1), of "?hof d" d] unfolding s'(2) by blast
    also have "\<dots> \<longleftrightarrow> d = ?c \<or> handle_live (w_hof w) (w_hs w) (w_hof w d) = Some d"
    proof (cases "d = ?c")
      case False
      then have "w_hof w d = h \<Longrightarrow> handle_live (w_hof w) (w_hs w) (w_hof w d) = None" using s'(4) by simp
      with False show ?thesis by auto
    qed simp
    finally show ?thesis using live_iff [OF node_invD(1) [OF inv]] by blast
  qed
  let ?x = "(new_context md inst)\<lparr>ctx_handle := h, ctx_queue := Some ?p\<rparr>"
  let ?w' = "(skynet_mq_create w ?p h)\<lparr>w_hs := s', w_ctxs := (w_ctxs w)(?c \<mapsto> ?x), w_brk := ?p + 1,
      w_total := w_total w + 1\<rparr>"
  have "context_setup w md inst = Some (?c, ?p, ?w')"
    unfolding context_setup_def Let_def hof hs reg
    by (simp add: upd_ctx_def set_ctx_def skynet_mq_create_def set_mq_def)
  with start have a: "a = (?c, ?p, ?w')" by simp
  have "node_ok w0 (held G ?c) (insert ?p H) D ?w'"
    by (rule new_context_ok [OF ok refl refl refl s'(1) names slots refl])
  moreover have "?p \<notin> H"
  proof
    assume "?p \<in> H"
    from node_invD(3) [OF inv] obtain ps where "sched_inv_at ps (w, H)" by blast
    from sched_inv_atD(3) [OF this \<open>?p \<in> H\<close>] obtain q where "mqs w ?p = Some q" by blast
    with node_invD(10) [OF inv, of ?p "(mq_handle q, mq_release q)"] show False by (simp add: mq_tags_def)
  qed
  ultimately show "case a of (c, p, w') \<Rightarrow> node_ok w0 (held G c) (insert p H) D w' \<and> p \<notin> H \<and>
      (\<exists>x. w_ctxs w' c = Some x \<and> ctx_queue x = Some p)"
    unfolding a by simp
qed

text \<open>A held queue that is marked for release stays marked.\<close>

definition marked :: "world \<Rightarrow> qid \<Rightarrow> bool" where
  "marked w p \<longleftrightarrow> (\<exists>h r. mq_tags w p = Some (h, r) \<and> r \<noteq> 0)"

lemma held_tags:
  assumes "node_inv w G H D" "p \<in> H"
  shows "\<exists>h r. mq_tags w p = Some (h, r)"
proof -
  from node_invD(3) [OF assms(1)] obtain ps where "sched_inv_at ps (w, H)" by blast
  from sched_inv_atD(3) [OF this assms(2)] show ?thesis by (auto simp: mq_tags_def)
qed

lemma marked_stays:
  assumes inv: "node_inv w G H D" and mk: "marked w p" and ok: "node_ok w G' H' D' w'" and p: "p \<in> H'"
  shows "marked w' p"
proof (rule ccontr)
  assume no: "\<not> marked w' p"
  from ok have inv': "node_inv w' G' H' D'" and ev: "evolves w w'" by (simp_all add: node_ok_def)
  from held_tags [OF inv' p] no obtain h where "mq_tags w' p = Some (h, 0)" by (auto simp: marked_def)
  from node_invD(11) [OF inv' this] obtain c x' where x': "w_ctxs w' c = Some x'" "ctx_queue x' = Some p" by auto
  from mk obtain t where t: "mq_tags w p = Some t" "snd t \<noteq> 0" by (auto simp: marked_def)
  show False
  proof (cases "w_ctxs w c")
    case None
    from evolvesD(5) [OF ev None x'(1)] x'(2) node_invD(10) [OF inv t(1)] show False by simp
  next
    case (Some x)
    from evolvesD(4) [OF ev Some x'(1)] x'(2) have "ctx_queue x = Some p" by simp
    with node_invD(8) [OF inv Some] t show False by (auto simp: owns_queue_def)
  qed
qed

text \<open>Freeing a marked queue.\<close>

lemma free_queue_ok:
  assumes ok: "node_ok w0 G H D w" and p: "p \<in> H" "marked w p" and pop: "skynet_mq_pop w p = Some (None, w1)"
  shows "wlp (mq_release_mem w1 p) (node_ok w0 G (H - {p}) D)"
proof (rule wlp_any)
  fix w'
  assume rel: "mq_release_mem w1 p = Some w'"
  from ok have inv: "node_inv w G H D" and ev: "evolves w0 w" by (simp_all add: node_ok_def)
  from node_ok_sched [OF ok] obtain ps where sched: "sched_inv_at ps (w, H)" by blast
  from sched_inv_atD(3) [OF sched p(1)] obtain q where q: "mqs w p = Some q" by blast
  from sched_free [OF sched p(1) q pop] rel have sched': "sched_inv_at ps (w', H - {p})" by auto
  from sched_pop_none [OF sched q pop] rel have w': "w' = w\<lparr>mqs := (mqs w)(p := None)\<rparr>"
    by (auto simp: mq_release_mem_def set_mq_def bind_eq_Some_conv)
  then have tags: "mq_tags w' = (mq_tags w)(p := None)" by (simp add: mq_tags_def fun_eq_iff)
  have eqs: "w_hs w' = w_hs w" "w_ctxs w' = w_ctxs w" "w_brk w' = w_brk w" "w_total w' = w_total w"
    "w_REMOTE w' = w_REMOTE w" by (simp_all add: w')
  have hof: "w_hof w' = w_hof w" by (simp add: fun_eq_iff w_hof_def eqs)
  have "node_inv w' G (H - {p}) D"
  proof (rule node_invI [OF sched'])
    show "slots_wf (w_hof w') (w_hs w')" "names_wf (w_hs w')" using node_invD(1,2) [OF inv] by (simp_all add: hof eqs)
    show "w_ctxs w' d \<noteq> None" if "Some d \<in> set (hs_slot (w_hs w')) \<or> w_REMOTE w' = Some d \<or> 0 < G d \<or> d \<in> D" for d
      using that node_invD(4) [OF inv, of d] by (simp add: eqs)
    show "d < w_brk w' \<and> ctx_ref y = ctx_refs w' G d \<and> (d \<in> D \<longleftrightarrow> ctx_refs w' G d = 0) \<and> owns_queue w' y"
      if "w_ctxs w' d = Some y" for d y
    proof -
      from that have y: "w_ctxs w d = Some y" by (simp add: eqs)
      have "ctx_refs w' G d = ctx_refs w G d" by (simp add: ctx_refs_def eqs)
      moreover have "owns_queue w' y"
      proof -
        from node_invD(8) [OF inv y] obtain r where r: "ctx_queue y = Some r" "mq_tags w r = Some (ctx_handle y, 0)"
          by (auto simp: owns_queue_def)
        with p(2) have "r \<noteq> p" by (auto simp: marked_def)
        with r show ?thesis by (simp add: owns_queue_def tags)
      qed
      ultimately show ?thesis using node_invD(5-7) [OF inv y] by (simp add: eqs)
    qed
    show "d = e" if "w_ctxs w' d = Some u" "w_ctxs w' e = Some v" "ctx_queue u = ctx_queue v" for d e u v
      using that node_invD(9) [OF inv] by (simp add: eqs)
    show "r < w_brk w' \<and> (snd t = 0 \<longrightarrow> (\<exists>d y. w_ctxs w' d = Some y \<and> ctx_queue y = Some r))"
      if "mq_tags w' r = Some t" for r t
    proof -
      from that have t: "mq_tags w r = Some t" by (simp add: tags split: if_splits)
      show ?thesis using node_invD(10,11) [OF inv t] by (simp add: eqs)
    qed
    show "w_total w' = int (card (dom (w_ctxs w'))) - (if w_REMOTE w' = None then 0 else 1)"
      using node_invD(12) [OF inv] by (simp add: eqs)
  qed
  moreover have "evolves w0 w'" by (rule evolves_cong [OF ev]) (simp_all add: eqs)
  ultimately show "node_ok w0 G (H - {p}) D w'" by (simp add: node_ok_def)
qed

end
