(* ===== verification/Start.thy ===== *)
theory Start
  imports Command
begin

text \<open>
  Starting a node and the bodies of its threads, \<open>skynet_start.c\<close>, with the options that
  \<open>skynet_main.c\<close> reads from the environment.  The threads themselves, their mutex and
  condition variable are not modelled; the loops of the threads are sequences of the
  operations below, in any order.
\<close>

text \<open>The memory of the process before \<open>main\<close>: no queue, no context, \<open>HARBOR\<close> not set.\<close>

definition world_zero :: world where
  "world_zero = \<lparr>mqs = (\<lambda>_. None), gq_head = None, gq_tail = None, w_hs = skynet_handle_init 0,
     w_ctxs = (\<lambda>_. None), w_mem = (\<lambda>_. None), w_files = (\<lambda>_. None), w_brk = 1, w_total = 0,
     w_node_init = False, w_monitor_exit = 0, w_handle_key = 0, w_REMOTE = None, w_HARBOR = - 1,
     w_logger = 0, w_modules = skynet_module_init [], w_env = (\<lambda>_. None), w_timer = timer_create_timer\<rparr>"

definition optint :: "world \<Rightarrow> string \<Rightarrow> int \<Rightarrow> (int \<times> world) option" where
  "optint w key opt = (case skynet_getenv w key of
     None \<Rightarrow> do { w \<leftarrow> skynet_setenv w key (print_d opt); Some (opt, w) }
   | Some s \<Rightarrow> Some (to_int32 (strtol s 10), w))"

definition optstring :: "world \<Rightarrow> string \<Rightarrow> string option \<Rightarrow> (string option \<times> world) option" where
  "optstring w key opt = (case skynet_getenv w key of
     None \<Rightarrow> (case opt of
       Some s \<Rightarrow> do { w \<leftarrow> skynet_setenv w key s; Some (skynet_getenv w key, w) }
     | None \<Rightarrow> Some (None, w))
   | Some s \<Rightarrow> Some (Some s, w))"

text \<open>The initialisations of \<open>skynet_start\<close>; the clocks are arguments.\<close>

definition start_init :: "world \<Rightarrow> int \<Rightarrow> string \<Rightarrow> int \<times> int \<Rightarrow> int \<times> int \<Rightarrow> world" where
  "start_init w harbor path realtime monotonic =
     (let w = skynet_harbor_init w harbor;
          w = w\<lparr>w_hs := skynet_handle_init harbor\<rparr>;
          w = skynet_mq_init w;
          w = w\<lparr>w_modules := skynet_module_init path\<rparr>
      in w\<lparr>w_timer := skynet_timer_init realtime monotonic\<rparr>)"

text \<open>\<open>bootstrap\<close>: the first two words of the command line; with one word \<open>args\<close> is passed on
  without having been written.  The end is \<open>exit(1)\<close> when the service cannot be started.\<close>

definition bootstrap :: "ext \<Rightarrow> world \<Rightarrow> ctx_id \<Rightarrow> string \<Rightarrow> world option" where
  "bootstrap X w logger cmdline = do {
     let (nm, r) = scan_word cmdline;
     let (args, r) = scan_word r;
     c_assert (args \<noteq> []);
     (ctx, w) \<leftarrow> skynet_context_new X w nm (Some args);
     c_assert (ctx \<noteq> None);
     Some w }"

definition skynet_start :: "ext \<Rightarrow> world \<Rightarrow> int \<Rightarrow> string \<Rightarrow> int \<times> int \<Rightarrow> int \<times> int \<Rightarrow> string \<Rightarrow> string option \<Rightarrow>
    string \<Rightarrow> world option" where
  "skynet_start X w harbor path realtime monotonic logservice logger cmdline = do {
     (ctx, w) \<leftarrow> skynet_context_new X (start_init w harbor path realtime monotonic) logservice logger;
     c \<leftarrow> ctx;
     bootstrap X w c cmdline }"

text \<open>\<open>signal_hup\<close>: the logger is told to reopen its file.\<close>

definition signal_hup :: "ext \<Rightarrow> world \<Rightarrow> world option" where
  "signal_hup X w = do {
     lg \<leftarrow> skynet_handle_findname (w_hs w) ''logger'';
     (if lg \<noteq> 0
      then do {
        (r, w) \<leftarrow> skynet_context_push X w lg \<lparr>msg_source = 0, msg_session = 0, msg_data = None,
          msg_sz = type_bits PTYPE_SYSTEM\<rparr>;
        Some w }
      else Some w) }"

text \<open>\<open>wakeup\<close> signals a worker when enough of them sleep.\<close>

definition wakeup :: "int \<Rightarrow> int \<Rightarrow> int \<Rightarrow> bool" where
  "wakeup workers sleeping busy \<longleftrightarrow> sleeping \<ge> workers - busy"

definition WEIGHTS :: "int list" where
  "WEIGHTS = replicate 4 (- 1) @ replicate 4 0 @ replicate 8 1 @ replicate 8 2 @ replicate 8 3"

definition worker_weight :: "nat \<Rightarrow> int" where
  "worker_weight i = (if i < length WEIGHTS then WEIGHTS ! i else 0)"

text \<open>One turn of \<open>thread_worker\<close>; the flag tells that the worker goes to sleep.\<close>

definition worker_turn :: "ext \<Rightarrow> nat \<Rightarrow> skynet_monitor \<Rightarrow> qid option \<Rightarrow> world \<Rightarrow>
    (bool \<times> qid option \<times> skynet_monitor \<times> world) option" where
  "worker_turn X i sm q w = do {
     (q, sm, w) \<leftarrow> skynet_context_message_dispatch X sm q (worker_weight i) w;
     Some (q = None, q, sm, w) }"

text \<open>One turn of \<open>thread_timer\<close>: whether the thread goes on, and the world.  It goes on unless no
  context is left; \<open>hup\<close> tells that the process got the signal.\<close>

definition timer_turn :: "ext \<Rightarrow> world \<Rightarrow> u64 \<Rightarrow> bool \<Rightarrow> (bool \<times> world) option" where
  "timer_turn X w cp hup = do {
     w \<leftarrow> node_updatetime X w cp;
     (if skynet_context_total w = 0 then Some (False, w)
      else do {
        w \<leftarrow> (if hup then signal_hup X w else Some w);
        Some (True, w) }) }"

text \<open>The inner loop of \<open>thread_monitor\<close>.\<close>

fun check_monitors :: "ext \<Rightarrow> skynet_monitor list \<Rightarrow> world \<Rightarrow> (skynet_monitor list \<times> world) option" where
  "check_monitors X [] w = Some ([], w)"
| "check_monitors X (sm # sms) w = do {
     (sm, w) \<leftarrow> skynet_monitor_check X sm w;
     (sms, w) \<leftarrow> check_monitors X sms w;
     Some (sm # sms, w) }"

end
