(* ===== verification/Nodesafe.thy ===== *)
theory Nodesafe
  imports Nodeinv Start
begin

text \<open>
  The invariant of the node through the larger operations: starting a service, releasing
  a queue, dispatching, the text commands and the steps of the other threads; and the
  reachable states of a node.
\<close>

subsection \<open>Releasing a queue\<close>

lemma drop_loop_ok:
  assumes X: "services_ok X" and ok: "node_ok w0 G H D w" and p: "p \<in> H" "marked w p"
    and ret: "drop_queue_loop (drop_message X h) w p = Some w1"
  shows "\<exists>w2. node_ok w0 G H D w2 \<and> marked w2 p \<and> skynet_mq_pop w2 p = Some (None, w1)"
proof -
  have "f = drop_message X h \<longrightarrow> p \<in> H \<longrightarrow> node_ok w0 G H D w \<longrightarrow> marked w p \<longrightarrow>
      (\<exists>w2. node_ok w0 G H D w2 \<and> marked w2 p \<and> skynet_mq_pop w2 p = Some (None, w1))"
    if loop: "drop_queue_loop f w p = Some w1" for f w p w1
  proof (rule drop_queue_loop.raw_induct [where P = "\<lambda>f w p w1. f = drop_message X h \<longrightarrow> p \<in> H \<longrightarrow>
      node_ok w0 G H D w \<longrightarrow> marked w p \<longrightarrow>
      (\<exists>w2. node_ok w0 G H D w2 \<and> marked w2 p \<and> skynet_mq_pop w2 p = Some (None, w1))", OF _ loop], intro impI)
    fix rec f w p w1
    assume IH: "\<And>f w p w1. rec f w p = Some w1 \<Longrightarrow> f = drop_message X h \<longrightarrow> p \<in> H \<longrightarrow>
        node_ok w0 G H D w \<longrightarrow> marked w p \<longrightarrow>
        (\<exists>w2. node_ok w0 G H D w2 \<and> marked w2 p \<and> skynet_mq_pop w2 p = Some (None, w1))"
      and eq: "do { (r, w) \<leftarrow> skynet_mq_pop w p;
        (case r of None \<Rightarrow> Some w | Some m \<Rightarrow> do { w \<leftarrow> f m w; rec f w p }) } = Some w1"
      and f: "f = drop_message X h" and p: "p \<in> H" and ok: "node_ok w0 G H D w" and mk: "marked w p"
    from eq obtain r w' where pop: "skynet_mq_pop w p = Some (r, w')"
      and cont: "(case r of None \<Rightarrow> Some w' | Some m \<Rightarrow> do { w \<leftarrow> f m w'; rec f w p }) = Some w1"
      by (auto simp: bind_eq_Some_conv)
    show "\<exists>w2. node_ok w0 G H D w2 \<and> marked w2 p \<and> skynet_mq_pop w2 p = Some (None, w1)"
    proof (cases r)
      case None
      with cont pop ok mk show ?thesis by auto
    next
      case (Some m)
      from wlpD [OF mq_pop_ok [OF ok p] pop] Some have ok': "node_ok w0 G H D w'" "mq_tags w' = mq_tags w" by simp_all
      then have mk': "marked w' p" using mk by (simp add: marked_def)
      from cont Some f obtain w'' where w'': "drop_message X h m w' = Some w''" "rec f w'' p = Some w1"
        by (auto simp: bind_eq_Some_conv)
      note inv' = node_ok_inv [OF ok'(1)]
      have step: "node_ok w' G H D w''" by (rule wlpD [OF drop_message_ok [OF X node_ok_refl [OF inv']] w''(1)])
      from IH [OF w''(2)] f p node_ok_step [OF ok'(1) step] marked_stays [OF inv' mk' step p] show ?thesis by blast
    qed
  qed
  with ret ok p show ?thesis by blast
qed

lemma mq_release_ok:
  assumes X: "services_ok X" and ok: "node_ok w0 G H D w" and p: "p \<in> H"
  shows "wlp (skynet_mq_release (drop_message X h) w p) (node_ok w0 G (H - {p}) D)"
proof (rule wlp_any)
  fix w'
  assume rel: "skynet_mq_release (drop_message X h) w p = Some w'"
  then obtain q where q: "mqs w p = Some q" by (auto simp: skynet_mq_release_def bind_eq_Some_conv)
  show "node_ok w0 G (H - {p}) D w'"
  proof (cases "mq_release q = 0")
    case True
    with rel q have "skynet_globalmq_push w p = Some w'" by (simp add: skynet_mq_release_def)
    from wlpD [OF globalmq_push_ok [OF ok p] this] show ?thesis by simp
  next
    case False
    with q have mk: "marked w p" by (auto simp: marked_def mq_tags_def)
    from rel q False obtain w1 where w1: "drop_queue_loop (drop_message X h) w p = Some w1"
      "mq_release_mem w1 p = Some w'" by (auto simp: skynet_mq_release_def drop_queue_def bind_eq_Some_conv)
    from drop_loop_ok [OF X ok p mk w1(1)] obtain w2 where
      w2: "node_ok w0 G H D w2" "marked w2 p" "skynet_mq_pop w2 p = Some (None, w1)" by blast
    from wlpD [OF free_queue_ok [OF w2(1) p w2(2,3)] w1(2)] show ?thesis .
  qed
qed

subsection \<open>Starting a service\<close>

lemma context_started_ok:
  assumes X: "services_ok X" and ok: "node_ok w0 (held G c) (insert p H) D w" and p: "p \<notin> H"
  shows "wlp (context_started X w c p nm param) (\<lambda>(r, w'). node_ok w0 G H D w')"
proof -
  have push: "wlp (skynet_globalmq_push w1 p) Q"
    if "node_ok w0 G (insert p H) D w1" "\<And>w2. node_ok w0 G H D w2 \<Longrightarrow> Q w2" for w1 Q
    using globalmq_push_ok [OF that(1) insertI1] that(2) p by (auto simp: wlp_def)
  show ?thesis
    unfolding context_started_def
    by (rule wlp_rules context_release_ok [OF X] ok wlp_mono [OF upd_ctx_ok] push wlp_mono [OF error_ok [OF X]] wlp_any |
        assumption | simp; fail)+
qed

lemma context_failed_ok:
  assumes X: "services_ok X" and ok: "node_ok w0 (held G c) (insert p H) D w" and p: "p \<notin> H"
  shows "wlp (context_failed X w c p nm) (\<lambda>(r, w'). node_ok w0 G H D w')"
proof -
  have rel: "wlp (skynet_mq_release (drop_message X h) w1 p) Q"
    if "node_ok w0 G (insert p H) D w1" "\<And>w2. node_ok w0 G H D w2 \<Longrightarrow> Q w2" for w1 Q h
    using mq_release_ok [OF X that(1) insertI1] that(2) p by (auto simp: wlp_def)
  show ?thesis
    unfolding context_failed_def
    by (rule wlp_rules context_release_ok [OF X] ok rel wlp_mono [OF error_ok [OF X]]
        wlp_pair [OF handle_retire_ok [OF X]] wlp_any | assumption)+
qed

lemma context_new_ok:
  assumes X: "services_ok X" and ok: "node_ok w0 G H D w"
  shows "wlp (skynet_context_new X w nm param) (\<lambda>(r, w'). node_ok w0 G H D w')"
proof -
  have start: "wlp (context_setup w1 md inst) Q"
    if "node_ok w0 G H D w1"
      "\<And>c p w2. node_ok w0 (held G c) (insert p H) D w2 \<Longrightarrow> p \<notin> H \<Longrightarrow> Q (c, p, w2)" for w1 md inst Q
    using context_setup_ok [OF that(1)] that(2) by (auto simp: wlp_def)
  show ?thesis
    unfolding skynet_context_new_def
    by (rule wlp_rules wlp_pair [OF instance_ok(1) [OF X]] start wlp_pair [OF instance_ok(2) [OF X]]
        context_started_ok [OF X] context_failed_ok [OF X] node_ok_frame ok wlp_any | assumption)+
qed

subsection \<open>Log files\<close>

lemma log_open_ok:
  assumes X: "services_ok X" and ok: "node_ok w0 G H D w"
  shows "wlp (skynet_log_open X w ctx h) (\<lambda>(r, w'). node_ok w0 G H D w')"
  unfolding skynet_log_open_def
  by (rule wlp_rules wlp_mono [OF error_ok [OF X]] wlp_mono [OF fprintf_ok] node_ok_frame ok wlp_any | assumption)+

lemma log_close_ok:
  assumes X: "services_ok X" and ok: "node_ok w0 G H D w"
  shows "wlp (skynet_log_close X w ctx f h) (node_ok w0 G H D)"
  unfolding skynet_log_close_def
  by (rule wlp_rules wlp_mono [OF error_ok [OF X]] wlp_mono [OF fprintf_ok] wlp_mono [OF fclose_ok] ok wlp_any |
      assumption)+

lemma log_output_ok:
  assumes ok: "node_ok w0 G H D w"
  shows "wlp (skynet_log_output X w f source type session buffer sz) (node_ok w0 G H D)"
  unfolding skynet_log_output_def
  by (rule wlp_rules wlp_mono [OF fprintf_ok] ok wlp_any | assumption)+

subsection \<open>Dispatching\<close>

lemma dispatch_message_ok:
  assumes X: "services_ok X" and ok: "node_ok w0 G H D w"
  shows "wlp (dispatch_message X w c m) (node_ok w0 G H D)"
  unfolding dispatch_message_def
  by (rule wlp_rules wlp_mono [OF log_output_ok] wlp_pair [OF services_okD(5) [OF X]] wlp_mono [OF free_ok]
      node_ok_frame ok wlp_any | assumption)+

definition owned :: "world \<Rightarrow> ctx_id \<Rightarrow> qid \<Rightarrow> bool" where
  "owned w c p \<longleftrightarrow> (\<exists>x. w_ctxs w c = Some x \<and> ctx_queue x = Some p)"

lemma owned_tags: "node_inv w G H D \<Longrightarrow> owned w c p \<Longrightarrow> \<exists>h. mq_tags w p = Some (h, 0)"
  using node_invD(8) by (fastforce simp: owned_def owns_queue_def)

text \<open>A context that a thread holds keeps its queue.\<close>

lemma owned_stays:
  assumes own: "owned w c p" and ok: "node_ok w (held G c) H D w'"
  shows "owned w' c p"
proof -
  from own obtain x where x: "w_ctxs w c = Some x" "ctx_queue x = Some p" by (auto simp: owned_def)
  from ok have inv: "node_inv w' (held G c) H D" and ev: "evolves w w'" by (simp_all add: node_ok_def)
  from node_invD(4) [OF inv, of c] obtain x' where x': "w_ctxs w' c = Some x'" by (auto simp: held_def)
  from evolvesD(4) [OF ev x(1) x'] x(2) x' show ?thesis by (simp add: owned_def)
qed

lemma overload_ok:
  assumes ok: "node_ok w0 G H D w" and q: "mqs w p = Some q" "skynet_mq_overload q = (ov, q')"
  shows "node_ok w0 G H D (set_mq w p q')"
proof -
  have q': "q' = q \<or> q' = q\<lparr>mq_overload := 0\<rparr>" using q(2) by (auto simp: skynet_mq_overload_def split: if_splits)
  from node_ok_sched [OF ok] obtain ps where sched: "sched_inv_at ps (w, H)" by blast
  from sched_inv_atD(4) [OF sched q(1)] q' have "queue_inv (p \<in> H \<union> set ps) q'"
    by (auto simp: queue_inv_def mq_wf_def mq_slots_def mq_contents_def)
  then have "sched_inv_at ps (set_mq w p q', H)"
    using q' by (intro sched_update [OF sched q(1)]) auto
  moreover have "mq_same w (set_mq w p q')" using q' by (intro mq_same_set_mq [OF q(1)]) auto
  ultimately show ?thesis using mq_same_node_ok [OF ok] by blast
qed

lemma dispatch_one_ok:
  assumes X: "services_ok X" and ok: "node_ok w0 G H D w"
  shows "wlp (dispatch_one X c p h sm m w) (\<lambda>(sm', w'). node_ok w0 G H D w')"
  unfolding dispatch_one_def
  by (rule wlp_rules wlp_mono [OF error_ok [OF X]] wlp_mono [OF free_ok] wlp_mono [OF dispatch_message_ok [OF X]]
      overload_ok ok wlp_any | assumption)+

text \<open>One turn of the loop, given what the remaining turns do.\<close>

lemma dispatch_loop_step:
  assumes X: "services_ok X" and ok: "node_ok w0 (held G c) H D w" and p: "p \<in> H" and own: "owned w c p"
    and IH: "\<And>n' sm' w'. n' = n \<or> i = 0 \<Longrightarrow> i < n \<Longrightarrow> node_ok w0 (held G c) H D w' \<Longrightarrow> owned w' c p \<Longrightarrow>
      wlp (dispatch_loop X c p h weight (i + 1) n' sm' w') Q"
    and Q: "\<And>sm' w'. node_ok w0 (held G c) (H - {p}) D w' \<Longrightarrow> Q (True, sm', w')"
      "\<And>sm' w'. node_ok w0 (held G c) H D w' \<Longrightarrow> owned w' c p \<Longrightarrow> Q (False, sm', w')"
  shows "wlp (dispatch_loop X c p h weight i n sm w) Q"
proof -
  note inv = node_ok_inv [OF ok]
  from owned_tags [OF inv own] obtain h0 where h0: "mq_tags w p = Some (h0, 0)" by blast
  have pop: "wlp (skynet_mq_pop w p) R"
    if "\<And>w'. node_ok w0 (held G c) (H - {p}) D w' \<Longrightarrow> R (None, w')"
      "\<And>m w'. node_ok w0 (held G c) H D w' \<Longrightarrow> owned w' c p \<Longrightarrow> R (Some m, w')" for R
  proof (rule wlp_any)
    fix a
    assume a: "skynet_mq_pop w p = Some a"
    obtain r w' where r: "a = (r, w')" by (cases a)
    show "R a"
    proof (cases r)
      case None
      with wlpD [OF mq_pop_ok [OF ok p] a] r h0 that(1) show ?thesis by auto
    next
      case (Some m)
      with wlpD [OF mq_pop_ok [OF ok p] a] wlpD [OF mq_pop_ok [OF node_ok_refl [OF inv] p] a] r
      have "node_ok w0 (held G c) H D w'" "node_ok w (held G c) H D w'" by simp_all
      with that(2) owned_stays [OF own] r Some show ?thesis by blast
    qed
  qed
  have one: "wlp (dispatch_one X c p h sm m w1) R"
    if ok1: "node_ok w0 (held G c) H D w1" and own1: "owned w1 c p"
      and R: "\<And>sm' w'. node_ok w0 (held G c) H D w' \<Longrightarrow> owned w' c p \<Longrightarrow> R (sm', w')" for sm m w1 R
  proof (rule wlp_pair [OF dispatch_one_ok [OF X node_ok_refl [OF node_ok_inv [OF ok1]]]])
    fix sm' w'
    assume "node_ok w1 (held G c) H D w'"
    with node_ok_step [OF ok1] owned_stays [OF own1] R show "R (sm', w')" by blast
  qed
  have n: "wlp (dispatch_loop X c p h weight (i + 1)
      (if i = 0 \<and> 0 \<le> weight then skynet_mq_length q div 2 ^ nat weight else n) sm' w') Q"
    if "i < n" "node_ok w0 (held G c) H D w'" "owned w' c p" for q sm' w'
    using that by (intro IH) auto
  show ?thesis
    by (subst dispatch_loop.simps)
      (rule wlp_case_pair wlp_case_Some wlp_case_None wlp_Some wlp_bind wlp_if wlp_Let pop one n ok own Q wlp_any |
       assumption)+
qed

lemma dispatch_loop_ok:
  assumes X: "services_ok X" and ok: "node_ok w0 (held G c) H D w" and p: "p \<in> H" and own: "owned w c p"
    and Q: "\<And>sm' w'. node_ok w0 (held G c) (H - {p}) D w' \<Longrightarrow> Q (True, sm', w')"
      "\<And>sm' w'. node_ok w0 (held G c) H D w' \<Longrightarrow> owned w' c p \<Longrightarrow> Q (False, sm', w')"
  shows "wlp (dispatch_loop X c p h weight i n sm w) Q"
proof -
  have later: "wlp (dispatch_loop X c p h weight (Suc i) n sm w) Q"
    if "node_ok w0 (held G c) H D w" "owned w c p" for i n sm w
    using that
  proof (induction "n - i" arbitrary: i sm w rule: less_induct)
    case less
    show ?case
      by (rule dispatch_loop_step [OF X less.prems(1) p less.prems(2) _ Q])
        (use less.hyps in simp_all)
  qed
  show ?thesis
    by (rule dispatch_loop_step [OF X ok p own _ Q]) (use later in simp_all)
qed

text \<open>A queue belongs to the live context of its handle, if there is one: no handle is given out
  again while the queue of its former owner still waits to be drained.\<close>

definition handles_current :: "world \<Rightarrow> bool" where
  "handles_current w \<longleftrightarrow> (\<forall>p h r c. mq_tags w p = Some (h, r) \<longrightarrow>
     handle_live (w_hof w) (w_hs w) h = Some c \<longrightarrow> owned w c p)"

lemma handles_current_same:
  assumes "mq_same w w'" "handles_current w"
  shows "handles_current w'"
proof -
  from assms(1) have same: "mq_world.more w' = mq_world.more w" "mq_tags w' = mq_tags w" by (simp_all add: mq_same_def)
  note eqs = more_fields [OF same(1)]
  have "w_hof w' = w_hof w" by (simp add: fun_eq_iff w_hof_def eqs)
  with assms(2) show ?thesis unfolding handles_current_def owned_def same(2) eqs by simp
qed

definition qset :: "qid option \<Rightarrow> qid set" where
  "qset q = (case q of None \<Rightarrow> {} | Some p \<Rightarrow> {p})"

lemma qset_simps [simp]: "qset None = {}" "qset (Some p) = {p}"
  by (simp_all add: qset_def)

lemma globalmq_pop_held:
  assumes ok: "node_ok w0 G H D w"
    and Q: "\<And>r w'. node_ok w0 G (H \<union> qset r) D w' \<Longrightarrow> qset r \<inter> H = {} \<Longrightarrow> mq_same w w' \<Longrightarrow> Q (r, w')"
  shows "wlp (skynet_globalmq_pop w) Q"
proof (rule wlp_pair [OF globalmq_pop_ok [OF ok]])
  fix r w'
  assume "node_ok w0 G (case r of Some p \<Rightarrow> insert p H | None \<Rightarrow> H) D w' \<and> mq_same w w' \<and> (\<forall>p. r = Some p \<longrightarrow> p \<notin> H)"
  then show "Q (r, w')" by (intro Q) (auto split: option.splits)
qed

text \<open>A worker that holds \<open>p\<close> gives it up for the queue it returns; the queues \<open>H\<close> of the other
  threads are not touched.\<close>

lemma dispatch_queue_ok:
  assumes X: "services_ok X" and ok: "node_ok w0 G (insert p H) D w" and p: "p \<notin> H" and cur: "handles_current w"
    and K: "\<And>q sm' w'. node_ok w0 G (H \<union> qset q) D w' \<Longrightarrow> qset q \<inter> H = {} \<Longrightarrow> K (q, sm', w')"
  shows "wlp (dispatch_queue X sm p weight w) K"
proof -
  note inv = node_ok_inv [OF ok]
  have grab: "wlp (handle_grab w (skynet_mq_handle mq)) R"
    if mq: "mqs w p = Some mq" and R: "R (None, w)"
      "\<And>c w'. node_ok w0 (held G c) (insert p H) D w' \<Longrightarrow> owned w' c p \<Longrightarrow> R (Some c, w')" for mq R
  proof (rule handle_grab_cases [OF node_ok_refl [OF inv]])
    fix c w'
    assume ok': "node_ok w (held G c) (insert p H) D w'"
      and live: "handle_live (w_hof w) (w_hs w) (skynet_mq_handle mq) = Some c"
    have "mq_tags w p = Some (skynet_mq_handle mq, mq_release mq)" using mq by (simp add: mq_tags_def skynet_mq_handle_def)
    with cur live have "owned w c p" unfolding handles_current_def by blast
    from R(2) [OF node_ok_step [OF ok ok'] owned_stays [OF this ok']] show "R (Some c, w')" .
  qed (rule R(1))
  have next1: "wlp (skynet_globalmq_pop w1) (\<lambda>a. wlp (case a of (nq, w) \<Rightarrow> Some (nq, sm1, w)) K)"
    if "node_ok w0 G H D w1" for w1 sm1
    using that by (rule globalmq_pop_held) (auto simp: wlp_def intro: K)
  have drop: "wlp (skynet_mq_release (drop_message X h) w p)
      (\<lambda>w. wlp (skynet_globalmq_pop w \<bind> (\<lambda>(nq, w). Some (nq, sm, w))) K)" for h
    using mq_release_ok [OF X ok insertI1] by (rule wlp_mono) (use next1 p in \<open>simp add: wlp_bind\<close>)
  have empt: "wlp (skynet_context_release X w1 c \<bind> (\<lambda>(ret, w). skynet_globalmq_pop w \<bind> (\<lambda>(nq, w). Some (nq, sm1, w)))) K"
    if "node_ok w0 (held G c) H D w1" for w1 c sm1
    by (rule wlp_bind, rule context_release_ok [OF X that]) (simp add: wlp_bind next1)
  have release: "wlp (skynet_context_release X w1 c \<bind> (\<lambda>(ret, w). Some (Some q, sm1, w))) K"
    if "node_ok w0 (held G c) (H \<union> qset (Some q)) D w1" "q \<notin> H" for w1 c q sm1
    by (rule wlp_bind, rule context_release_ok [OF X that(1)]) (use that(2) in \<open>auto simp: wlp_def intro!: K\<close>)
  have full: "wlp (skynet_globalmq_pop w1 \<bind> (\<lambda>(nq, w).
      (case nq of None \<Rightarrow> Some (p, w) | Some nq \<Rightarrow> skynet_globalmq_push w p \<bind> (\<lambda>w. Some (nq, w))) \<bind>
      (\<lambda>(q, w). skynet_context_release X w c \<bind> (\<lambda>(ret, w). Some (Some q, sm1, w))))) K"
    if ok1: "node_ok w0 (held G c) (insert p H) D w1" for w1 c sm1
  proof (rule wlp_bind, rule globalmq_pop_held [OF ok1], rule wlp_case_pair, rule wlp_bind)
    fix r w2
    assume ok2: "node_ok w0 (held G c) (insert p H \<union> qset r) D w2" and r: "qset r \<inter> insert p H = {}"
    let ?R = "\<lambda>a. wlp (case a of (q, w) \<Rightarrow> skynet_context_release X w c \<bind> (\<lambda>(ret, w). Some (Some q, sm1, w))) K"
    show "wlp (case r of None \<Rightarrow> Some (p, w2) | Some nq \<Rightarrow> skynet_globalmq_push w2 p \<bind> (\<lambda>w. Some (nq, w))) ?R"
    proof (cases r)
      case None
      with ok2 p release [of c p w2 sm1] show ?thesis by (simp add: wlp_Some)
    next
      case (Some nq)
      with ok2 r have *: "node_ok w0 (held G c) (insert p (insert nq H)) D w2" "nq \<notin> H" "nq \<noteq> p"
        by (auto simp: insert_commute)
      with p have "insert p (insert nq H) - {p} = H \<union> qset (Some nq)" by auto
      with globalmq_push_ok [OF *(1) insertI1] have push: "wlp (skynet_globalmq_push w2 p)
          (\<lambda>w'. node_ok w0 (held G c) (H \<union> qset (Some nq)) D w' \<and> mq_same w2 w')" by simp
      have "wlp (skynet_globalmq_push w2 p \<bind> (\<lambda>w. Some (nq, w))) ?R"
        by (rule wlp_bind, rule wlp_mono [OF push], rule wlp_Some, rule wlp_case_pair, rule release)
          (use *(2) in auto)
      with Some show ?thesis by simp
    qed
  qed
  have loop: "wlp (dispatch_loop X c p h weight 0 1 sm w1) R"
    if ok1: "node_ok w0 (held G c) (insert p H) D w1" and own: "owned w1 c p"
      and R: "\<And>sm' w'. node_ok w0 (held G c) H D w' \<Longrightarrow> R (True, sm', w')"
        "\<And>sm' w'. node_ok w0 (held G c) (insert p H) D w' \<Longrightarrow> R (False, sm', w')" for c h w1 R
    by (rule dispatch_loop_ok [OF X ok1 insertI1 own]) (use p R in auto)
  have ifs: "wlp m Q \<Longrightarrow> wlp (if True then m else n) Q" "wlp n Q \<Longrightarrow> wlp (if False then m else n) Q"
    for m n :: "(qid option \<times> skynet_monitor \<times> world) option" and Q by simp_all
  show ?thesis
    unfolding dispatch_queue_def
    by (rule empt full drop ifs wlp_case_pair wlp_case_Some wlp_case_None wlp_bind wlp_assert wlp_Let grab loop wlp_any |
        assumption)+
qed

lemma message_dispatch_ok:
  assumes X: "services_ok X" and ok: "node_ok w0 G (H \<union> qset q) D w" and q: "qset q \<inter> H = {}"
    and cur: "handles_current w"
  shows "wlp (skynet_context_message_dispatch X sm q weight w)
    (\<lambda>(q', sm', w'). node_ok w0 G (H \<union> qset q') D w' \<and> qset q' \<inter> H = {})"
proof -
  let ?K = "\<lambda>(q', sm', w'). node_ok w0 G (H \<union> qset q') D w' \<and> qset q' \<inter> H = {}"
  have have_queue: "wlp (dispatch_queue X sm p weight w1) ?K"
    if "node_ok w0 G (insert p H) D w1" "p \<notin> H" "handles_current w1" for p w1
    by (rule dispatch_queue_ok [OF X that]) simp
  show ?thesis
  proof (cases q)
    case (Some p)
    with have_queue [of p w] ok q cur show ?thesis by (simp add: skynet_context_message_dispatch_def)
  next
    case None
    with ok have ok0: "node_ok w0 G H D w" by simp
    have "wlp (skynet_globalmq_pop w \<bind> (\<lambda>(q, w). case q of None \<Rightarrow> Some (None, sm, w)
        | Some p \<Rightarrow> dispatch_queue X sm p weight w)) ?K"
    proof (rule wlp_bind, rule globalmq_pop_held [OF ok0], rule wlp_case_pair)
      fix r w'
      assume r: "node_ok w0 G (H \<union> qset r) D w'" "qset r \<inter> H = {}" "mq_same w w'"
      show "wlp (case r of None \<Rightarrow> Some (None, sm, w') | Some p \<Rightarrow> dispatch_queue X sm p weight w') ?K"
      proof (cases r)
        case None
        with r show ?thesis by (simp add: wlp_def)
      next
        case (Some p)
        with r have_queue [of p w'] handles_current_same [OF r(3) cur] show ?thesis by simp
      qed
    qed
    with None show ?thesis by (simp add: skynet_context_message_dispatch_def)
  qed
qed

subsection \<open>Commands\<close>

lemma set_result_ok:
  assumes ok: "node_ok w0 G H D w"
  shows "wlp (set_result w c s) (\<lambda>(r, w'). node_ok w0 G H D w')"
  unfolding set_result_def
  by (rule wlp_rules wlp_mono [OF upd_ctx_ok] ok wlp_any | assumption | simp; fail)+

lemma handle_exit_ok:
  assumes X: "services_ok X" and ok: "node_ok w0 G H D w"
  shows "wlp (handle_exit X w c h) (node_ok w0 G H D)"
  unfolding handle_exit_def
  by (rule wlp_rules wlp_mono [OF error_ok [OF X]] wlp_pair [OF send_ok [OF X]] wlp_pair [OF handle_retire_ok [OF X]]
      ok wlp_any | assumption)+

lemma tohandle_ok:
  assumes X: "services_ok X" and ok: "node_ok w0 G H D w"
  shows "wlp (tohandle X w c s) (\<lambda>(r, w'). node_ok w0 G H D w')"
  unfolding tohandle_def
  by (rule wlp_rules wlp_mono [OF error_ok [OF X]] ok wlp_any | assumption)+

lemma namehandle_wlp:
  assumes ok: "node_ok w0 G H D w"
  shows "wlp (skynet_handle_namehandle (w_hs w) h nm \<bind> (\<lambda>(r, hs). Some (r, w\<lparr>w_hs := hs\<rparr>)))
    (\<lambda>(r, w'). node_ok w0 G H D w')"
  using namehandle_ok [OF ok] by (auto simp: wlp_def bind_eq_Some_conv)

lemma with_service_ok:
  assumes X: "services_ok X" and ok: "node_ok w0 G H D w"
    and f: "\<And>w G h d s. node_ok w0 G H D w \<Longrightarrow> wlp (f w h d s) (node_ok w0 G H D)"
  shows "wlp (with_service X w c param f) (\<lambda>(r, w'). node_ok w0 G H D w')"
  unfolding with_service_def
  by (rule wlp_rules wlp_pair [OF tohandle_ok [OF X]] handle_grab_cases wlp_mono [OF f] context_release_ok [OF X]
      ok wlp_any | assumption)+

lemmas cmd_rules = wlp_rules wlp_pair [OF newsession_ok] namehandle_wlp set_result_ok upd_ctx_ok

lemma cmd_timeout_ok:
  assumes X: "services_ok X" and ok: "node_ok w0 G H D w"
  shows "wlp (cmd_timeout X w c param) (\<lambda>(r, w'). node_ok w0 G H D w')"
  unfolding cmd_timeout_def
  by (rule cmd_rules wlp_pair [OF context_push_ok [OF X]] node_ok_frame ok wlp_any | assumption)+

lemma cmd_names_ok:
  assumes X: "services_ok X" and ok: "node_ok w0 G H D w"
  shows "wlp (cmd_reg X w c param) (\<lambda>(r, w'). node_ok w0 G H D w')"
    "wlp (cmd_query X w c param) (\<lambda>(r, w'). node_ok w0 G H D w')"
    "wlp (cmd_name X w c param) (\<lambda>(r, w'). node_ok w0 G H D w')"
  unfolding cmd_reg_def cmd_query_def cmd_name_def
  by (rule namehandle_wlp set_result_ok wlp_rules wlp_mono [OF error_ok [OF X]] ok wlp_any | assumption)+

lemma cmd_life_ok:
  assumes X: "services_ok X" and ok: "node_ok w0 G H D w"
  shows "wlp (cmd_exit X w c param) (\<lambda>(r, w'). node_ok w0 G H D w')"
    "wlp (cmd_kill X w c param) (\<lambda>(r, w'). node_ok w0 G H D w')"
    "wlp (cmd_launch X w c param) (\<lambda>(r, w'). node_ok w0 G H D w')"
    "wlp (cmd_abort X w c param) (\<lambda>(r, w'). node_ok w0 G H D w')"
  unfolding cmd_exit_def cmd_kill_def cmd_launch_def cmd_abort_def
  by (rule set_result_ok wlp_rules wlp_mono [OF handle_exit_ok [OF X]] wlp_pair [OF tohandle_ok [OF X]]
      wlp_pair [OF context_new_ok [OF X]] wlp_mono [OF retireall_ok [OF X]] ok wlp_any | assumption)+

lemma setenv_ok: "node_ok w0 G H D w \<Longrightarrow> wlp (skynet_setenv w k v) (node_ok w0 G H D)"
  unfolding skynet_setenv_def by (rule wlp_rules node_ok_frame | assumption)+

lemma cmd_node_ok:
  assumes X: "services_ok X" and ok: "node_ok w0 G H D w"
  shows "wlp (cmd_getenv X w c param) (\<lambda>(r, w'). node_ok w0 G H D w')"
    "wlp (cmd_setenv X w c param) (\<lambda>(r, w'). node_ok w0 G H D w')"
    "wlp (cmd_starttime X w c param) (\<lambda>(r, w'). node_ok w0 G H D w')"
    "wlp (cmd_mqlen X w c param) (\<lambda>(r, w'). node_ok w0 G H D w')"
  unfolding cmd_getenv_def cmd_setenv_def cmd_starttime_def cmd_mqlen_def
  by (rule set_result_ok wlp_rules wlp_mono [OF setenv_ok] ok wlp_any | assumption)+

lemma cmd_endless_ok:
  assumes ok: "node_ok w0 G H D w"
  shows "wlp (cmd_endless X w c param) (\<lambda>(r, w'). node_ok w0 G H D w')"
  unfolding cmd_endless_def
  by (rule wlp_rules wlp_pair [OF set_result_ok] wlp_mono [OF upd_ctx_ok] ok wlp_any | assumption | simp; fail)+

lemma cmd_monitor_ok:
  assumes X: "services_ok X" and ok: "node_ok w0 G H D w"
  shows "wlp (cmd_monitor X w c param) (\<lambda>(r, w'). node_ok w0 G H D w')"
proof -
  have set: "wlp (tohandle X w c s \<bind> (\<lambda>(h, w). Some (None, w\<lparr>w_monitor_exit := h\<rparr>))) (\<lambda>(r, w'). node_ok w0 G H D w')" for s
    by (rule wlp_rules wlp_pair [OF tohandle_ok [OF X]] node_ok_frame ok | assumption)+
  have get: "wlp (if w_monitor_exit w \<noteq> 0 then set_result w c ('':'' @ print_x (w_monitor_exit w))
      else Some (None, w)) (\<lambda>(r, w'). node_ok w0 G H D w')"
    by (rule set_result_ok wlp_rules ok)+
  consider "param = None" | "param = Some []" | ch s where "param = Some (ch # s)"
    by (metis list.exhaust option.exhaust)
  then show ?thesis by cases (use set get in \<open>simp_all only: cmd_monitor_def option.case list.case\<close>)
qed

lemma cmd_service_ok:
  assumes X: "services_ok X" and ok: "node_ok w0 G H D w"
  shows "wlp (cmd_logon X w c param) (\<lambda>(r, w'). node_ok w0 G H D w')"
    "wlp (cmd_logoff X w c param) (\<lambda>(r, w'). node_ok w0 G H D w')"
    "wlp (cmd_signal X w c param) (\<lambda>(r, w'). node_ok w0 G H D w')"
  unfolding cmd_logon_def cmd_logoff_def cmd_signal_def
  by (rule with_service_ok [OF X ok] wlp_rules wlp_pair [OF log_open_ok [OF X]] wlp_mono [OF upd_ctx_ok] fclose_ok
      log_close_ok [OF X] instance_ok(4) [OF X] wlp_any | assumption | simp; fail)+

lemmas cmd_oks = cmd_timeout_ok cmd_names_ok cmd_life_ok cmd_node_ok cmd_endless_ok cmd_monitor_ok cmd_service_ok

lemma command_ok:
  assumes X: "services_ok X" and ok: "node_ok w0 G H D w"
  shows "wlp (skynet_command X w c cmd param) (\<lambda>(r, w'). node_ok w0 G H D w')"
  unfolding skynet_command_def cmd_funcs_def command_loop.simps
  by (rule wlp_if cmd_timeout_ok [OF X ok] cmd_names_ok [OF X ok] cmd_life_ok [OF X ok] cmd_node_ok [OF X ok]
      cmd_endless_ok [OF ok] cmd_monitor_ok [OF X ok] cmd_service_ok [OF X ok] wlp_Some_pair ok)+

end
