(* ===== verification/Nodesteps.thy ===== *)
theory Nodesteps
  imports Nodesafe
begin

text \<open>
  The reachable states of a node: the steps of its threads in any order, from the state
  that \<open>skynet_start\<close> sets up; and a class of services, those that act through the calls
  of the engine, for which the assumption on services is proved.
\<close>

subsection \<open>The other threads\<close>

lemma monitor_check_ok:
  assumes X: "services_ok X" and ok: "node_ok w0 G H D w"
  shows "wlp (skynet_monitor_check X sm w) (\<lambda>(sm', w'). node_ok w0 G H D w')"
  unfolding skynet_monitor_check_def
  by (rule wlp_rules wlp_mono [OF context_endless_ok [OF X]] wlp_mono [OF error_ok [OF X]] ok | assumption)+

lemma check_monitors_ok:
  assumes X: "services_ok X" and ok: "node_ok w0 G H D w"
  shows "wlp (check_monitors X sms w) (\<lambda>(sms', w'). node_ok w0 G H D w')"
  using ok
proof (induction sms arbitrary: w)
  case Nil
  then show ?case by (simp add: wlp_def)
next
  case (Cons sm sms)
  show ?case
    unfolding check_monitors.simps
    by (rule wlp_rules wlp_pair [OF monitor_check_ok [OF X Cons.prems]] wlp_pair [OF Cons.IH] | assumption)+
qed

lemma push_timeouts_ok:
  assumes X: "services_ok X" and ok: "node_ok w0 G H D w"
  shows "wlp (push_timeouts X w ms) (node_ok w0 G H D)"
  using ok
proof (induction ms arbitrary: w)
  case Nil
  then show ?case by (simp add: wlp_def)
next
  case (Cons m ms)
  obtain h msg where m: "m = (h, msg)" by (cases m)
  show ?case
    unfolding m push_timeouts.simps
    by (rule wlp_rules wlp_pair [OF context_push_ok [OF X Cons.prems]] Cons.IH | assumption)+
qed

lemma timer_turn_ok:
  assumes X: "services_ok X" and ok: "node_ok w0 G H D w"
  shows "wlp (timer_turn X w cp hup) (\<lambda>(r, w'). node_ok w0 G H D w')"
  unfolding timer_turn_def node_updatetime_def signal_hup_def
  by (rule wlp_rules wlp_mono [OF error_ok [OF X]] wlp_mono [OF push_timeouts_ok [OF X]]
      wlp_pair [OF context_push_ok [OF X]] node_ok_frame ok wlp_any | assumption)+

text \<open>The harbor holds a reference of its own to its service, which the node does not count.\<close>

lemma harbor_start_ok:
  assumes ok: "node_ok w0 G H D w" and free: "w_REMOTE w = None" and c: "c \<notin> D"
  shows "wlp (skynet_harbor_start w c) (node_ok w0 G H D)"
proof (rule wlp_any)
  fix w'
  assume start: "skynet_harbor_start w c = Some w'"
  then obtain x where x: "w_ctxs w c = Some x" and w': "w' = (set_ctx w c (x\<lparr>ctx_ref := ctx_ref x + 1\<rparr>))
      \<lparr>w_total := w_total w - 1, w_REMOTE := Some c\<rparr>"
    by (auto simp: skynet_harbor_start_def skynet_context_reserve_def skynet_context_grab_def upd_ctx_def bind_eq_Some_conv)
  from ok have inv: "node_inv w G H D" and ev: "evolves w0 w" by (simp_all add: node_ok_def)
  have eqs: "w_hs w' = w_hs w" "w_ctxs w' = (w_ctxs w)(c \<mapsto> x\<lparr>ctx_ref := ctx_ref x + 1\<rparr>)" "w_brk w' = w_brk w"
    "w_total w' = w_total w - 1" "w_REMOTE w' = Some c" "mq_tags w' = mq_tags w"
    by (simp_all add: w' mq_tags_def fun_eq_iff set_ctx_def)
  have refs: "ctx_refs w' G d = ctx_refs w G d + (if d = c then 1 else 0)" for d
    by (simp add: ctx_refs_def eqs free)
  have own: "owns_queue w' y = owns_queue w y" for y by (simp add: owns_queue_def eqs)
  from node_invD(3) [OF inv] obtain ps where "sched_inv_at ps (w, H)" by blast
  then have "sched_inv_at ps (w', H)" by (simp add: w' sched_inv_at_def gq_abs_def set_ctx_def)
  then have "node_inv w' G H D"
  proof (rule node_invI)
    have hof: "w_hof w' = w_hof w" using x by (simp add: fun_eq_iff w_hof_def eqs)
    show "slots_wf (w_hof w') (w_hs w')" "names_wf (w_hs w')" using node_invD(1,2) [OF inv] by (simp_all add: hof eqs)
    show "w_ctxs w' d \<noteq> None" if "Some d \<in> set (hs_slot (w_hs w')) \<or> w_REMOTE w' = Some d \<or> 0 < G d \<or> d \<in> D" for d
      using that node_invD(4) [OF inv, of d] by (cases "d = c") (auto simp: eqs)
    show "d < w_brk w' \<and> ctx_ref y = ctx_refs w' G d \<and> (d \<in> D \<longleftrightarrow> ctx_refs w' G d = 0) \<and> owns_queue w' y"
      if y: "w_ctxs w' d = Some y" for d y
    proof (cases "d = c")
      case True
      with y have "y = x\<lparr>ctx_ref := ctx_ref x + 1\<rparr>" by (simp add: eqs)
      with True node_invD(5-8) [OF inv x] refs_nonneg [of w G c] c show ?thesis
        by (simp add: eqs(3) refs own) (simp add: owns_queue_def)
    next
      case False
      with y have y: "w_ctxs w d = Some y" by (simp add: eqs)
      with False node_invD(5-8) [OF inv y] show ?thesis by (simp add: eqs(3) refs own)
    qed
    show "d = e" if "w_ctxs w' d = Some u" "w_ctxs w' e = Some v" "ctx_queue u = ctx_queue v" for d e u v
    proof -
      have "\<exists>z. w_ctxs w d = Some z \<and> ctx_queue z = ctx_queue u" "\<exists>z. w_ctxs w e = Some z \<and> ctx_queue z = ctx_queue v"
        using that x by (auto simp: eqs split: if_splits)
      with that(3) node_invD(9) [OF inv] show ?thesis by fastforce
    qed
    show "p < w_brk w' \<and> (snd t = 0 \<longrightarrow> (\<exists>d z. w_ctxs w' d = Some z \<and> ctx_queue z = Some p))"
      if "mq_tags w' p = Some t" for p t
    proof -
      from that have t: "mq_tags w p = Some t" by (simp add: eqs)
      have "\<exists>d z. w_ctxs w' d = Some z \<and> ctx_queue z = Some p" if "snd t = 0"
      proof -
        from node_invD(11) [OF inv t that] obtain d z where z: "w_ctxs w d = Some z" "ctx_queue z = Some p" by blast
        show ?thesis
        proof (cases "d = c")
          case True
          with z x have "ctx_queue (x\<lparr>ctx_ref := ctx_ref x + 1\<rparr>) = Some p" by simp
          with True eqs(2) show ?thesis by auto
        next
          case False
          with z eqs(2) show ?thesis by auto
        qed
      qed
      with node_invD(10) [OF inv t] show ?thesis by (simp add: eqs(3))
    qed
    have "dom (w_ctxs w') = dom (w_ctxs w)" using x by (auto simp: eqs)
    then show "w_total w' = int (card (dom (w_ctxs w'))) - (if w_REMOTE w' = None then 0 else 1)"
      using node_invD(12) [OF inv] free by (simp add: eqs(4,5))
  qed
  moreover have "evolves w0 w'"
  proof -
    have "evolves w0 (set_ctx w c (x\<lparr>ctx_ref := ctx_ref x + 1\<rparr>))" by (rule evolves_set_ctx [OF ev x]) simp_all
    then show ?thesis by (rule evolves_cong) (simp_all add: eqs)
  qed
  ultimately show "node_ok w0 G H D w'" by (simp add: node_ok_def)
qed

subsection \<open>Services that act through the engine\<close>

text \<open>
  A scripted service: for a message, the list of calls its callback makes, and whether it
  keeps the payload.  The functions of a module call the engine, which calls the
  functions of modules: \<open>script_ext\<close> gives the nesting depth up to which these calls go.
\<close>

datatype service_call =
    CallSend u32 u32 int "nat option" u64
  | CallSendname string u32 int "nat option" u64
  | CallCommand string "string option"
  | CallCallback "nat option" "nat option"

fun run_call :: "ext \<Rightarrow> ctx_id \<Rightarrow> service_call \<Rightarrow> world \<Rightarrow> world option" where
  "run_call X c (CallSend dst type session data sz) w =
     map_option snd (skynet_send X w (Some c) 0 dst type session data sz)"
| "run_call X c (CallSendname addr type session data sz) w =
     map_option snd (skynet_sendname X w (Some c) 0 addr type session data sz)"
| "run_call X c (CallCommand cmd param) w = map_option snd (skynet_command X w c cmd param)"
| "run_call X c (CallCallback ud cb) w = skynet_callback w c ud cb"

fun run_calls :: "ext \<Rightarrow> ctx_id \<Rightarrow> service_call list \<Rightarrow> world \<Rightarrow> world option" where
  "run_calls X c [] w = Some w"
| "run_calls X c (call # calls) w = do { w \<leftarrow> run_call X c call w; run_calls X c calls w }"

record script =
  sc_libs :: "string \<Rightarrow> nat option"
  sc_syms :: "nat \<Rightarrow> string \<Rightarrow> nat option"
  sc_init :: "nat \<Rightarrow> string option \<Rightarrow> int \<times> service_call list"
  sc_cb :: "nat \<Rightarrow> nat \<Rightarrow> int \<Rightarrow> u32 \<Rightarrow> nat option \<Rightarrow> nat \<Rightarrow> int \<times> service_call list"

fun script_ext :: "script \<Rightarrow> nat \<Rightarrow> ext" where
  "script_ext S n = \<lparr>x_dlopen = sc_libs S, x_dlsym = sc_syms S,
     x_create = (\<lambda>f w. Some (Some (int f), w)),
     x_init = (\<lambda>f i c s w. case n of 0 \<Rightarrow> None | Suc m \<Rightarrow>
       (let (r, calls) = sc_init S f s in do { w \<leftarrow> run_calls (script_ext S m) c calls w; Some (r, w) })),
     x_release = (\<lambda>f i w. Some w), x_signal = (\<lambda>f i sig w. Some w),
     x_cb = (\<lambda>f c ud type session source data sz w. case n of 0 \<Rightarrow> None | Suc m \<Rightarrow>
       (let (r, calls) = sc_cb S f type session source data sz in do {
          w \<leftarrow> run_calls (script_ext S m) c calls w; Some (r, w) })),
     x_fopen = (\<lambda>s. True), x_gettimeofday = (0, 0), x_ctime = (\<lambda>t. []), x_raw = (\<lambda>b. [])\<rparr>"

declare script_ext.simps [simp del]

lemma run_calls_ok:
  assumes X: "services_ok X" and ok: "node_ok w0 G H D w"
  shows "wlp (run_calls X c calls w) (node_ok w0 G H D)"
  using ok
proof (induction calls arbitrary: w)
  case Nil
  then show ?case by (simp add: wlp_def)
next
  case (Cons call calls)
  have "wlp (run_call X c call w) (node_ok w0 G H D)"
  proof (cases call)
    case (CallSend dst type session data sz)
    with send_ok [OF X Cons.prems] show ?thesis by (fastforce simp: wlp_def)
  next
    case (CallSendname addr type session data sz)
    with sendname_ok [OF X Cons.prems] show ?thesis by (fastforce simp: wlp_def)
  next
    case (CallCommand cmd param)
    with command_ok [OF X Cons.prems] show ?thesis by (fastforce simp: wlp_def)
  next
    case (CallCallback ud cb)
    then show ?thesis unfolding run_call.simps CallCallback skynet_callback_def
      by (intro upd_ctx_ok [OF Cons.prems]) simp_all
  qed
  then show ?case unfolding run_calls.simps by (intro wlp_bind) (erule wlp_mono, rule Cons.IH)
qed

lemma script_services_ok: "services_ok (script_ext S n)"
proof (induction n)
  case 0
  show ?case unfolding services_ok_def
    by (subst (1 2 3 4 5) script_ext.simps) (simp add: wlp_def node_ok_refl)
next
  case (Suc n)
  have calls: "wlp (do { w \<leftarrow> run_calls (script_ext S n) c calls w; Some (r, w) }) (\<lambda>p. node_ok w G H D (snd p))"
    if "node_inv w G H D" for w G H D c calls and r :: int
    using run_calls_ok [OF Suc node_ok_refl [OF that], of c calls] by (auto simp: wlp_def bind_eq_Some_conv)
  show ?case unfolding services_ok_def
    by (subst (1 2 3 4 5) script_ext.simps) (auto simp: wlp_Some node_ok_refl Let_def case_prod_unfold intro: calls)
qed

subsection \<open>Steps and reachable states\<close>

text \<open>
  A state is the world and the set of queues that the worker threads hold between two
  turns.  Any number of workers, the timer thread, the monitor thread, the socket thread
  (which pushes messages) and calls of the engine in the name of a service, in any order.
  The guard of \<open>worker\<close> says that no handle has been given out again before the queue of
  its former owner is drained; the registry hands out 2^24 handles before it repeats one.
\<close>

inductive node_step :: "ext \<Rightarrow> world \<times> qid set \<Rightarrow> world \<times> qid set \<Rightarrow> bool" for X where
  worker: "qset q \<subseteq> H \<Longrightarrow> handles_current w \<Longrightarrow> worker_turn X i sm q w = Some (sleeps, q', sm', w') \<Longrightarrow>
    node_step X (w, H) (w', (H - qset q) \<union> qset q')"
| timer: "timer_turn X w cp hup = Some (goes_on, w') \<Longrightarrow> node_step X (w, H) (w', H)"
| monitor: "check_monitors X sms w = Some (sms', w') \<Longrightarrow> node_step X (w, H) (w', H)"
| push: "skynet_context_push X w h m = Some (r, w') \<Longrightarrow> node_step X (w, H) (w', H)"
| launch: "skynet_context_new X w nm param = Some (ret, w') \<Longrightarrow> node_step X (w, H) (w', H)"
| send: "skynet_send X w (Some c) src dst type session data sz = Some (r, w') \<Longrightarrow> node_step X (w, H) (w', H)"
| sendname: "skynet_sendname X w (Some c) src addr type session data sz = Some (r, w') \<Longrightarrow>
    node_step X (w, H) (w', H)"
| command: "skynet_command X w c cmd param = Some (s, w') \<Longrightarrow> node_step X (w, H) (w', H)"
| harbor: "w_REMOTE w = None \<Longrightarrow> skynet_harbor_start w c = Some w' \<Longrightarrow> node_step X (w, H) (w', H)"

inductive node_reachable :: "ext \<Rightarrow> world \<times> qid set \<Rightarrow> bool" for X where
  start: "node_reachable X (start_init (skynet_globalinit world_zero) harbor path realtime monotonic, {})"
| step: "node_reachable X s \<Longrightarrow> node_step X s s' \<Longrightarrow> node_reachable X s'"

definition rest_inv :: "world \<times> qid set \<Rightarrow> bool" where
  "rest_inv s \<longleftrightarrow> (case s of (w, H) \<Rightarrow> node_inv w (\<lambda>_. 0) H {})"

lemma init_names_wf: "names_wf (skynet_handle_init harbor)"
  using registry_init_wf [of harbor] by (simp add: registry_wf_def registry_init_def)

lemma start_inv:
  "rest_inv (start_init (skynet_globalinit world_zero) harbor path realtime monotonic, {})"
proof -
  let ?w = "start_init (skynet_globalinit world_zero) harbor path realtime monotonic"
  have eqs: "mqs ?w = (\<lambda>_. None)" "gq_head ?w = None" "gq_tail ?w = None" "w_hs ?w = skynet_handle_init harbor"
    "w_ctxs ?w = (\<lambda>_. None)" "w_REMOTE ?w = None" "w_total ?w = 0"
    by (simp_all add: start_init_def skynet_globalinit_def skynet_initthread_def world_zero_def skynet_harbor_init_def
        skynet_mq_init_def)
  have "sched_inv_at [] (?w, {})" by (simp add: sched_inv_at_def gq_abs_def eqs)
  moreover have "Some c \<notin> set (hs_slot (skynet_handle_init harbor))" for c
    by (simp add: skynet_handle_init_def)
  ultimately have "node_inv ?w (\<lambda>_. 0) {} {}"
    by (intro node_invI) (simp_all add: eqs init_slots_wf init_names_wf mq_tags_def)
  then show ?thesis by (simp add: rest_inv_def)
qed

lemma node_step_inv:
  assumes X: "services_ok X" and step: "node_step X s s'" and inv: "rest_inv s"
  shows "rest_inv s'"
proof -
  let ?G = "\<lambda>_. 0 :: nat"
  have keep: "rest_inv (w', H)" if "node_ok w ?G H {} w'" for w w' H
    using that by (simp add: rest_inv_def node_ok_def)
  from step inv show ?thesis
  proof induction
    case (worker q H w i sm sleeps q' sm' w')
    from worker(4) have ok: "node_ok w ?G ((H - qset q) \<union> qset q) {} w"
      using worker(1) by (simp add: rest_inv_def Un_absorb2 node_ok_refl)
    from worker(3) have "skynet_context_message_dispatch X sm q (worker_weight i) w = Some (q', sm', w')"
      by (auto simp: worker_turn_def bind_eq_Some_conv)
    from wlpD [OF message_dispatch_ok [OF X ok _ worker(2)] this] show ?case
      by (auto simp: rest_inv_def node_ok_def)
  next
    case (timer w cp hup goes_on w' H)
    then have ok: "node_ok w ?G H {} w" by (simp add: rest_inv_def node_ok_refl)
    from wlpD [OF timer_turn_ok [OF X ok] timer(1)] keep show ?case by simp
  next
    case (monitor sms w sms' w' H)
    then have ok: "node_ok w ?G H {} w" by (simp add: rest_inv_def node_ok_refl)
    from wlpD [OF check_monitors_ok [OF X ok] monitor(1)] keep show ?case by simp
  next
    case (push w h m r w' H)
    then have ok: "node_ok w ?G H {} w" by (simp add: rest_inv_def node_ok_refl)
    from wlpD [OF context_push_ok [OF X ok] push(1)] keep show ?case by simp
  next
    case (launch w nm param ret w' H)
    then have ok: "node_ok w ?G H {} w" by (simp add: rest_inv_def node_ok_refl)
    from wlpD [OF context_new_ok [OF X ok] launch(1)] keep show ?case by simp
  next
    case (send w c src dst type session data sz r w' H)
    then have ok: "node_ok w ?G H {} w" by (simp add: rest_inv_def node_ok_refl)
    from wlpD [OF send_ok [OF X ok] send(1)] keep show ?case by simp
  next
    case (sendname w c src addr type session data sz r w' H)
    then have ok: "node_ok w ?G H {} w" by (simp add: rest_inv_def node_ok_refl)
    from wlpD [OF sendname_ok [OF X ok] sendname(1)] keep show ?case by simp
  next
    case (command w c cmd param s w' H)
    then have ok: "node_ok w ?G H {} w" by (simp add: rest_inv_def node_ok_refl)
    from wlpD [OF command_ok [OF X ok] command(1)] keep show ?case by simp
  next
    case (harbor w c w' H)
    then have ok: "node_ok w ?G H {} w" by (simp add: rest_inv_def node_ok_refl)
    from wlpD [OF harbor_start_ok [OF ok harbor(1)] harbor(2)] keep show ?case by simp
  qed
qed

lemma node_reachable_inv:
  assumes "services_ok X" "node_reachable X s"
  shows "rest_inv s"
  using assms(2) by (induction rule: node_reachable.induct) (auto intro: start_inv node_step_inv [OF assms(1)])

subsection \<open>An example\<close>

text \<open>One module, \<open>echo\<close>, whose service takes the name \<open>.echo\<close> and answers every message.\<close>

definition echo_script :: script where
  "echo_script = \<lparr>sc_libs = (\<lambda>s. if s = ''echo.so'' then Some 1 else None),
     sc_syms = (\<lambda>d s. if s = ''echo_init'' then Some 2 else None),
     sc_init = (\<lambda>f s. (0, [CallCallback None (Some 3), CallCommand ''REG'' (Some ''.echo'')])),
     sc_cb = (\<lambda>f type session source data sz. (0, [CallSend source 1 session None 0]))\<rparr>"

definition echo_ext :: ext where
  "echo_ext = script_ext echo_script 2"

definition echo_world :: world where
  "echo_world = snd (the (skynet_context_new echo_ext
     (start_init (skynet_globalinit world_zero) 1 ''?.so'' (0, 0) (0, 0)) ''echo'' None))"

lemma echo_services_ok: "services_ok echo_ext"
  by (simp add: echo_ext_def script_services_ok)

lemma echo_started:
  "(case skynet_context_new echo_ext (start_init (skynet_globalinit world_zero) 1 ''?.so'' (0, 0) (0, 0)) ''echo'' None of
      None \<Rightarrow> False
    | Some (r, w) \<Rightarrow> r = Some 1 \<and> handle_live (w_hof w) (w_hs w) 0x1000001 = Some 1)"
  by code_simp

lemma echo_reachable: "node_reachable echo_ext (echo_world, {})"
proof -
  let ?w = "start_init (skynet_globalinit world_zero) 1 ''?.so'' (0, 0) (0, 0)"
  from echo_started obtain r w where "skynet_context_new echo_ext ?w ''echo'' None = Some (r, w)"
    by (auto split: option.splits)
  then have "skynet_context_new echo_ext ?w ''echo'' None = Some (r, echo_world)" by (simp add: echo_world_def)
  from node_reachable.step [OF node_reachable.start node_step.launch [OF this]] show ?thesis .
qed

lemma echo_live: "handle_live (w_hof echo_world) (w_hs echo_world) 0x1000001 = Some 1"
  using echo_started by (auto simp: echo_world_def split: option.splits)

end
