(* ===== verification/Nodeprops.thy ===== *)
theory Nodeprops
  imports Nodesteps
begin

text \<open>
  The properties of the server: the invariant of the reachable states of a node, the exact
  effect of sending, the text form of handles, session numbers and the detection of
  services that do not return.
\<close>

subsection \<open>The exact effect of a push to a live service\<close>

text \<open>Queue operations do not read the contexts.\<close>

lemma globalmq_push_ctxs:
  "skynet_globalmq_push (w\<lparr>w_ctxs := C\<rparr>) p = map_option (\<lambda>w'. w'\<lparr>w_ctxs := C\<rparr>) (skynet_globalmq_push w p)"
  by (cases "mqs w p"; cases "gq_tail w"; cases "mqs w (the (gq_tail w))")
    (auto simp: skynet_globalmq_push_def set_mq_def c_assert_def)

lemma mq_push_ctxs:
  "skynet_mq_push (w\<lparr>w_ctxs := C\<rparr>) p m = map_option (\<lambda>w'. w'\<lparr>w_ctxs := C\<rparr>) (skynet_mq_push w p m)"
proof (cases "mqs w p")
  case (Some q)
  have set: "set_mq (w\<lparr>w_ctxs := C\<rparr>) p q' = (set_mq w p q')\<lparr>w_ctxs := C\<rparr>" for q' by (simp add: set_mq_def)
  show ?thesis
    by (cases "mq_ring_push q m") (simp_all add: Some skynet_mq_push_def set globalmq_push_ctxs)
qed (simp add: skynet_mq_push_def)

text \<open>Taking and giving up a reference cancel out.\<close>

lemma grab_live_ctx:
  assumes inv: "node_inv w G H D" and live: "handle_live (w_hof w) (w_hs w) h = Some c"
    and x: "w_ctxs w c = Some x"
  shows "handle_grab w h = Some (Some c, set_ctx w c (x\<lparr>ctx_ref := ctx_ref x + 1\<rparr>))"
  using grab_live [OF node_invD(1) [OF inv], of h] live x
  by (simp add: handle_grab_def skynet_context_grab_def upd_ctx_def)

lemma release_live_ctx:
  assumes inv: "node_inv w G H D" and live: "handle_live (w_hof w) (w_hs w) h = Some c"
    and x: "w_ctxs w c = Some x" and w': "w_ctxs w' c = Some (y\<lparr>ctx_ref := ctx_ref x + 1\<rparr>)"
    and y: "ctx_ref y = ctx_ref x"
  shows "skynet_context_release X w' c = Some (Some c, set_ctx w' c y)"
proof -
  have "ctx_ref x \<noteq> 0"
    using node_invD(6,7) [OF inv x] live_ctx(2) [OF inv live] by simp
  then have "ctx_ref y \<noteq> 0" using y by simp
  with w' y show ?thesis by (cases y) (simp add: skynet_context_release_def upd_ctx_def set_ctx_def)
qed

lemma context_push_live:
  assumes inv: "node_inv w G H D" and live: "handle_live (w_hof w) (w_hs w) h = Some c"
    and x: "w_ctxs w c = Some x" "ctx_queue x = Some p"
  shows "skynet_context_push X w h m = map_option (\<lambda>w'. (0, w')) (skynet_mq_push w p m)"
proof -
  let ?C = "(w_ctxs w)(c \<mapsto> x\<lparr>ctx_ref := ctx_ref x + 1\<rparr>)"
  have grab: "handle_grab w h = Some (Some c, w\<lparr>w_ctxs := ?C\<rparr>)"
    using grab_live_ctx [OF inv live x(1)] by (simp add: set_ctx_def)
  show ?thesis
  proof (cases "skynet_mq_push w p m")
    case None
    then show ?thesis using x by (simp add: skynet_context_push_def grab mq_push_ctxs)
  next
    case (Some w')
    from wlpD [OF mq_same_push Some] have "w_ctxs w' = w_ctxs w" by (auto simp: mq_same_def dest: more_fields)
    then have same: "w'\<lparr>w_ctxs := (w_ctxs w)(c \<mapsto> x)\<rparr> = w'" using x(1) by (simp add: fun_upd_idem)
    have "skynet_context_release X (w'\<lparr>w_ctxs := ?C\<rparr>) c = Some (Some c, set_ctx (w'\<lparr>w_ctxs := ?C\<rparr>) c x)"
      by (rule release_live_ctx [OF inv live x(1)]) simp_all
    moreover have "set_ctx (w'\<lparr>w_ctxs := ?C\<rparr>) c x = w'" using same by (simp add: set_ctx_def)
    ultimately show ?thesis using Some x by (simp add: skynet_context_push_def grab mq_push_ctxs)
  qed
qed

lemma context_push_dead:
  assumes inv: "node_inv w G H D" and dead: "handle_live (w_hof w) (w_hs w) h = None"
  shows "skynet_context_push X w h m = Some (- 1, w)"
  using grab_live [OF node_invD(1) [OF inv], of h] dead by (simp add: skynet_context_push_def handle_grab_def)

lemma context_endless_live:
  assumes inv: "node_inv w G H D" and live: "handle_live (w_hof w) (w_hs w) h = Some c"
    and x: "w_ctxs w c = Some x"
  shows "skynet_context_endless X w h = Some (set_ctx w c (x\<lparr>ctx_endless := True\<rparr>))"
proof -
  let ?w = "set_ctx w c ((x\<lparr>ctx_endless := True\<rparr>)\<lparr>ctx_ref := ctx_ref x + 1\<rparr>)"
  have rel: "skynet_context_release X ?w c = Some (Some c, set_ctx ?w c (x\<lparr>ctx_endless := True\<rparr>))"
    by (rule release_live_ctx [OF inv live x]) simp_all
  have upd: "upd_ctx (\<lambda>x. x\<lparr>ctx_endless := True\<rparr>) (set_ctx w c (x\<lparr>ctx_ref := ctx_ref x + 1\<rparr>)) c = Some ?w"
    by (cases x) (simp add: upd_ctx_def set_ctx_def)
  show ?thesis
    unfolding skynet_context_endless_def grab_live_ctx [OF inv live x]
    by (simp only: option.simps bind.bind_lunit prod.case upd rel) (simp add: set_ctx_def)
qed

text \<open>What a push does to the queue.\<close>

lemma mq_push_contents:
  assumes sched: "sched_inv_at ps (w, H)" and q: "mqs w p = Some q" "mq_release q = 0"
    and room: "skynet_mq_length q < mq_limit q"
  shows "\<exists>w' q' ps'. skynet_mq_push w p m = Some w' \<and> mqs w' p = Some q' \<and>
    mq_contents q' = mq_contents q @ [m] \<and> sched_inv_at ps' (w', H)"
proof -
  from sched_inv_atD(4) [OF sched q(1)] have wf: "mq_wf q" by (simp add: queue_inv_def)
  from mq_ring_push_spec [OF wf room, of m] obtain q1 where
    q1: "mq_ring_push q m = Some q1" "mq_contents q1 = mq_contents q @ [m]" by blast
  from sched_send [OF sched q room, of m] obtain w' ps' where
    w': "skynet_mq_push w p m = Some w'" "sched_inv_at ps' (w', H)" by blast
  have "\<exists>q'. mqs w' p = Some q' \<and> mq_contents q' = mq_contents q1"
  proof (cases "mq_in_global q1 = 0")
    case False
    with w' q q1 show ?thesis by (auto simp: skynet_mq_push_def set_mq_def)
  next
    case True
    let ?q = "q1\<lparr>mq_in_global := MQ_IN_GLOBAL\<rparr>"
    let ?w = "set_mq w p ?q"
    have push: "skynet_globalmq_push ?w p = Some w'" using True w' q q1 by (simp add: skynet_mq_push_def)
    have "mqs ?w p = Some ?q" by (simp add: set_mq_def)
    moreover from push have "mqs w' p = Some ?q \<or> (\<exists>n. mqs w' p = Some (?q\<lparr>mq_next := n\<rparr>))"
      by (cases "gq_tail ?w") (auto simp: skynet_globalmq_push_def set_mq_def bind_eq_Some_conv split: if_splits)
    ultimately show ?thesis by (auto simp: mq_contents_def mq_slots_def)
  qed
  with w' q1 show ?thesis by auto
qed

subsection \<open>The invariant of a node\<close>

text \<open>C2: in every reachable state of a node, whatever the threads did and in which order, a
  registered handle leads to a context that exists, that carries this handle, is referenced
  by the registry (and the harbor) alone while no thread uses it, and owns a queue with its
  handle that is not marked for release; every existing context is registered or kept by
  the harbor, so that none is lost; the count of contexts by which the threads decide to
  stop is right; and a queue that holds messages is on the global list or held by a worker.\<close>

theorem node_invariant:
  assumes "services_ok X" "node_reachable X (w, H)"
  shows "(\<forall>h c. handle_live (w_hof w) (w_hs w) h = Some c \<longrightarrow>
       (\<exists>x p q. w_ctxs w c = Some x \<and> ctx_handle x = h \<and>
          ctx_ref x = 1 + (if w_REMOTE w = Some c then 1 else 0) \<and>
          ctx_queue x = Some p \<and> mqs w p = Some q \<and> mq_handle q = h \<and> mq_release q = 0)) \<and>
    (\<forall>c x. w_ctxs w c = Some x \<longrightarrow>
       handle_live (w_hof w) (w_hs w) (ctx_handle x) = Some c \<or> w_REMOTE w = Some c) \<and>
    w_total w = int (card (dom (w_ctxs w))) - (if w_REMOTE w = None then 0 else 1) \<and>
    (\<forall>p q. mqs w p = Some q \<longrightarrow> skynet_mq_length q \<noteq> 0 \<longrightarrow> p \<in> H \<or> (\<exists>ps. gq_abs w ps \<and> p \<in> set ps))"
proof (intro conjI allI impI)
  from node_reachable_inv [OF assms] have inv: "node_inv w (\<lambda>_. 0) H {}" by (simp add: rest_inv_def)
  note live = live_iff [OF node_invD(1) [OF inv]]
  show "\<exists>x p q. w_ctxs w c = Some x \<and> ctx_handle x = h \<and> ctx_ref x = 1 + (if w_REMOTE w = Some c then 1 else 0) \<and>
      ctx_queue x = Some p \<and> mqs w p = Some q \<and> mq_handle q = h \<and> mq_release q = 0"
    if h: "handle_live (w_hof w) (w_hs w) h = Some c" for h c
  proof -
    from live_ctx [OF inv h] obtain x where x: "w_ctxs w c = Some x" "ctx_handle x = h"
      and reg: "Some c \<in> set (hs_slot (w_hs w))" by blast
    from node_invD(8) [OF inv x(1)] x(2) obtain p q where "ctx_queue x = Some p" "mqs w p = Some q"
      "mq_handle q = h" "mq_release q = 0" by (auto simp: owns_queue_def tags_Some)
    moreover have "ctx_ref x = 1 + (if w_REMOTE w = Some c then 1 else 0)"
      using node_invD(6) [OF inv x(1)] reg by (simp add: ctx_refs_def)
    ultimately show ?thesis using x by blast
  qed
  show "handle_live (w_hof w) (w_hs w) (ctx_handle x) = Some c \<or> w_REMOTE w = Some c"
    if x: "w_ctxs w c = Some x" for c x
  proof -
    have "w_hof w c = ctx_handle x" using x by (simp add: w_hof_def)
    with node_invD(7) [OF inv x] live [of "ctx_handle x" c] show ?thesis by (auto simp: ctx_refs_def split: if_splits)
  qed
  show "w_total w = int (card (dom (w_ctxs w))) - (if w_REMOTE w = None then 0 else 1)" by (rule node_invD(12) [OF inv])
  show "p \<in> H \<or> (\<exists>ps. gq_abs w ps \<and> p \<in> set ps)" if "mqs w p = Some q" "skynet_mq_length q \<noteq> 0" for p q
  proof -
    from node_invD(3) [OF inv] obtain ps where sched: "sched_inv_at ps (w, H)" by blast
    have "mq_contents q \<noteq> []" using that(2) length_mq_contents [of q] by auto
    with sched_inv_atD(1) [OF sched] sched_inv_atD(4) [OF sched that(1)] show ?thesis
      by (auto simp: queue_inv_def split: if_splits)
  qed
qed

theorem node_invariant_witness:
  "\<exists>x p q. w_ctxs echo_world 1 = Some x \<and> ctx_handle x = 0x1000001 \<and> ctx_queue x = Some p \<and> mqs echo_world p = Some q \<and>
     mq_handle q = 0x1000001 \<and> mq_release q = 0"
  using node_invariant [OF echo_services_ok echo_reachable] echo_live by blast

subsection \<open>Sending\<close>

text \<open>The high byte of the size is the type, the rest the size.\<close>

lemma size_type_decode:
  assumes "sz AND MESSAGE_TYPE_MASK = sz"
  shows "drop_bit MESSAGE_TYPE_SHIFT (sz OR type_bits (type AND 0xff)) = ucast (type AND 0xff)"
    "(sz OR type_bits (type AND 0xff)) AND MESSAGE_TYPE_MASK = sz"
proof -
  have mask: "bit MESSAGE_TYPE_MASK n \<longleftrightarrow> n < 56" for n
  proof -
    have "MESSAGE_TYPE_MASK = mask 56" by (simp add: MESSAGE_TYPE_MASK_def mask_eq_exp_minus_1)
    then have "bit MESSAGE_TYPE_MASK n \<longleftrightarrow> bit (mask 56 :: u64) n" by simp
    also have "\<dots> \<longleftrightarrow> n < 56" by (subst bit_mask_iff) auto
    finally show ?thesis .
  qed
  have byte: "bit (255 :: int) n \<longleftrightarrow> n < 8" for n
  proof -
    have "(255 :: int) = mask 8" by (simp add: mask_eq_exp_minus_1)
    then have "bit (255 :: int) n \<longleftrightarrow> bit (mask 8 :: int) n" by (rule arg_cong)
    also have "\<dots> \<longleftrightarrow> n < 8" by (subst bit_mask_iff) auto
    finally show ?thesis .
  qed
  have low: "bit sz n \<Longrightarrow> n < 56" for n using assms mask by (metis bit_and_iff)
  show "drop_bit MESSAGE_TYPE_SHIFT (sz OR type_bits (type AND 0xff)) = ucast (type AND 0xff)"
    by (rule bit_word_eqI) (auto simp: bit_simps type_bits_def MESSAGE_TYPE_SHIFT_def byte dest: low)
  show "(sz OR type_bits (type AND 0xff)) AND MESSAGE_TYPE_MASK = sz"
    by (rule bit_word_eqI) (auto simp: bit_simps type_bits_def MESSAGE_TYPE_SHIFT_def mask dest: low)
qed

text \<open>The arguments of a message whose payload is copied.\<close>

lemma filter_args_copy:
  assumes "type AND PTYPE_TAG_ALLOCSESSION = 0" "type AND PTYPE_TAG_DONTCOPY = 0"
    and "w_mem w a = Some (Bytes bs)" "unat sz \<le> length bs"
  shows "filter_args X w ctx type session (Some a) sz =
    Some (session, Some (w_brk w), sz OR type_bits (type AND 0xff),
      snd (skynet_malloc (Bytes (take (unat sz) bs @ [0])) w))"
  using assms by (simp add: filter_args_def mem_bytes_def skynet_malloc_def)

lemma malloc_fields:
  "snd (skynet_malloc b w) = w\<lparr>w_mem := (w_mem w)(w_brk w \<mapsto> b), w_brk := w_brk w + 1\<rparr>"
  by (simp add: skynet_malloc_def)

text \<open>C5: a message sent to a live service of the node is put at the end of the queue of this
  service, with the sender, the session, and the type and size that the dispatcher will
  decode; its payload is a fresh copy of the first \<open>sz\<close> bytes followed by a zero byte, the
  sender's memory is unchanged, and the queue is on the global list or held by a worker.\<close>

theorem send_delivers:
  assumes "services_ok X" "node_reachable X (w, H)"
    and "handle_live (w_hof w) (w_hs w) dst = Some d" "w_ctxs w d = Some x" "ctx_queue x = Some p"
    and "mqs w p = Some q" "skynet_mq_length q < mq_limit q"
    and "skynet_harbor_message_isremote w dst = Some False" "dst \<noteq> 0" "src \<noteq> 0"
    and "type AND PTYPE_TAG_ALLOCSESSION = 0" "type AND PTYPE_TAG_DONTCOPY = 0"
    and "w_mem w a = Some (Bytes bs)" "unat sz \<le> length bs" "sz AND MESSAGE_TYPE_MASK = sz"
  shows "\<exists>w' q' m. skynet_send X w ctx src dst type session (Some a) sz = Some (session, w') \<and>
    mqs w' p = Some q' \<and> mq_contents q' = mq_contents q @ [m] \<and>
    msg_source m = src \<and> msg_session m = session \<and> msg_data m = Some (w_brk w) \<and>
    drop_bit MESSAGE_TYPE_SHIFT (msg_sz m) = ucast (type AND 0xff) \<and> msg_sz m AND MESSAGE_TYPE_MASK = sz \<and>
    w_mem w' = (w_mem w)(w_brk w \<mapsto> Bytes (take (unat sz) bs @ [0])) \<and>
    (p \<in> H \<or> (\<exists>ps. gq_abs w' ps \<and> p \<in> set ps))"
proof -
  let ?m = "\<lparr>msg_source = src, msg_session = session, msg_data = Some (w_brk w),
    msg_sz = sz OR type_bits (type AND 0xff)\<rparr>"
  let ?w = "snd (skynet_malloc (Bytes (take (unat sz) bs @ [0])) w)"
  from node_reachable_inv [OF assms(1,2)] have inv0: "node_inv w (\<lambda>_. 0) H {}" by (simp add: rest_inv_def)
  from malloc_ok [OF surjective_pairing node_ok_refl [OF inv0]]
  have inv: "node_inv ?w (\<lambda>_. 0) H {}" by (rule node_ok_inv)
  have eqs: "w_ctxs ?w = w_ctxs w" "w_hs ?w = w_hs w" "w_hof ?w = w_hof w" "mqs ?w = mqs w"
    by (simp_all add: malloc_fields w_hof_def fun_eq_iff)
  have rel: "mq_release q = 0"
    using node_invD(8) [OF inv0 assms(4)] assms(5,6) by (auto simp: owns_queue_def tags_Some)
  from node_invD(3) [OF inv] obtain ps where "sched_inv_at ps (?w, H)" by blast
  from mq_push_contents [OF this _ rel assms(7)] assms(6) eqs obtain w' q' ps' where
    w': "skynet_mq_push ?w p ?m = Some w'" "mqs w' p = Some q'" "mq_contents q' = mq_contents q @ [?m]"
      "sched_inv_at ps' (w', H)" by metis
  have push: "skynet_context_push X ?w dst ?m = Some (0, w')"
    by (subst context_push_live [OF inv, of dst d x p]) (simp_all add: eqs assms w'(1))
  have "skynet_harbor_message_isremote ?w dst = Some False"
    using assms(8) by (simp add: skynet_harbor_message_isremote_def malloc_fields)
  then have "skynet_send X w ctx src dst type session (Some a) sz = Some (session, w')"
    using assms(9,10,15) push by (simp add: skynet_send_def filter_args_copy [OF assms(11-14)])
  moreover have "w_mem w' = (w_mem w)(w_brk w \<mapsto> Bytes (take (unat sz) bs @ [0]))"
    using wlpD [OF mq_same_push w'(1)] by (auto simp: mq_same_def malloc_fields dest: more_fields)
  moreover have "p \<in> H \<or> (\<exists>ps. gq_abs w' ps \<and> p \<in> set ps)"
    using sched_inv_atD(1) [OF w'(4)] sched_inv_atD(4) [OF w'(4) w'(2)] w'(3)
    by (auto simp: queue_inv_def split: if_splits)
  ultimately show ?thesis using w'(2,3) size_type_decode [OF assms(15), of type] by auto
qed

text \<open>C24: a message to a handle that is not registered is refused with \<open>-1\<close> and leaves no trace: the
  copy of the payload is freed again, and a payload that the sender gives away is freed.
  To handle 0 the call reports success, and the copy of the payload stays allocated though
  no message refers to it.\<close>

theorem send_dead:
  assumes "services_ok X" "node_reachable X (w, H)" "handle_live (w_hof w) (w_hs w) dst = None"
    and "skynet_harbor_message_isremote w dst = Some False" "dst \<noteq> 0" "src \<noteq> 0"
    and "type AND PTYPE_TAG_ALLOCSESSION = 0" "sz AND MESSAGE_TYPE_MASK = sz"
    and "w_mem w a = Some (Bytes bs)" "unat sz \<le> length bs"
  shows "if type AND PTYPE_TAG_DONTCOPY = 0
    then skynet_send X w ctx src dst type session (Some a) sz =
        Some (- 1, w\<lparr>w_mem := (w_mem w)(w_brk w := None), w_brk := w_brk w + 1\<rparr>) \<and>
      skynet_send X w ctx src 0 type session (Some a) sz = Some (session,
        w\<lparr>w_mem := (w_mem w)(w_brk w \<mapsto> Bytes (take (unat sz) bs @ [0])), w_brk := w_brk w + 1\<rparr>)
    else skynet_send X w ctx src dst type session (Some a) sz = Some (- 1, w\<lparr>w_mem := (w_mem w)(a := None)\<rparr>)"
proof (cases "type AND PTYPE_TAG_DONTCOPY = 0")
  case True
  let ?w = "snd (skynet_malloc (Bytes (take (unat sz) bs @ [0])) w)"
  from node_reachable_inv [OF assms(1,2)] have "node_inv w (\<lambda>_. 0) H {}" by (simp add: rest_inv_def)
  from malloc_ok [OF surjective_pairing node_ok_refl [OF this]]
  have inv: "node_inv ?w (\<lambda>_. 0) H {}" by (rule node_ok_inv)
  have "w_hs ?w = w_hs w" "w_hof ?w = w_hof w" by (simp_all add: malloc_fields w_hof_def fun_eq_iff)
  with assms(3) have dead: "handle_live (w_hof ?w) (w_hs ?w) dst = None" by simp
  have remote: "skynet_harbor_message_isremote ?w dst = Some False"
    using assms(4) by (simp add: skynet_harbor_message_isremote_def malloc_fields)
  have free: "skynet_free ?w (Some (w_brk w)) =
      Some (w\<lparr>w_mem := (w_mem w)(w_brk w := None), w_brk := w_brk w + 1\<rparr>)"
    by (simp add: skynet_free_def malloc_fields)
  show ?thesis
    using True assms(5,6,8) remote free context_push_dead [OF inv dead]
    by (simp add: skynet_send_def filter_args_copy [OF assms(7) True assms(9,10)]) (simp add: malloc_fields)
next
  case False
  from node_reachable_inv [OF assms(1,2)] have inv: "node_inv w (\<lambda>_. 0) H {}" by (simp add: rest_inv_def)
  have "filter_args X w ctx type session (Some a) sz = Some (session, Some a, sz OR type_bits (type AND 0xff), w)"
    using assms(7) False by (simp add: filter_args_def)
  then show ?thesis
    using False assms(4-6,8,9) context_push_dead [OF inv assms(3)] by (simp add: skynet_send_def skynet_free_def)
qed

subsection \<open>Handles as text\<close>

lemma id_to_hex_digits:
  assumes "k \<le> 8"
  shows "digits_value 16 (map (\<lambda>i. HEX_UPPER ! unat (drop_bit ((7 - i) * 4) h AND 0xf)) [0..<k]) =
      unat (h :: u32) div 16 ^ (8 - k) \<and>
    (\<forall>c \<in> set (map (\<lambda>i. HEX_UPPER ! unat (drop_bit ((7 - i) * 4) h AND 0xf)) [0..<k]). is_digit 16 c)"
  using assms
proof (induction k)
  case 0
  have "unat h < 4294967296" using unsigned_less [of h] by simp
  then show ?case by (simp add: digits_value_def)
next
  case (Suc k)
  let ?d = "unat (drop_bit ((7 - k) * 4) h AND 0xf)" and ?m = "unat h div 16 ^ (7 - k)"
  have mask: "(0xf :: u32) = mask 4" by (simp add: mask_eq_exp_minus_1)
  have "unat (drop_bit ((7 - k) * 4) h AND mask 4) = take_bit 4 (drop_bit ((7 - k) * 4) (unat h))"
    by (simp only: take_bit_eq_mask [symmetric] unsigned_take_bit_eq unat_drop_bit_eq)
  also have "\<dots> = unat h div 2 ^ ((7 - k) * 4) mod 2 ^ 4" by (simp only: take_bit_eq_mod drop_bit_eq_div)
  also have "(2 :: nat) ^ ((7 - k) * 4) = 16 ^ (7 - k)" by (simp add: power_mult mult.commute)
  finally have d: "?d = ?m mod 16" by (simp add: mask)
  have "8 - k = Suc (7 - k)" using Suc.prems by simp
  then have "unat h div 16 ^ (8 - k) = ?m div 16" by (simp only: power_Suc2 div_mult2_eq)
  moreover have "digit_value (HEX_UPPER ! ?d) = Some ?d" by (rule hex_upper_value) (simp add: d)
  moreover have "?d < 16" by (simp add: d)
  ultimately show ?case using Suc by (simp add: digits_value_snoc is_digit_def) (simp add: d)
qed

text \<open>C15: a handle that is printed as text, by \<open>REG\<close>, \<open>QUERY\<close> and \<open>MONITOR\<close> with \<open>%x\<close> or by \<open>LAUNCH\<close> with
  \<open>id_to_hex\<close>, reads back as the same handle wherever an address is parsed, and the text
  fits into the result buffer of a context.\<close>

theorem handle_text_roundtrip:
  "skynet_queryname X w ctx ('':'' @ print_x h) = Some (h, w) \<and> skynet_queryname X w ctx (id_to_hex h) = Some (h, w) \<and>
   tohandle X w c ('':'' @ print_x h) = Some (h, w) \<and> tohandle X w c (id_to_hex h) = Some (h, w) \<and>
   length ('':'' @ print_x h) < RESULT_SIZE \<and> length (id_to_hex h) < RESULT_SIZE"
proof -
  from id_to_hex_digits [of 8 h]
  have "parse_handle (map (\<lambda>i. HEX_UPPER ! unat (drop_bit ((7 - i) * 4) h AND 0xf)) [0..<8]) = h"
    by (intro strtoul_digits) simp_all
  then have "parse_handle (tl (id_to_hex h)) = h" by (simp only: id_to_hex_def list.sel)
  moreover have "starts CHR '':'' (id_to_hex h)" "length (id_to_hex h) = 9" by (simp_all add: id_to_hex_def)
  ultimately show ?thesis using parse_print_x [of h] length_print_x [of h]
    by (simp add: skynet_queryname_def tohandle_def RESULT_SIZE_def)
qed

subsection \<open>Sessions\<close>

text \<open>The sessions of \<open>n\<close> requests of one service.\<close>

fun newsessions :: "nat \<Rightarrow> world \<Rightarrow> ctx_id \<Rightarrow> (int list \<times> world) option" where
  "newsessions 0 w c = Some ([], w)"
| "newsessions (Suc n) w c = do {
     (s, w) \<leftarrow> skynet_context_newsession w c;
     (ss, w) \<leftarrow> newsessions n w c;
     Some (s # ss, w) }"

lemma newsession_next:
  assumes "w_ctxs w c = Some x" "0 \<le> ctx_session_id x"
  shows "skynet_context_newsession w c = (if ctx_session_id x < 2147483647
    then Some (ctx_session_id x + 1, set_ctx w c (x\<lparr>ctx_session_id := ctx_session_id x + 1\<rparr>)) else None)"
  using assms by (auto simp: skynet_context_newsession_def c_simps c_sint_None)

lemma newsessions_spec:
  assumes "w_ctxs w c = Some x" "0 \<le> ctx_session_id x" "ctx_session_id x \<le> 2147483647"
  shows "if ctx_session_id x + int n \<le> 2147483647
    then \<exists>w'. newsessions n w c = Some (map (\<lambda>k. ctx_session_id x + 1 + int k) [0..<n], w') \<and>
      w_ctxs w' c = Some (x\<lparr>ctx_session_id := ctx_session_id x + int n\<rparr>)
    else newsessions n w c = None"
  using assms
proof (induction n arbitrary: w x)
  case (Suc n)
  note step = newsession_next [OF Suc.prems(1,2)]
  show ?case
  proof (cases "ctx_session_id x < 2147483647")
    case False
    then show ?thesis using step by simp
  next
    case True
    let ?x = "x\<lparr>ctx_session_id := ctx_session_id x + 1\<rparr>"
    have x: "w_ctxs (set_ctx w c ?x) c = Some ?x" by (simp add: set_ctx_def)
    have list: "map (\<lambda>k. ctx_session_id x + 1 + int k) [0..<Suc n] =
        (ctx_session_id x + 1) # map (\<lambda>k. ctx_session_id ?x + 1 + int k) [0..<n]"
      by (simp add: upt_conv_Cons map_Suc_upt [symmetric] add.assoc del: upt_Suc)
    from Suc.IH [OF x] Suc.prems(2) True step show ?thesis
      unfolding list by (auto simp: algebra_simps split: if_splits)
  qed
qed simp

text \<open>C39: a service gets the session numbers that follow its counter, one after the other: they are
  positive \<open>int\<close>s and pairwise different.  The requests beyond the greatest \<open>int\<close> are undefined
  behaviour, also those that the code means to give the number 1 again.\<close>

theorem sessions_positive_distinct:
  assumes "w_ctxs w c = Some x" "0 \<le> ctx_session_id x" "ctx_session_id x \<le> 2147483647"
  shows "if ctx_session_id x + int n \<le> 2147483647
    then \<exists>ss w'. newsessions n w c = Some (ss, w') \<and> length ss = n \<and> distinct ss \<and>
      list_all (\<lambda>s. ctx_session_id x < s \<and> s \<le> ctx_session_id x + int n) ss \<and>
      w_ctxs w' c = Some (x\<lparr>ctx_session_id := ctx_session_id x + int n\<rparr>)
    else newsessions n w c = None"
  using newsessions_spec [OF assms, of n]
  by (auto simp: list_all_iff distinct_map inj_on_def split: if_splits)

subsection \<open>Services that do not return\<close>

text \<open>Logging returns when the text is short and no queue is full.\<close>

definition mq_room :: "world \<Rightarrow> bool" where
  "mq_room w \<longleftrightarrow> (\<forall>p q. mqs w p = Some q \<longrightarrow> skynet_mq_length q < mq_limit q)"

lemma context_push_returns:
  assumes inv: "node_inv w G H D" and room: "mq_room w"
  shows "\<exists>r w'. skynet_context_push X w h m = Some (r, w') \<and> mq_same w w'"
proof (cases "handle_live (w_hof w) (w_hs w) h")
  case None
  with context_push_dead [OF inv] show ?thesis by auto
next
  case (Some c)
  from live_ctx(3) [OF inv Some] obtain x where x: "w_ctxs w c = Some x" by blast
  from node_invD(8) [OF inv x] obtain p q where q: "ctx_queue x = Some p" "mqs w p = Some q" "mq_release q = 0"
    by (auto simp: owns_queue_def tags_Some)
  from node_invD(3) [OF inv] obtain ps where "sched_inv_at ps (w, H)" by blast
  moreover have "skynet_mq_length q < mq_limit q" using room q(2) by (simp add: mq_room_def)
  ultimately obtain w' where w': "skynet_mq_push w p m = Some w'" using sched_send [OF _ q(2,3)] by blast
  from context_push_live [OF inv Some x q(1)] w' wlpD [OF mq_same_push w'] show ?thesis by auto
qed

lemma error_returns:
  assumes inv: "node_inv w G H D" and room: "mq_room w" and len: "length s < LOG_MESSAGE_SIZE"
  shows "\<exists>w'. skynet_error X w None s = Some w' \<and> w_ctxs w' = w_ctxs w"
proof -
  have "\<exists>h. skynet_handle_findname (w_hs w) ''logger'' = Some h"
    using name_search_all [OF node_invD(2) [OF inv], of "''logger''"] by (auto simp: skynet_handle_findname_def)
  then obtain lg where lg: "(if w_logger w = 0 then skynet_handle_findname (w_hs w) ''logger'' else Some (w_logger w)) = Some lg"
    by (cases "w_logger w = 0") auto
  let ?w = "w\<lparr>w_logger := lg\<rparr>"
  let ?v = "snd (skynet_malloc (Bytes (string_bytes s @ replicate (length s + 1 - length s) 0)) ?w)"
  have "node_ok w G H D ?v"
    by (rule malloc_ok [OF surjective_pairing node_ok_frame(3) [OF node_ok_refl [OF inv]]])
  then have "node_inv ?v G H D" by (rule node_ok_inv)
  moreover have "mq_room ?v" using room by (simp add: mq_room_def malloc_fields)
  ultimately obtain r w' where push: "skynet_context_push X ?v lg \<lparr>msg_source = 0, msg_session = 0,
      msg_data = Some (w_brk w), msg_sz = of_nat (length s) OR type_bits PTYPE_TEXT\<rparr> = Some (r, w')" "mq_same ?v w'"
    using context_push_returns by blast
  have c: "c_int (length s) = Some (length s)" using len by (simp add: c_int_def LOG_MESSAGE_SIZE_def INT_MAX_def)
  have e: "error_size (length s) = Some (length s + 1)" using len by (simp add: error_size_def)
  have keep: "w_ctxs w' = w_ctxs w" using push(2) by (auto simp: mq_same_def malloc_fields dest: more_fields)
  show ?thesis
  proof (cases "lg = 0")
    case True
    then show ?thesis unfolding skynet_error_def lg by simp
  next
    case False
    with push(1) keep show ?thesis
      unfolding skynet_error_def lg by (simp add: c e) (simp add: skynet_malloc_def)
  qed
qed

text \<open>The text that the check logs is short.\<close>

lemma length_print_08x: "length (print_08x h) = 8"
  using length_print_x [of h] by (simp add: print_08x_def Let_def)

definition endless_text :: "skynet_monitor \<Rightarrow> string" where
  "endless_text sm = ''A message from [ :'' @ print_08x (mon_source sm) @ '' ] to [ :'' @
     print_08x (mon_destination sm) @ '' ] maybe in an endless loop (version = '' @ print_d (mon_version sm) @ '')''"

lemma endless_text_short:
  assumes "- 2147483648 \<le> mon_version sm" "mon_version sm < 2147483648"
  shows "length (endless_text sm) < LOG_MESSAGE_SIZE"
  using length_print_d [OF assms] by (simp add: endless_text_def length_print_08x LOG_MESSAGE_SIZE_def)

lemma endless_command:
  assumes "w_ctxs w c = Some x" "ctx_endless x"
  shows "\<exists>w'. skynet_command X w c ''ENDLESS'' param = Some (Some ''1'', w')"
  using assms
  by (simp add: skynet_command_def cmd_funcs_def cmd_endless_def set_result_def RESULT_SIZE_def upd_ctx_def set_ctx_def
      strcmp_eq_0)

text \<open>C19: a service that does not return from a message is found by two checks of the monitor
  thread: the first notes the version of the worker's monitor, the second, when the worker
  has not triggered it in between, returns with the service's context marked, and the
  service's command \<open>ENDLESS\<close> then answers \<open>1\<close>; a check after the worker has triggered the
  monitor, for any message, reports nothing.\<close>

theorem endless_detected:
  assumes "services_ok X" "node_reachable X (w, H)" "mq_room w"
    and "- 2147483648 \<le> mon_version sm" "mon_version sm < 2147483648" "mon_version sm \<noteq> mon_check_version sm"
    and "handle_live (w_hof w) (w_hs w) (mon_destination sm) = Some c" "mon_destination sm \<noteq> 0"
  shows "\<exists>sm1 w2 x w3. skynet_monitor_check X sm w = Some (sm1, w) \<and>
    skynet_monitor_check X sm1 w = Some (sm1, w2) \<and> w_ctxs w2 c = Some x \<and> ctx_endless x \<and>
    skynet_command X w2 c ''ENDLESS'' None = Some (Some ''1'', w3) \<and>
    map_option snd (skynet_monitor_check X (skynet_monitor_trigger sm1 s d) w) = Some w"
proof -
  let ?sm = "sm\<lparr>mon_check_version := mon_version sm\<rparr>"
  from node_reachable_inv [OF assms(1,2)] have inv: "node_inv w (\<lambda>_. 0) H {}" by (simp add: rest_inv_def)
  from live_ctx(3) [OF inv assms(7)] obtain x where x: "w_ctxs w c = Some x" by blast
  let ?w = "set_ctx w c (x\<lparr>ctx_endless := True\<rparr>)"
  have endless: "skynet_context_endless X w (mon_destination sm) = Some ?w"
    by (rule context_endless_live [OF inv assms(7) x])
  from context_endless_ok [OF assms(1) node_ok_refl [OF inv], of "mon_destination sm"] endless
  have "node_inv ?w (\<lambda>_. 0) H {}" by (simp add: wlp_def node_ok_def)
  moreover have "mq_room ?w" using assms(3) by (simp add: mq_room_def set_ctx_def)
  ultimately obtain w2 where w2: "skynet_error X ?w None (endless_text sm) = Some w2" "w_ctxs w2 = w_ctxs ?w"
    using error_returns [OF _ _ endless_text_short [OF assms(4,5)], of ?w] by blast
  have marked: "w_ctxs w2 c = Some (x\<lparr>ctx_endless := True\<rparr>)" by (simp add: w2(2))
  from endless_command [OF this] obtain w3 where w3: "skynet_command X w2 c ''ENDLESS'' None = Some (Some ''1'', w3)"
    by auto
  have first: "skynet_monitor_check X sm w = Some (?sm, w)"
    using assms(6) by (simp add: skynet_monitor_check_def)
  have second: "skynet_monitor_check X ?sm w = Some (?sm, w2)"
    using assms(8) endless w2(1) by (simp add: skynet_monitor_check_def endless_text_def)
  have "to_int32 (mon_version sm + 1) \<noteq> mon_version sm"
    using assms(4,5) by (cases "mon_version sm = 2147483647") (simp_all add: to_int32_id, simp add: to_int32_def)
  then have "map_option snd (skynet_monitor_check X (skynet_monitor_trigger ?sm s d) w) = Some w"
    by (simp add: skynet_monitor_check_def skynet_monitor_trigger_def)
  with first second marked w3 show ?thesis by fastforce
qed

subsection \<open>Applications to the example\<close>

text \<open>The service takes the name of the logger and logs a line: its queue holds the message, whose
  text is at address 3.\<close>

definition name_world :: world where
  "name_world = snd (the (skynet_command echo_ext echo_world 1 ''REG'' (Some ''.logger'')))"

definition log_world :: world where
  "log_world = snd (the (skynet_command echo_ext name_world 1 ''REG'' (Some ''x'')))"

text \<open>The three calls are evaluated once.\<close>

lemma log_run:
  "case skynet_context_new echo_ext (start_init (skynet_globalinit world_zero) 1 ''?.so'' (0, 0) (0, 0)) ''echo'' None of
      None \<Rightarrow> False
    | Some (r, w) \<Rightarrow> (case skynet_command echo_ext w 1 ''REG'' (Some ''.logger'') of
        None \<Rightarrow> False
      | Some (r, w1) \<Rightarrow> (case skynet_command echo_ext w1 1 ''REG'' (Some ''x'') of
          None \<Rightarrow> False
        | Some (r, w2) \<Rightarrow> handle_live (w_hof w2) (w_hs w2) 0x1000001 = Some 1 \<and>
            handle_live (w_hof w2) (w_hs w2) 0x1000002 = None \<and> w_HARBOR w2 = 0x1000000 \<and>
            (case w_ctxs w2 1 of None \<Rightarrow> False | Some x \<Rightarrow> ctx_queue x = Some 2 \<and> ctx_session_id x = 0) \<and>
            (case mqs w2 2 of None \<Rightarrow> False | Some q \<Rightarrow> skynet_mq_length q = 1) \<and>
            (case w_mem w2 3 of Some (Bytes bs) \<Rightarrow> 5 \<le> length bs | _ \<Rightarrow> False) \<and>
            w_brk w2 = 4 \<and> mqs w2 0 = None \<and> mqs w2 1 = None \<and> mqs w2 3 = None))"
  by code_simp

lemma case_result:
  "(case m of None \<Rightarrow> False | Some (r, w) \<Rightarrow> P w) \<Longrightarrow> (\<exists>r. m = Some (r, snd (the m))) \<and> P (snd (the m))"
  by (cases m) auto

lemmas log_run1 = case_result [OF log_run, folded echo_world_def]
lemmas log_run2 = case_result [OF log_run1 [THEN conjunct2], folded name_world_def]
lemmas log_run3 = case_result [OF log_run2 [THEN conjunct2], folded log_world_def]

lemma log_reachable: "node_reachable echo_ext (log_world, {})"
proof -
  from log_run2 log_run3 obtain r1 r2 where
    "skynet_command echo_ext echo_world 1 ''REG'' (Some ''.logger'') = Some (r1, name_world)"
    "skynet_command echo_ext name_world 1 ''REG'' (Some ''x'') = Some (r2, log_world)" by blast
  from node_reachable.step [OF node_reachable.step [OF echo_reachable node_step.command [OF this(1)]]
      node_step.command [OF this(2)]] show ?thesis .
qed

lemma log_world_facts:
  "handle_live (w_hof log_world) (w_hs log_world) 0x1000001 = Some 1"
  "handle_live (w_hof log_world) (w_hs log_world) 0x1000002 = None" "w_HARBOR log_world = 0x1000000"
  "\<exists>x. w_ctxs log_world 1 = Some x \<and> ctx_queue x = Some 2 \<and> ctx_session_id x = 0"
  "\<exists>q. mqs log_world 2 = Some q \<and> skynet_mq_length q = 1"
  "\<exists>bs. w_mem log_world 3 = Some (Bytes bs) \<and> 5 \<le> length bs"
  "w_brk log_world = 4" "mqs log_world 0 = None" "mqs log_world 1 = None" "mqs log_world 3 = None"
  using log_run3 [THEN conjunct2] by (simp_all split: option.splits payload.splits)

lemma log_local: "h AND NOT HANDLE_MASK = 0x1000000 \<Longrightarrow> skynet_harbor_message_isremote log_world h = Some False"
  by (simp add: skynet_harbor_message_isremote_def log_world_facts(3))

lemma log_room: "mq_room log_world"
  unfolding mq_room_def
proof (intro allI impI)
  fix p q
  assume q: "mqs log_world p = Some q"
  from node_reachable_inv [OF echo_services_ok log_reachable]
  have inv: "node_inv log_world (\<lambda>_. 0) {} {}" by (simp add: rest_inv_def)
  have "mq_tags log_world p = Some (mq_handle q, mq_release q)" using q by (simp add: tags_Some)
  from node_invD(10) [OF inv this] have "p < 4" by (simp add: log_world_facts(7))
  with q log_world_facts(8-10) have "p = 2" by (cases "p = 0"; cases "p = 1"; cases "p = 3") auto
  with q log_world_facts(5) show "skynet_mq_length q < mq_limit q" by (auto simp: mq_limit_def)
qed

theorem send_delivers_witness:
  "\<exists>w' q m. skynet_send echo_ext log_world (Some 1) 0x1000001 0x1000001 1 7 (Some 3) 5 = Some (7, w') \<and>
     mqs w' 2 = Some q \<and> last (mq_contents q) = m \<and> msg_session m = 7 \<and> msg_sz m AND MESSAGE_TYPE_MASK = 5"
proof -
  from log_world_facts obtain x q bs where "w_ctxs log_world 1 = Some x" "ctx_queue x = Some 2"
    "mqs log_world 2 = Some q" "skynet_mq_length q = 1" "w_mem log_world 3 = Some (Bytes bs)" "5 \<le> length bs" by blast
  then show ?thesis
    using send_delivers [OF echo_services_ok log_reachable log_world_facts(1),
        where x = x and p = 2 and q = q and src = "0x1000001" and type = 1 and a = 3 and bs = bs and sz = 5 and
        ctx = "Some 1" and session = 7]
    by (auto simp: mq_limit_def log_local HANDLE_MASK_def PTYPE_TAG_ALLOCSESSION_def PTYPE_TAG_DONTCOPY_def
        MESSAGE_TYPE_MASK_def)
qed

theorem send_dead_witness:
  "map_option fst (skynet_send echo_ext log_world (Some 1) 0x1000001 0x1000002 1 7 (Some 3) 5) = Some (- 1) \<and>
   map_option fst (skynet_send echo_ext log_world (Some 1) 0x1000001 0 1 7 (Some 3) 5) = Some 7"
proof -
  from log_world_facts obtain bs where "w_mem log_world 3 = Some (Bytes bs)" "5 \<le> length bs" by blast
  then show ?thesis
    using send_dead [OF echo_services_ok log_reachable log_world_facts(2),
        where src = "0x1000001" and type = 1 and a = 3 and bs = bs and sz = 5 and ctx = "Some 1" and session = 7]
    by (simp add: log_local HANDLE_MASK_def PTYPE_TAG_ALLOCSESSION_def PTYPE_TAG_DONTCOPY_def MESSAGE_TYPE_MASK_def)
qed

theorem sessions_positive_distinct_witness:
  "\<exists>ss w'. newsessions 3 log_world 1 = Some (ss, w') \<and> length ss = 3 \<and> distinct ss"
proof -
  from log_world_facts(4) obtain x where "w_ctxs log_world 1 = Some x" "ctx_session_id x = 0" by blast
  then show ?thesis using sessions_positive_distinct [of log_world 1 x 3] by auto
qed

theorem endless_detected_witness:
  "\<exists>w2 x sm1. skynet_monitor_check echo_ext sm1 log_world = Some (sm1, w2) \<and> w_ctxs w2 1 = Some x \<and> ctx_endless x"
proof -
  let ?sm = "\<lparr>mon_version = 1, mon_check_version = 0, mon_source = 5, mon_destination = 0x1000001\<rparr>"
  have "handle_live (w_hof log_world) (w_hs log_world) (mon_destination ?sm) = Some 1" using log_world_facts(1) by simp
  from endless_detected [OF echo_services_ok log_reachable log_room _ _ _ this] show ?thesis by simp blast
qed

end
