(* ===== verification/Hashid.thy ===== *)
theory Hashid
  imports Prelude
begin

text \<open>
  The table by which the gate finds a connection, \<open>service-src/hashid.h\<close>: the nodes of an
  array hold the socket ids (-1 in a free node), and a node in use is linked into the bucket of its
  id.  A bucket is the list of the indices of its nodes in link order, and a node in no bucket has
  no successor; the index stands for
  the address of a node.
\<close>

record hashid =
  hi_hashmod :: int
  hi_cap :: int
  hi_count :: int
  hi_id :: "int list"
  hi_hash :: "nat list list"

text \<open>The loop \<open>while (hashcap < max) hashcap *= 2;\<close>.\<close>

partial_function (option) hashcap_loop :: "nat \<Rightarrow> nat \<Rightarrow> nat option" where
  "hashcap_loop mx hashcap =
     (if hashcap < mx then do { n \<leftarrow> c_int (hashcap * 2); hashcap_loop mx n } else Some hashcap)"

declare hashcap_loop.simps [code]

definition hashid_init :: "nat \<Rightarrow> hashid option" where
  "hashid_init mx = do {
     hashcap \<leftarrow> hashcap_loop mx 16;
     Some \<lparr>hi_hashmod = int hashcap - 1, hi_cap = int mx, hi_count = 0, hi_id = replicate mx (- 1),
       hi_hash = replicate hashcap []\<rparr> }"

definition hashid_clear :: "hashid \<Rightarrow> hashid" where
  "hashid_clear hi = \<lparr>hi_hashmod = 1, hi_cap = 0, hi_count = 0, hi_id = [], hi_hash = []\<rparr>"

text \<open>The index of the bucket of an id.\<close>

definition hid_bucket :: "hashid \<Rightarrow> int \<Rightarrow> nat" where
  "hid_bucket hi i = nat (i AND hi_hashmod hi)"

fun lookup_chain :: "int list \<Rightarrow> int \<Rightarrow> nat list \<Rightarrow> int option" where
  "lookup_chain ids i [] = Some (- 1)"
| "lookup_chain ids i (c # cs) = do {
     x \<leftarrow> arr_get ids c;
     (if x = i then Some (int c) else lookup_chain ids i cs) }"

definition hashid_lookup :: "hashid \<Rightarrow> int \<Rightarrow> int option" where
  "hashid_lookup hi i = do {
     b \<leftarrow> arr_get (hi_hash hi) (hid_bucket hi i);
     lookup_chain (hi_id hi) i b }"

text \<open>The first node of a bucket with the id is unlinked.\<close>

fun remove_chain :: "int list \<Rightarrow> int \<Rightarrow> nat list \<Rightarrow> (nat \<times> nat list) option option" where
  "remove_chain ids i [] = Some None"
| "remove_chain ids i (c # cs) = do {
     x \<leftarrow> arr_get ids c;
     (if x = i then Some (Some (c, cs))
      else do {
        r \<leftarrow> remove_chain ids i cs;
        Some (map_option (\<lambda>(d, ds). (d, c # ds)) r) }) }"

definition hashid_remove :: "hashid \<Rightarrow> int \<Rightarrow> (int \<times> hashid) option" where
  "hashid_remove hi i = do {
     let h = hid_bucket hi i;
     b \<leftarrow> arr_get (hi_hash hi) h;
     r \<leftarrow> remove_chain (hi_id hi) i b;
     (case r of
        None \<Rightarrow> Some (- 1, hi)
      | Some (c, cs) \<Rightarrow> do {
          ids \<leftarrow> arr_set (hi_id hi) c (- 1);
          bs \<leftarrow> arr_set (hi_hash hi) h cs;
          Some (int c, hi\<lparr>hi_count := hi_count hi - 1, hi_id := ids, hi_hash := bs\<rparr>) }) }"

text \<open>The scan for a free node; the first argument is what \<open>i\<close> has left to \<open>cap\<close>.  The sum is an
  \<open>int\<close>, whose overflow is undefined behaviour, and \<open>%\<close> takes the sign of the sum.\<close>

fun free_scan :: "nat \<Rightarrow> hashid \<Rightarrow> int \<Rightarrow> int \<Rightarrow> nat option option" where
  "free_scan 0 hi i k = Some None"
| "free_scan (Suc n) hi i k = do {
     c_assert (k + i < 2147483648);
     let index = sgn (k + i) * (\<bar>k + i\<bar> mod hi_cap hi);
     c_assert (0 \<le> index);
     x \<leftarrow> arr_get (hi_id hi) (nat index);
     (if x = - 1 then Some (Some (nat index)) else free_scan n hi i (k + 1)) }"

definition hashid_insert :: "hashid \<Rightarrow> int \<Rightarrow> (int \<times> hashid) option" where
  "hashid_insert hi i = do {
     r \<leftarrow> free_scan (nat (hi_cap hi)) hi i 0;
     c \<leftarrow> r;
     let h = hid_bucket hi i;
     ids \<leftarrow> arr_set (hi_id hi) c i;
     b \<leftarrow> arr_get (hi_hash hi) h;
     bs \<leftarrow> arr_set (hi_hash hi) h (c # b);
     Some (int c, hi\<lparr>hi_count := hi_count hi + 1, hi_id := ids, hi_hash := bs\<rparr>) }"

definition hashid_full :: "hashid \<Rightarrow> bool" where
  "hashid_full hi \<longleftrightarrow> hi_count hi = hi_cap hi"

subsection \<open>The map a table represents\<close>

definition hid_used :: "hashid \<Rightarrow> nat set" where
  "hid_used hi = {c. c < length (hi_id hi) \<and> hi_id hi ! c \<noteq> - 1}"

definition hid_map :: "hashid \<Rightarrow> int \<rightharpoonup> nat" where
  "hid_map hi = (map_of (zip (hi_id hi) [0..<length (hi_id hi)]))(- 1 := None)"

definition hid_inv :: "hashid \<Rightarrow> bool" where
  "hid_inv hi \<longleftrightarrow> (\<exists>k. hi_hashmod hi = 2 ^ k - 1) \<and> int (length (hi_hash hi)) = hi_hashmod hi + 1 \<and>
     int (length (hi_id hi)) = hi_cap hi \<and> 0 < hi_cap hi \<and> hi_count hi = int (card (hid_used hi)) \<and>
     inj_on ((!) (hi_id hi)) (hid_used hi) \<and>
     (\<forall>h < length (hi_hash hi). distinct (hi_hash hi ! h) \<and>
        set (hi_hash hi ! h) = {c \<in> hid_used hi. hid_bucket hi (hi_id hi ! c) = h})"

lemma hid_invD:
  assumes "hid_inv hi"
  shows "\<exists>k. hi_hashmod hi = 2 ^ k - 1" "int (length (hi_hash hi)) = hi_hashmod hi + 1"
    "int (length (hi_id hi)) = hi_cap hi" "0 < hi_cap hi" "hi_count hi = int (card (hid_used hi))"
    "inj_on ((!) (hi_id hi)) (hid_used hi)"
    "h < length (hi_hash hi) \<Longrightarrow> distinct (hi_hash hi ! h)"
    "h < length (hi_hash hi) \<Longrightarrow> set (hi_hash hi ! h) = {c \<in> hid_used hi. hid_bucket hi (hi_id hi ! c) = h}"
  using assms unfolding hid_inv_def by blast+

lemma bucket_in_range:
  assumes "hid_inv hi"
  shows "hid_bucket hi i < length (hi_hash hi)"
proof -
  from hid_invD(1) [OF assms] obtain k where k: "hi_hashmod hi = 2 ^ k - 1" by blast
  then have "hi_hashmod hi = mask k" by (simp add: mask_eq_exp_minus_1)
  then have "i AND hi_hashmod hi = i mod 2 ^ k" by (simp add: take_bit_eq_mask [symmetric] take_bit_eq_mod)
  then show ?thesis using hid_invD(2) [OF assms] k by (simp add: hid_bucket_def)
qed

lemma hid_map_Some:
  assumes "hid_inv hi"
  shows "hid_map hi i = Some c \<longleftrightarrow> c \<in> hid_used hi \<and> hi_id hi ! c = i"
proof (cases "i = - 1")
  case True
  then show ?thesis by (auto simp: hid_map_def hid_used_def)
next
  case False
  let ?m = "map_of (zip (hi_id hi) [0..<length (hi_id hi)])"
  have mem: "?m i = Some d \<Longrightarrow> d \<in> hid_used hi \<and> hi_id hi ! d = i" for d
    using False by (auto dest!: map_of_SomeD simp: in_set_zip hid_used_def)
  have "?m i = Some c" if c: "c \<in> hid_used hi" "hi_id hi ! c = i"
  proof -
    from c have "i \<in> set (hi_id hi)" by (auto simp: hid_used_def)
    then obtain d where d: "?m i = Some d" by (cases "?m i") (auto simp: map_of_zip_is_None)
    with mem [OF d] c inj_onD [OF hid_invD(6) [OF assms], of d c] show ?thesis by simp
  qed
  with mem [of c] False show ?thesis by (auto simp: hid_map_def)
qed

lemma lookup_chain_spec:
  "\<forall>c \<in> set b. c < length ids \<Longrightarrow>
   lookup_chain ids i b = Some (case find (\<lambda>c. ids ! c = i) b of Some c \<Rightarrow> int c | None \<Rightarrow> - 1)"
  by (induction b) (simp_all add: c_simps)

lemma remove_chain_spec:
  "\<forall>c \<in> set b. c < length ids \<Longrightarrow>
   remove_chain ids i b = Some (case find (\<lambda>c. ids ! c = i) b of Some c \<Rightarrow> Some (c, remove1 c b) | None \<Rightarrow> None)"
  by (induction b) (auto simp: c_simps split: option.splits dest: find_Some_iff [THEN iffD1])

text \<open>The search in the bucket of an id finds its node.\<close>

lemma find_bucket:
  assumes inv: "hid_inv hi"
  shows "find (\<lambda>c. hi_id hi ! c = i) (hi_hash hi ! hid_bucket hi i) = hid_map hi i"
    "\<forall>c \<in> set (hi_hash hi ! hid_bucket hi i). c < length (hi_id hi)"
proof -
  let ?b = "hi_hash hi ! hid_bucket hi i"
  note b = hid_invD(8) [OF inv bucket_in_range [OF inv], of i]
  show "\<forall>c \<in> set ?b. c < length (hi_id hi)" by (simp add: b hid_used_def)
  show "find (\<lambda>c. hi_id hi ! c = i) ?b = hid_map hi i"
  proof (cases "find (\<lambda>c. hi_id hi ! c = i) ?b")
    case None
    then have "\<not> (\<exists>c. c \<in> set ?b \<and> hi_id hi ! c = i)" by (auto simp: find_None_iff)
    then have "hid_map hi i \<noteq> Some c" for c using hid_map_Some [OF inv, of i c] b by auto
    with None show ?thesis by (cases "hid_map hi i") auto
  next
    case (Some c)
    then have "c \<in> set ?b" "hi_id hi ! c = i" by (auto simp: find_Some_iff)
    with b hid_map_Some [OF inv, of i c] Some show ?thesis by auto
  qed
qed

lemma lookup_spec:
  assumes "hid_inv hi"
  shows "hashid_lookup hi i = Some (case hid_map hi i of Some c \<Rightarrow> int c | None \<Rightarrow> - 1)"
  using bucket_in_range [OF assms] find_bucket [OF assms, of i]
  by (simp add: hashid_lookup_def lookup_chain_spec c_simps)

lemma full_spec:
  assumes "hid_inv hi"
  shows "hashid_full hi \<longleftrightarrow> hid_used hi = {0..<length (hi_id hi)}"
proof -
  have sub: "hid_used hi \<subseteq> {0..<length (hi_id hi)}" by (auto simp: hid_used_def)
  have "hashid_full hi \<longleftrightarrow> card (hid_used hi) = length (hi_id hi)"
    using hid_invD(3,5) [OF assms] by (auto simp: hashid_full_def)
  also have "\<dots> \<longleftrightarrow> hid_used hi = {0..<length (hi_id hi)}"
    using card_subset_eq [OF _ sub] by auto
  finally show ?thesis .
qed

subsection \<open>The operations on the map\<close>

lemma init_spec:
  assumes "0 < mx" "int mx \<le> 1073741824"
  shows "\<exists>hi. hashid_init mx = Some hi \<and> hid_inv hi \<and> hid_map hi = Map.empty \<and> hi_cap hi = int mx"
proof -
  have loop: "\<exists>k. hashcap_loop mx (2 ^ j) = Some (2 ^ k)" if "j \<le> 30" for j
    using that
  proof (induction "30 - j" arbitrary: j)
    case 0
    then have "int (2 ^ j) = 1073741824" by simp
    with assms(2) have "\<not> 2 ^ j < mx" by linarith
    then show ?case by (subst hashcap_loop.simps) auto
  next
    case (Suc d)
    show ?case
    proof (cases "2 ^ j < mx")
      case True
      then have "int (2 ^ j * 2) \<le> 2147483647" using assms(2) by linarith
      then have "c_int (2 ^ j * 2) = Some (2 ^ Suc j)" by (simp add: c_int_code mult.commute)
      with True have "hashcap_loop mx (2 ^ j) = hashcap_loop mx (2 ^ Suc j)"
        by (subst hashcap_loop.simps) (simp only: if_True bind.bind_lunit)
      moreover have "d = 30 - Suc j" "Suc j \<le> 30" using Suc(2,3) by arith+
      with Suc(1) obtain k where "hashcap_loop mx (2 ^ Suc j) = Some (2 ^ k)" by blast
      ultimately show ?thesis by simp
    next
      case False
      then show ?thesis by (subst hashcap_loop.simps) auto
    qed
  qed
  from loop [of 4] obtain k where k: "hashcap_loop mx 16 = Some (2 ^ k)" by auto
  let ?hi = "\<lparr>hi_hashmod = 2 ^ k - 1, hi_cap = int mx, hi_count = 0, hi_id = replicate mx (- 1),
    hi_hash = replicate (2 ^ k) []\<rparr>"
  have used: "hid_used ?hi = {}" by (auto simp: hid_used_def)
  have inv: "hid_inv ?hi" using assms(1) unfolding hid_inv_def used by auto
  have "hid_map ?hi i = None" for i using hid_map_Some [OF inv, of i] used by (cases "hid_map ?hi i") auto
  with inv k show ?thesis by (simp add: hashid_init_def fun_eq_iff)
qed

text \<open>One node changes its id, and its bucket with it.\<close>

lemma hid_update:
  assumes inv: "hid_inv hi" and c: "c < length (hi_id hi)"
    and others: "\<And>h. h < length (hi_hash hi) \<Longrightarrow> distinct (bs ! h) \<and>
      set (bs ! h) = {d. d \<noteq> c \<and> d \<in> hid_used hi \<and> hid_bucket hi (hi_id hi ! d) = h} \<union>
        (if i \<noteq> - 1 \<and> hid_bucket hi i = h then {c} else {})"
    and len: "length bs = length (hi_hash hi)"
    and fresh: "i \<noteq> - 1 \<Longrightarrow> \<forall>d. d \<in> hid_used hi \<longrightarrow> d \<noteq> c \<longrightarrow> hi_id hi ! d \<noteq> i"
    and cnt: "n = int (card (hid_used hi - {c} \<union> (if i \<noteq> - 1 then {c} else {})))"
  shows "hid_inv (hi\<lparr>hi_count := n, hi_id := (hi_id hi)[c := i], hi_hash := bs\<rparr>)"
proof -
  let ?hi = "hi\<lparr>hi_count := n, hi_id := (hi_id hi)[c := i], hi_hash := bs\<rparr>"
  have used: "hid_used ?hi = hid_used hi - {c} \<union> (if i \<noteq> - 1 then {c} else {})"
    using c by (auto simp: hid_used_def nth_list_update_if split: if_splits)
  have bucket: "hid_bucket ?hi = hid_bucket hi" by (simp add: fun_eq_iff hid_bucket_def)
  have "inj_on ((!) (hi_id ?hi)) (hid_used ?hi)"
  proof (rule inj_onI)
    fix d e
    assume "d \<in> hid_used ?hi" "e \<in> hid_used ?hi" "hi_id ?hi ! d = hi_id ?hi ! e"
    with c fresh inj_onD [OF hid_invD(6) [OF inv], of d e] show "d = e"
      unfolding used by (auto simp: nth_list_update_if split: if_splits)
  qed
  moreover have "distinct (bs ! h) \<and> set (bs ! h) = {d \<in> hid_used ?hi. hid_bucket ?hi (hi_id ?hi ! d) = h}"
    if "h < length (hi_hash ?hi)" for h
    using others [of h] that len c unfolding used bucket by (auto simp: nth_list_update_if split: if_splits)
  ultimately show ?thesis
    using hid_invD(1-4) [OF inv] cnt unfolding hid_inv_def used by (simp add: len)
qed

lemma remove_spec:
  assumes inv: "hid_inv hi"
  shows "\<exists>hi'. hashid_remove hi i = Some (case hid_map hi i of Some c \<Rightarrow> int c | None \<Rightarrow> - 1, hi') \<and>
    hid_inv hi' \<and> hid_map hi' = (hid_map hi)(i := None) \<and> hi_cap hi' = hi_cap hi"
proof -
  let ?h = "hid_bucket hi i"
  let ?b = "hi_hash hi ! ?h"
  note h = bucket_in_range [OF inv, of i] and find = find_bucket [OF inv, of i]
  show ?thesis
  proof (cases "hid_map hi i")
    case None
    then show ?thesis using inv h find by (simp add: hashid_remove_def remove_chain_spec c_simps fun_upd_idem)
  next
    case (Some c)
    let ?hi = "hi\<lparr>hi_count := hi_count hi - 1, hi_id := (hi_id hi)[c := - 1], hi_hash := (hi_hash hi)[?h := remove1 c ?b]\<rparr>"
    from Some hid_map_Some [OF inv] have c: "c \<in> hid_used hi" "hi_id hi ! c = i" by auto
    then have len: "c < length (hi_id hi)" by (simp add: hid_used_def)
    have ret: "hashid_remove hi i = Some (int c, ?hi)"
      using h find len Some by (simp add: hashid_remove_def remove_chain_spec c_simps Let_def)
    have fin: "finite (hid_used hi)" by (simp add: hid_used_def)
    have inv': "hid_inv ?hi"
    proof (rule hid_update [OF inv len])
      fix k
      assume k: "k < length (hi_hash hi)"
      note bk = hid_invD(7,8) [OF inv k]
      show "distinct ((hi_hash hi)[?h := remove1 c ?b] ! k) \<and> set ((hi_hash hi)[?h := remove1 c ?b] ! k) =
          {d. d \<noteq> c \<and> d \<in> hid_used hi \<and> hid_bucket hi (hi_id hi ! d) = k} \<union>
          (if (- 1 :: int) \<noteq> - 1 \<and> hid_bucket hi (- 1) = k then {c} else {})"
        using bk c h by (cases "k = ?h") (auto simp: nth_list_update_if)
    next
      have "card (hid_used hi - {c}) = card (hid_used hi) - 1" using c fin by simp
      moreover have "card (hid_used hi) \<noteq> 0" using c fin by auto
      ultimately show "hi_count hi - 1 = int (card (hid_used hi - {c} \<union> (if (- 1 :: int) \<noteq> - 1 then {c} else {})))"
        using hid_invD(5) [OF inv] by simp
    qed simp_all
    have used: "hid_used ?hi = hid_used hi - {c}"
      using len by (auto simp: hid_used_def nth_list_update_if split: if_splits)
    have uniq: "d \<in> hid_used hi \<Longrightarrow> hi_id hi ! d = i \<Longrightarrow> d = c" for d
      using inj_onD [OF hid_invD(6) [OF inv], of d c] c by simp
    have "hid_map ?hi j = ((hid_map hi)(i := None)) j" for j
    proof (rule option_eqI)
      fix d
      have "hid_map ?hi j = Some d \<longleftrightarrow> d \<in> hid_used hi \<and> d \<noteq> c \<and> hi_id hi ! d = j"
        unfolding hid_map_Some [OF inv'] used by (auto simp: nth_list_update_if)
      also have "\<dots> \<longleftrightarrow> ((hid_map hi)(i := None)) j = Some d"
        using uniq [of d] c by (cases "j = i") (auto simp: hid_map_Some [OF inv])
      finally show "hid_map ?hi j = Some d \<longleftrightarrow> ((hid_map hi)(i := None)) j = Some d" .
    qed
    then show ?thesis using ret inv' Some by (intro exI [of _ ?hi]) (simp add: fun_eq_iff)
  qed
qed

text \<open>The scan finds a free node when there is one.\<close>

lemma free_scan_spec:
  assumes cap: "int (length (hi_id hi)) = hi_cap hi" "0 < hi_cap hi" and i: "0 \<le> i" "i + hi_cap hi \<le> 2147483648"
    and k: "0 \<le> k" "k + int n = hi_cap hi"
    and free: "\<exists>j. k \<le> j \<and> j < hi_cap hi \<and> hi_id hi ! nat ((j + i) mod hi_cap hi) = - 1"
  shows "\<exists>c. free_scan n hi i k = Some (Some c) \<and> c < length (hi_id hi) \<and> hi_id hi ! c = - 1"
  using k free
proof (induction n arbitrary: k)
  case 0
  then show ?case by auto
next
  case (Suc n)
  let ?x = "nat ((k + i) mod hi_cap hi)"
  have sum: "0 \<le> k + i" "k + i < 2147483648" using Suc.prems i by auto
  then have idx: "sgn (k + i) * ((k + i) mod hi_cap hi) = (k + i) mod hi_cap hi" by (cases "k + i = 0") auto
  have range: "0 \<le> (k + i) mod hi_cap hi" "(k + i) mod hi_cap hi < hi_cap hi" using cap by simp_all
  then have len: "?x < length (hi_id hi)" using cap by linarith
  have step: "free_scan (Suc n) hi i k = (if hi_id hi ! ?x = - 1 then Some (Some ?x) else free_scan n hi i (k + 1))"
    using sum range len by (simp add: Let_def c_simps idx)
  show ?case
  proof (cases "hi_id hi ! ?x = - 1")
    case True
    with step len show ?thesis by simp
  next
    case False
    from Suc.prems(3) obtain j where j: "k \<le> j" "j < hi_cap hi" "hi_id hi ! nat ((j + i) mod hi_cap hi) = - 1" by blast
    with False have "k \<noteq> j" by auto
    with j have "\<exists>j. k + 1 \<le> j \<and> j < hi_cap hi \<and> hi_id hi ! nat ((j + i) mod hi_cap hi) = - 1" by (intro exI [of _ j]) simp
    from Suc.IH [OF _ _ this] Suc.prems False step show ?thesis by simp
  qed
qed

lemma insert_spec:
  assumes inv: "hid_inv hi" and i: "0 \<le> i" "i + hi_cap hi \<le> 2147483648" and new: "hid_map hi i = None"
    and room: "\<not> hashid_full hi"
  shows "\<exists>c hi'. hashid_insert hi i = Some (int c, hi') \<and> hid_inv hi' \<and> hid_map hi' = (hid_map hi)(i \<mapsto> c) \<and>
    c \<notin> ran (hid_map hi) \<and> int c < hi_cap hi \<and> hi_cap hi' = hi_cap hi"
proof -
  let ?h = "hid_bucket hi i"
  let ?b = "hi_hash hi ! ?h"
  note cap = hid_invD(3,4) [OF inv] and h = bucket_in_range [OF inv, of i]
  from room full_spec [OF inv] obtain d where d: "d < length (hi_id hi)" "hi_id hi ! d = - 1"
    by (auto simp: hid_used_def)
  have "((int d - i) mod hi_cap hi + i) mod hi_cap hi = int d"
    using d(1) cap by (simp add: mod_add_left_eq)
  then have "\<exists>j. 0 \<le> j \<and> j < hi_cap hi \<and> hi_id hi ! nat ((j + i) mod hi_cap hi) = - 1"
    using d cap by (intro exI [of _ "(int d - i) mod hi_cap hi"]) simp
  from free_scan_spec [OF cap i order_refl _ this, of "nat (hi_cap hi)"] cap obtain c where
    c: "free_scan (nat (hi_cap hi)) hi i 0 = Some (Some c)" "c < length (hi_id hi)" "hi_id hi ! c = - 1" by auto
  then have free: "c \<notin> hid_used hi" by (simp add: hid_used_def)
  have fin: "finite (hid_used hi)" by (simp add: hid_used_def)
  let ?hi = "hi\<lparr>hi_count := hi_count hi + 1, hi_id := (hi_id hi)[c := i], hi_hash := (hi_hash hi)[?h := c # ?b]\<rparr>"
  have ret: "hashid_insert hi i = Some (int c, ?hi)" using c h by (simp add: hashid_insert_def Let_def c_simps)
  have none: "e \<in> hid_used hi \<Longrightarrow> hi_id hi ! e \<noteq> i" for e using hid_map_Some [OF inv, of i e] new by auto
  have inv': "hid_inv ?hi"
  proof (rule hid_update [OF inv c(2)])
    fix k
    assume k: "k < length (hi_hash hi)"
    note bk = hid_invD(7,8) [OF inv k]
    show "distinct ((hi_hash hi)[?h := c # ?b] ! k) \<and> set ((hi_hash hi)[?h := c # ?b] ! k) =
        {d. d \<noteq> c \<and> d \<in> hid_used hi \<and> hid_bucket hi (hi_id hi ! d) = k} \<union>
        (if i \<noteq> - 1 \<and> hid_bucket hi i = k then {c} else {})"
      using bk free h i(1) by (cases "k = ?h") (auto simp: nth_list_update_if)
  next
    have "hid_used hi - {c} = hid_used hi" using free by blast
    then show "hi_count hi + 1 = int (card (hid_used hi - {c} \<union> (if i \<noteq> - 1 then {c} else {})))"
      using hid_invD(5) [OF inv] free fin i(1) by simp
  qed (use none in auto)
  have used: "hid_used ?hi = insert c (hid_used hi)"
    using c i(1) by (auto simp: hid_used_def nth_list_update_if split: if_splits)
  have "hid_map ?hi j = ((hid_map hi)(i \<mapsto> c)) j" for j
  proof (rule option_eqI)
    fix e
    have "hid_map ?hi j = Some e \<longleftrightarrow> (e = c \<and> i = j) \<or> (e \<in> hid_used hi \<and> e \<noteq> c \<and> hi_id hi ! e = j)"
      unfolding hid_map_Some [OF inv'] used using c(2) by (auto simp: nth_list_update_if)
    also have "\<dots> \<longleftrightarrow> ((hid_map hi)(i \<mapsto> c)) j = Some e"
      using none [of e] free by (cases "j = i") (auto simp: hid_map_Some [OF inv])
    finally show "hid_map ?hi j = Some e \<longleftrightarrow> ((hid_map hi)(i \<mapsto> c)) j = Some e" .
  qed
  moreover have "c \<notin> ran (hid_map hi)" using hid_map_Some [OF inv, of _ c] free by (auto simp: ran_def)
  ultimately show ?thesis using ret inv' c(2) cap by (intro exI [of _ c] exI [of _ ?hi]) (simp add: fun_eq_iff)
qed

subsection \<open>Refinement\<close>

datatype hashid_op =
    Hash_insert int
  | Hash_remove int

fun hid_step :: "hashid_op \<Rightarrow> hashid \<Rightarrow> hashid option" where
  "hid_step (Hash_insert i) hi = map_option snd (hashid_insert hi i)"
| "hid_step (Hash_remove i) hi = map_option snd (hashid_remove hi i)"

text \<open>The gate inserts the id of a new socket after it has tested that the table is not full.\<close>

fun hid_ok :: "hashid_op \<Rightarrow> hashid \<Rightarrow> bool" where
  "hid_ok (Hash_insert i) hi \<longleftrightarrow> 0 \<le> i \<and> i + hi_cap hi \<le> 2147483648 \<and> hid_map hi i = None \<and> \<not> hashid_full hi"
| "hid_ok (Hash_remove i) hi \<longleftrightarrow> True"

definition hid_abs :: "hashid \<Rightarrow> int \<times> (int \<rightharpoonup> nat)" where
  "hid_abs hi = (hi_cap hi, hid_map hi)"

inductive hid_spec :: "hashid_op \<Rightarrow> int \<times> (int \<rightharpoonup> nat) \<Rightarrow> int \<times> (int \<rightharpoonup> nat) \<Rightarrow> bool" where
  insert: "m i = None \<Longrightarrow> c \<notin> ran m \<Longrightarrow> int c < cap \<Longrightarrow> hid_spec (Hash_insert i) (cap, m) (cap, m(i \<mapsto> c))"
| remove: "hid_spec (Hash_remove i) (cap, m) (cap, m(i := None))"

inductive_simps hid_spec_simps: "hid_spec (Hash_insert i) a a'" "hid_spec (Hash_remove i) a a'"

interpretation hid: data_refinement hid_inv hid_ok hid_step hid_abs hid_spec
proof
  fix hi op
  assume inv: "hid_inv hi" and ok: "hid_ok op hi"
  show "\<exists>hi'. hid_step op hi = Some hi' \<and> hid_inv hi' \<and> hid_spec op (hid_abs hi) (hid_abs hi')"
  proof (cases op)
    case (Hash_insert i)
    with insert_spec [OF inv, of i] ok show ?thesis by (auto simp: hid_abs_def hid_spec_simps)
  next
    case (Hash_remove i)
    with remove_spec [OF inv, of i] show ?thesis by (auto simp: hid_abs_def hid_spec_simps)
  qed
qed

text \<open>C14: the table is created, and in every state that insertions and removals lead to, no operation fails and the table
  refines a partial map from socket ids to distinct node indices below its capacity: an
  insertion gives a new id an index that no other id has, a removal forgets its id alone,
  a lookup finds exactly the index of an id, or -1, and the table is full exactly when
  every index is taken.\<close>

theorem hashid_refines:
  assumes "0 < mx" "int mx \<le> 1073741824"
  shows "\<exists>hi0. hashid_init mx = Some hi0 \<and> (ops_ok hid_ok hid_step ops hi0 \<longrightarrow>
    (\<exists>hi m. run_ops hid_step ops hi0 = Some hi \<and> spec_run hid_spec ops (int mx, Map.empty) (int mx, m) \<and>
      hashid_lookup hi i = Some (case m i of Some c \<Rightarrow> int c | None \<Rightarrow> - 1) \<and>
      map_option fst (hashid_remove hi i) = Some (case m i of Some c \<Rightarrow> int c | None \<Rightarrow> - 1) \<and>
      (hashid_full hi \<longleftrightarrow> ran m = {0..<mx})))"
proof -
  from init_spec [OF assms] obtain hi0 where
    init: "hashid_init mx = Some hi0" and hi0: "hid_inv hi0" "hid_abs hi0 = (int mx, Map.empty)"
    by (auto simp: hid_abs_def)
  have "\<exists>hi m. run_ops hid_step ops hi0 = Some hi \<and> spec_run hid_spec ops (int mx, Map.empty) (int mx, m) \<and>
      hashid_lookup hi i = Some (case m i of Some c \<Rightarrow> int c | None \<Rightarrow> - 1) \<and>
      map_option fst (hashid_remove hi i) = Some (case m i of Some c \<Rightarrow> int c | None \<Rightarrow> - 1) \<and>
      (hashid_full hi \<longleftrightarrow> ran m = {0..<mx})" if ok: "ops_ok hid_ok hid_step ops hi0"
  proof -
    from hid.run_refines [OF hi0(1) ok] hi0(2) obtain hi where
      hi: "run_ops hid_step ops hi0 = Some hi" "hid_inv hi" "spec_run hid_spec ops (int mx, Map.empty) (hid_abs hi)" by auto
    have caps: "spec_run hid_spec os a b \<Longrightarrow> fst b = fst a" for os a b
      by (induction rule: spec_run.induct) (auto elim: hid_spec.cases)
    from caps [OF hi(3)] have cap: "hi_cap hi = int mx" by (simp add: hid_abs_def)
    have "ran (hid_map hi) = hid_used hi" using hid_map_Some [OF hi(2)] by (auto simp: ran_def)
    moreover have "length (hi_id hi) = mx" using hid_invD(3) [OF hi(2)] cap by simp
    moreover obtain hi' where "hashid_remove hi i = Some (case hid_map hi i of Some c \<Rightarrow> int c | None \<Rightarrow> - 1, hi')"
      using remove_spec [OF hi(2), of i] by blast
    ultimately show ?thesis
      using hi lookup_spec [OF hi(2), of i] full_spec [OF hi(2)] cap
      by (intro exI [of _ hi] exI [of _ "hid_map hi"]) (simp add: hid_abs_def)
  qed
  with init show ?thesis by blast
qed

theorem hashid_refines_witness:
  "\<exists>hi0 hi. hashid_init 3 = Some hi0 \<and> run_ops hid_step [Hash_insert 7, Hash_insert 23, Hash_remove 7] hi0 = Some hi \<and>
     hashid_lookup hi 7 = Some (- 1)"
proof -
  let ?ops = "[Hash_insert 7, Hash_insert 23, Hash_remove 7]"
  let ?hi0 = "\<lparr>hi_hashmod = 15, hi_cap = 3, hi_count = 0, hi_id = [- 1, - 1, - 1], hi_hash = replicate 16 []\<rparr>"
  have init: "hashid_init 3 = Some ?hi0" by code_simp
  have "ops_ok hid_ok hid_step ?ops ?hi0" by code_simp
  with hashid_refines [of 3 ?ops 7] init obtain hi m where
    hi: "run_ops hid_step ?ops ?hi0 = Some hi" "spec_run hid_spec ?ops (3, Map.empty) (3, m)"
      "hashid_lookup hi 7 = Some (case m 7 of Some c \<Rightarrow> int c | None \<Rightarrow> - 1)" by auto
  from hi(2) have "m 7 = None" by (auto elim!: spec_run_consE simp: hid_spec_simps elim: spec_run.cases)
  with hi init show ?thesis by auto
qed

end
