(* ===== verification/Databuffer.thy ===== *)
theory Databuffer
  imports Prelude
begin

text \<open>
  The buffer of a connection of the gate, \<open>service-src/databuffer.h\<close>: a list of the blocks that
  the socket server delivered, read across their boundaries.  The nodes of the list come
  from a pool of blocks of 1023 nodes; the list and the free list of the pool are
  represented by their nodes in link order and by the number of nodes.  A block belongs to its
  node and is freed with it.
\<close>

definition MESSAGEPOOL :: nat where "MESSAGEPOOL = 1023"

record db_message =
  dm_buffer :: "u8 list"
  dm_size :: int

record databuffer =
  db_header :: int
  db_offset :: int
  db_size :: int
  db_msgs :: "db_message list"

record messagepool =
  mp_pool :: nat
  mp_freelist :: nat

definition databuffer_zero :: databuffer where
  "databuffer_zero = \<lparr>db_header = 0, db_offset = 0, db_size = 0, db_msgs = []\<rparr>"

definition messagepool_free :: "messagepool \<Rightarrow> messagepool" where
  "messagepool_free pool = \<lparr>mp_pool = 0, mp_freelist = 0\<rparr>"

text \<open>\<open>_return_message\<close>.\<close>

definition return_message :: "databuffer \<Rightarrow> messagepool \<Rightarrow> (databuffer \<times> messagepool) option" where
  "return_message db mp = (case db_msgs db of
     [] \<Rightarrow> None
   | m # ms \<Rightarrow> Some (db\<lparr>db_msgs := ms\<rparr>, mp\<lparr>mp_freelist := mp_freelist mp + 1\<rparr>))"

text \<open>\<open>memcpy\<close> from the block of a node.\<close>

definition copy_block :: "db_message \<Rightarrow> int \<Rightarrow> int \<Rightarrow> u8 list option" where
  "copy_block m offset n = do {
     c_assert (0 \<le> offset \<and> 0 \<le> n \<and> offset + n \<le> int (length (dm_buffer m)));
     Some (take (nat n) (drop (nat offset) (dm_buffer m))) }"

text \<open>The loop of \<open>databuffer_read\<close> over the nodes: the bytes read, the nodes left, the offset in
  the first of them, and the length of the free list.\<close>

fun read_loop :: "db_message list \<Rightarrow> int \<Rightarrow> int \<Rightarrow> nat \<Rightarrow> (u8 list \<times> db_message list \<times> int \<times> nat) option" where
  "read_loop [] offset sz free = None"
| "read_loop (m # ms) offset sz free =
     (let bsz = dm_size m - offset in
      if bsz > sz then do { d \<leftarrow> copy_block m offset sz; Some (d, m # ms, offset + sz, free) }
      else if bsz = sz then do { d \<leftarrow> copy_block m offset sz; Some (d, ms, 0, free + 1) }
      else do {
        d \<leftarrow> copy_block m offset bsz;
        (e, ms, offset, free) \<leftarrow> read_loop ms 0 (sz - bsz) (free + 1);
        Some (d @ e, ms, offset, free) })"

definition databuffer_read :: "databuffer \<Rightarrow> messagepool \<Rightarrow> int \<Rightarrow> (u8 list \<times> databuffer \<times> messagepool) option" where
  "databuffer_read db mp sz = do {
     c_assert (db_size db \<ge> sz);
     (d, ms, offset, free) \<leftarrow> read_loop (db_msgs db) (db_offset db) sz (mp_freelist mp);
     Some (d, db\<lparr>db_size := db_size db - sz, db_offset := offset, db_msgs := ms\<rparr>, mp\<lparr>mp_freelist := free\<rparr>) }"

text \<open>The size is an \<open>int\<close>, whose overflow is undefined behaviour.\<close>

definition databuffer_push :: "databuffer \<Rightarrow> messagepool \<Rightarrow> u8 list \<Rightarrow> int \<Rightarrow> (databuffer \<times> messagepool) option" where
  "databuffer_push db mp data sz = do {
     let mp = (if mp_freelist mp > 0 then mp\<lparr>mp_freelist := mp_freelist mp - 1\<rparr>
               else mp\<lparr>mp_pool := mp_pool mp + 1, mp_freelist := MESSAGEPOOL - 1\<rparr>);
     c_assert (db_size db + sz < 2147483648);
     Some (db\<lparr>db_size := db_size db + sz, db_msgs := db_msgs db @ [\<lparr>dm_buffer = data, dm_size = sz\<rparr>]\<rparr>, mp) }"

text \<open>The size in the header, big endian; four bytes are an \<open>int\<close> with its sign.\<close>

definition header_value :: "u8 list \<Rightarrow> int" where
  "header_value plen = to_int32 (foldl (\<lambda>v b. v * 256 + uint b) 0 plen)"

definition databuffer_readheader ::
    "databuffer \<Rightarrow> messagepool \<Rightarrow> int \<Rightarrow> (int \<times> databuffer \<times> messagepool) option" where
  "databuffer_readheader db mp header_size =
     (if db_header db = 0 \<and> db_size db < header_size then Some (- 1, db, mp)
      else do {
        (db, mp) \<leftarrow> (if db_header db = 0
          then do {
            (plen, db, mp) \<leftarrow> databuffer_read db mp header_size;
            Some (db\<lparr>db_header := header_value plen\<rparr>, mp) }
          else Some (db, mp));
        (if db_size db < db_header db then Some (- 1, db, mp) else Some (db_header db, db, mp)) })"

definition databuffer_reset :: "databuffer \<Rightarrow> databuffer" where
  "databuffer_reset db = db\<lparr>db_header := 0\<rparr>"

definition databuffer_clear :: "databuffer \<Rightarrow> messagepool \<Rightarrow> databuffer \<times> messagepool" where
  "databuffer_clear db mp = (databuffer_zero, mp\<lparr>mp_freelist := mp_freelist mp + length (db_msgs db)\<rparr>)"

subsection \<open>The bytes of a buffer\<close>

definition unread :: "databuffer \<Rightarrow> u8 list" where
  "unread db = drop (nat (db_offset db)) (concat (map dm_buffer (db_msgs db)))"

definition nodes_wf :: "db_message list \<Rightarrow> int \<Rightarrow> bool" where
  "nodes_wf ms offset \<longleftrightarrow> (\<forall>m \<in> set ms. dm_size m = int (length (dm_buffer m))) \<and> 0 \<le> offset \<and>
     (case ms of [] \<Rightarrow> offset = 0 | m # _ \<Rightarrow> offset = 0 \<or> offset < dm_size m)"

definition db_wf :: "databuffer \<Rightarrow> bool" where
  "db_wf db \<longleftrightarrow> nodes_wf (db_msgs db) (db_offset db) \<and> db_size db = int (length (unread db))"

lemma read_loop_spec:
  assumes "nodes_wf ms offset" "0 < sz" "sz \<le> int (length (drop (nat offset) (concat (map dm_buffer ms))))"
  shows "\<exists>ms' offset' free'. read_loop ms offset sz free =
      Some (take (nat sz) (drop (nat offset) (concat (map dm_buffer ms))), ms', offset', free') \<and>
    nodes_wf ms' offset' \<and>
    drop (nat offset') (concat (map dm_buffer ms')) = drop (nat (offset + sz)) (concat (map dm_buffer ms)) \<and>
    free' + length ms' = free + length ms"
  using assms
proof (induction ms arbitrary: offset sz free)
  case Nil
  then show ?case by simp
next
  case (Cons m ms)
  let ?b = "dm_buffer m" and ?r = "concat (map dm_buffer ms)"
  let ?bsz = "dm_size m - offset"
  from Cons.prems(1) have m: "dm_size m = int (length ?b)" and off: "0 \<le> offset" "offset = 0 \<or> offset < dm_size m"
    and rest: "\<forall>m \<in> set ms. dm_size m = int (length (dm_buffer m))" by (auto simp: nodes_wf_def)
  then have le: "nat offset \<le> length ?b" by auto
  have split: "drop (nat offset) (?b @ ?r) = drop (nat offset) ?b @ ?r" using le by simp
  have len: "int (length (drop (nat offset) ?b)) = ?bsz" using m le off by (simp add: int_ops(6))
  consider "?bsz > sz" | "?bsz = sz" | "?bsz < sz" by linarith
  then show ?case
  proof cases
    case 1
    have "copy_block m offset sz = Some (take (nat sz) (drop (nat offset) ?b))"
      using 1 Cons.prems(2) off m by (simp add: copy_block_def)
    moreover have "take (nat sz) (drop (nat offset) ?b @ ?r) = take (nat sz) (drop (nat offset) ?b)"
      using 1 len by simp
    moreover have "nodes_wf (m # ms) (offset + sz)" using 1 Cons.prems off m rest by (auto simp: nodes_wf_def)
    ultimately show ?thesis using 1 split by simp
  next
    case 2
    have "copy_block m offset sz = Some (drop (nat offset) ?b)"
      using 2 Cons.prems(2) off m len by (simp add: copy_block_def)
    moreover have "take (nat sz) (drop (nat offset) ?b @ ?r) = drop (nat offset) ?b" using 2 len by simp
    moreover have "nodes_wf ms 0" using rest by (auto simp: nodes_wf_def split: list.split)
    moreover have "drop (nat (offset + sz)) (?b @ ?r) = ?r" using 2 m off by simp
    ultimately show ?thesis using 2 split by simp
  next
    case 3
    have copy: "copy_block m offset ?bsz = Some (drop (nat offset) ?b)"
      using off m len le by (auto simp: copy_block_def)
    have "nodes_wf ms 0" using rest by (auto simp: nodes_wf_def split: list.split)
    moreover have "0 < sz - ?bsz" using 3 by simp
    moreover have "sz - ?bsz \<le> int (length (drop (nat 0) ?r))" using Cons.prems(3) split len by simp
    ultimately obtain ms' offset' free' where ih: "read_loop ms 0 (sz - ?bsz) (free + 1) =
        Some (take (nat (sz - ?bsz)) (drop (nat 0) ?r), ms', offset', free')" "nodes_wf ms' offset'"
      "drop (nat offset') (concat (map dm_buffer ms')) = drop (nat (0 + (sz - ?bsz))) ?r"
      "free' + length ms' = free + 1 + length ms" using Cons.IH by blast
    have "take (nat sz) (drop (nat offset) ?b @ ?r) = drop (nat offset) ?b @ take (nat (sz - ?bsz)) ?r"
    proof -
      have "length (drop (nat offset) ?b) \<le> nat sz" "nat sz - length (drop (nat offset) ?b) = nat (sz - ?bsz)"
        using 3 len by linarith+
      then show ?thesis by simp
    qed
    moreover have "drop (nat (offset + sz)) (?b @ ?r) = drop (nat (sz - ?bsz)) ?r"
    proof -
      have "nat (offset + sz) = length ?b + nat (sz - ?bsz)" using 3 m off by simp
      then show ?thesis by simp
    qed
    ultimately show ?thesis using 3 copy split ih by (simp add: Let_def)
  qed
qed

lemma read_spec:
  assumes "db_wf db" "0 < sz" "sz \<le> db_size db"
  shows "\<exists>db' mp'. databuffer_read db mp sz = Some (take (nat sz) (unread db), db', mp') \<and> db_wf db' \<and>
    unread db' = drop (nat sz) (unread db) \<and> db_size db' = db_size db - sz \<and> db_header db' = db_header db \<and>
    mp_pool mp' = mp_pool mp \<and> mp_freelist mp' + length (db_msgs db') = mp_freelist mp + length (db_msgs db)"
proof -
  from assms have "nodes_wf (db_msgs db) (db_offset db)" and size: "db_size db = int (length (unread db))"
    by (simp_all add: db_wf_def)
  from read_loop_spec [OF this(1) assms(2), of "mp_freelist mp"] assms(3) size obtain ms offset free where
    r: "read_loop (db_msgs db) (db_offset db) sz (mp_freelist mp) = Some (take (nat sz) (unread db), ms, offset, free)"
      "nodes_wf ms offset" "free + length ms = mp_freelist mp + length (db_msgs db)"
      "drop (nat offset) (concat (map dm_buffer ms)) = drop (nat (db_offset db + sz)) (concat (map dm_buffer (db_msgs db)))"
    by (auto simp: unread_def)
  let ?db = "db\<lparr>db_size := db_size db - sz, db_offset := offset, db_msgs := ms\<rparr>"
  have "0 \<le> db_offset db" using assms(1) by (simp add: db_wf_def nodes_wf_def)
  then have un: "unread ?db = drop (nat sz) (unread db)"
    using r(4) assms(2) by (simp add: unread_def nat_add_distrib add.commute)
  have "db_wf ?db"
    unfolding db_wf_def un using r(2) size assms by (simp add: int_ops(6))
  with r un assms(3) show ?thesis by (simp add: databuffer_read_def)
qed

lemma push_spec:
  assumes "db_wf db" "db_size db + int (length data) < 2147483648"
  shows "\<exists>db' mp'. databuffer_push db mp data (int (length data)) = Some (db', mp') \<and> db_wf db' \<and>
    unread db' = unread db @ data \<and> db_header db' = db_header db \<and>
    (mp_freelist mp + length (db_msgs db) + k = MESSAGEPOOL * mp_pool mp \<longrightarrow>
     mp_freelist mp' + length (db_msgs db') + k = MESSAGEPOOL * mp_pool mp')"
proof -
  let ?db = "db\<lparr>db_size := db_size db + int (length data),
    db_msgs := db_msgs db @ [\<lparr>dm_buffer = data, dm_size = int (length data)\<rparr>]\<rparr>"
  from assms(1) have wf: "nodes_wf (db_msgs db) (db_offset db)" "db_size db = int (length (unread db))"
    by (simp_all add: db_wf_def)
  have "nat (db_offset db) \<le> length (concat (map dm_buffer (db_msgs db)))"
    using wf(1) by (cases "db_msgs db") (auto simp: nodes_wf_def)
  then have un: "unread ?db = unread db @ data" by (simp add: unread_def)
  have "db_wf ?db" unfolding db_wf_def un
    using wf by (cases "db_msgs db") (auto simp: nodes_wf_def)
  with un assms(2) show ?thesis
    by (cases "mp_freelist mp") (auto simp: databuffer_push_def MESSAGEPOOL_def)
qed

end
