(* ===== verification/Gate.thy ===== *)
theory Gate
  imports Command Hashid Databuffer
begin

text \<open>
  The gate service, \<open>service-src/service_gate.c\<close>: it accepts the connections of the clients,
  cuts their byte streams into messages and forwards these to a broker, to the agent of the
  connection, or to a watchdog; other services control it by text commands.

  The operations return the state of the gate and the world.  The calls of the socket server are
  arguments (\<open>sock_ext\<close>).  The block that a socket message brings becomes the property of
  the buffer of its connection and leaves the store.  A local array that is passed to
  \<open>skynet_send\<close> is a block that exists during the call.
\<close>

definition BACKLOG :: int where "BACKLOG = 32"
definition REMOTE_NAME_SIZE :: int where "REMOTE_NAME_SIZE = 32"
definition SKYNET_SOCKET_TYPE_DATA :: int where "SKYNET_SOCKET_TYPE_DATA = 1"
definition SKYNET_SOCKET_TYPE_CONNECT :: int where "SKYNET_SOCKET_TYPE_CONNECT = 2"
definition SKYNET_SOCKET_TYPE_CLOSE :: int where "SKYNET_SOCKET_TYPE_CLOSE = 3"
definition SKYNET_SOCKET_TYPE_ACCEPT :: int where "SKYNET_SOCKET_TYPE_ACCEPT = 4"
definition SKYNET_SOCKET_TYPE_ERROR :: int where "SKYNET_SOCKET_TYPE_ERROR = 5"
definition SKYNET_SOCKET_TYPE_WARNING :: int where "SKYNET_SOCKET_TYPE_WARNING = 7"

record connection =
  co_id :: int
  co_agent :: u32
  co_client :: u32
  co_remote_name :: string
  co_buffer :: databuffer

record gate =
  ga_ctx :: ctx_id
  ga_listen_id :: int
  ga_watchdog :: u32
  ga_broker :: u32
  ga_client_tag :: int
  ga_header_size :: int
  ga_max_connection :: int
  ga_hash :: hashid
  ga_conn :: "connection list"
  ga_mp :: messagepool

record sock_ext =
  so_close :: "ctx_id \<Rightarrow> int \<Rightarrow> world \<Rightarrow> world option"
  so_start :: "ctx_id \<Rightarrow> int \<Rightarrow> world \<Rightarrow> world option"
  so_listen :: "ctx_id \<Rightarrow> string \<Rightarrow> int \<Rightarrow> int \<Rightarrow> world \<Rightarrow> (int \<times> world) option"
  so_send :: "ctx_id \<Rightarrow> int \<Rightarrow> nat option \<Rightarrow> int \<Rightarrow> world \<Rightarrow> (int \<times> world) option"

definition connection_zero :: connection where
  "connection_zero = \<lparr>co_id = 0, co_agent = 0, co_client = 0, co_remote_name = [], co_buffer = databuffer_zero\<rparr>"

definition gate_create :: gate where
  "gate_create = \<lparr>ga_ctx = 0, ga_listen_id = - 1, ga_watchdog = 0, ga_broker = 0, ga_client_tag = 0,
     ga_header_size = 0, ga_max_connection = 0,
     ga_hash = \<lparr>hi_hashmod = 0, hi_cap = 0, hi_count = 0, hi_id = [], hi_hash = []\<rparr>, ga_conn = [],
     ga_mp = \<lparr>mp_pool = 0, mp_freelist = 0\<rparr>\<rparr>"

fun close_connections :: "sock_ext \<Rightarrow> ctx_id \<Rightarrow> connection list \<Rightarrow> world \<Rightarrow> world option" where
  "close_connections S ctx [] w = Some w"
| "close_connections S ctx (c # cs) w = do {
     w \<leftarrow> (if co_id c \<ge> 0 then so_close S ctx (co_id c) w else Some w);
     close_connections S ctx cs w }"

definition gate_release :: "sock_ext \<Rightarrow> gate \<Rightarrow> world \<Rightarrow> world option" where
  "gate_release S g w = do {
     w \<leftarrow> close_connections S (ga_ctx g) (take (nat (ga_max_connection g)) (ga_conn g)) w;
     (if ga_listen_id g \<ge> 0 then so_close S (ga_ctx g) (ga_listen_id g) w else Some w) }"

subsection \<open>Text commands\<close>

definition c_string :: "string \<Rightarrow> string" where
  "c_string s = takeWhile (\<lambda>c. c \<noteq> CHR 0x00) s"

text \<open>\<open>_parm\<close>: what follows the command and its spaces, as a string.\<close>

definition parm_text :: "string \<Rightarrow> nat \<Rightarrow> string" where
  "parm_text s command_sz = c_string (dropWhile (\<lambda>c. c = CHR '' '') (drop command_sz s))"

text \<open>\<open>memcmp(command, "...", i) == 0\<close>: a difference ends the comparison, and without one it must
  not go past the zero byte of the literal.\<close>

definition memcmp_eq :: "string \<Rightarrow> string \<Rightarrow> nat \<Rightarrow> bool option" where
  "memcmp_eq cmd lit i =
     (let l = lit @ [CHR 0x00] in
      if i \<le> length l then Some (take i cmd = take i l)
      else if take (length l) cmd = l then None else Some False)"

definition forward_agent :: "gate \<Rightarrow> int \<Rightarrow> u32 \<Rightarrow> u32 \<Rightarrow> gate option" where
  "forward_agent g fd agentaddr clientaddr = do {
     i \<leftarrow> hashid_lookup (ga_hash g) fd;
     (if i \<ge> 0
      then do {
        c \<leftarrow> arr_get (ga_conn g) (nat i);
        cs \<leftarrow> arr_set (ga_conn g) (nat i) (c\<lparr>co_agent := agentaddr, co_client := clientaddr\<rparr>);
        Some (g\<lparr>ga_conn := cs\<rparr>) }
      else Some g) }"

text \<open>The command \<open>forward id :agent :client\<close>.  For an empty second word \<open>agent + 1\<close> points to the third;
  for an empty third one \<open>client + 1\<close> points behind its end, which is a fault here.\<close>

definition ctrl_forward :: "gate \<Rightarrow> string \<Rightarrow> gate option" where
  "ctrl_forward g s =
     (let sp = (\<lambda>c. c \<noteq> CHR '' ''); r1 = dropWhile sp s; r2 = dropWhile sp (tl r1) in
      if r1 = [] \<or> r2 = [] then Some g
      else let agent = takeWhile sp (tl r1); client = tl r2 in do {
        c_assert (client \<noteq> []);
        forward_agent g (to_int32 (strtol (takeWhile sp s) 10))
          (parse_handle (if agent = [] then client else tl agent)) (parse_handle (tl client)) })"

definition gate_ctrl :: "ext \<Rightarrow> sock_ext \<Rightarrow> gate \<Rightarrow> nat option \<Rightarrow> nat \<Rightarrow> world \<Rightarrow> (gate \<times> world) option" where
  "gate_ctrl X S g msg sz w =
     (if sz = 0 then Some (g, w)
      else do {
        a \<leftarrow> msg;
        bs \<leftarrow> mem_bytes X w a;
        c_assert (sz \<le> length bs);
        let command = map (\<lambda>b. char_of (unat b)) (take sz bs);
        let i = length (takeWhile (\<lambda>c. c \<noteq> CHR '' '') command);
        let parm = parm_text command i;
        kick \<leftarrow> memcmp_eq command ''kick'' i;
        (if kick
         then do {
           let uid = to_int32 (strtol parm 10);
           k \<leftarrow> hashid_lookup (ga_hash g) uid;
           w \<leftarrow> (if k \<ge> 0 then so_close S (ga_ctx g) uid w else Some w);
           Some (g, w) }
         else do {
           forward \<leftarrow> memcmp_eq command ''forward'' i;
           (if forward
            then do { g \<leftarrow> ctrl_forward g parm; Some (g, w) }
            else do {
              broker \<leftarrow> memcmp_eq command ''broker'' i;
              (if broker
               then do {
                 (h, w) \<leftarrow> skynet_queryname X w (Some (ga_ctx g)) parm;
                 Some (g\<lparr>ga_broker := h\<rparr>, w) }
               else do {
                 start \<leftarrow> memcmp_eq command ''start'' i;
                 (if start
                  then do {
                    let uid = to_int32 (strtol parm 10);
                    k \<leftarrow> hashid_lookup (ga_hash g) uid;
                    w \<leftarrow> (if k \<ge> 0 then so_start S (ga_ctx g) uid w else Some w);
                    Some (g, w) }
                  else do {
                    cl \<leftarrow> memcmp_eq command ''close'' i;
                    (if cl
                     then if ga_listen_id g \<ge> 0
                          then do {
                            w \<leftarrow> so_close S (ga_ctx g) (ga_listen_id g) w;
                            Some (g\<lparr>ga_listen_id := - 1\<rparr>, w) }
                          else Some (g, w)
                     else do {
                       w \<leftarrow> skynet_error X w (Some (ga_ctx g)) (''[gate] Unkown command : '' @ c_string command);
                       Some (g, w) }) }) }) }) }) })"

text \<open>\<open>_report\<close> with the text its format gives.\<close>

definition gate_report :: "ext \<Rightarrow> gate \<Rightarrow> string \<Rightarrow> world \<Rightarrow> world option" where
  "gate_report X g s w =
     (if ga_watchdog g = 0 then Some w
      else do {
        c_assert (length s < 1024);
        let (a, w) = skynet_malloc (Bytes (string_bytes s @ [0])) w;
        (r, w) \<leftarrow> skynet_send X w (Some (ga_ctx g)) 0 (ga_watchdog g) PTYPE_TEXT 0 (Some a) (of_nat (length s));
        skynet_free w (Some a) })"

subsection \<open>Messages of the clients\<close>

text \<open>A message is sent in a block that is given away.\<close>

definition give_away :: "ext \<Rightarrow> gate \<Rightarrow> u32 \<Rightarrow> u32 \<Rightarrow> u32 \<Rightarrow> u8 list \<Rightarrow> world \<Rightarrow> world option" where
  "give_away X g source dst type bs w = do {
     let (a, w) = skynet_malloc (Bytes bs) w;
     (r, w) \<leftarrow> skynet_send X w (Some (ga_ctx g)) source dst (type OR PTYPE_TAG_DONTCOPY) 0 (Some a) (of_nat (length bs));
     Some w }"

text \<open>Where a message of the connection goes; \<open>client_tag\<close> is the type of the messages of clients.\<close>

definition gate_send :: "ext \<Rightarrow> gate \<Rightarrow> connection \<Rightarrow> u8 list \<Rightarrow> world \<Rightarrow> world option" where
  "gate_send X g c data w =
     (if ga_broker g \<noteq> 0 then give_away X g 0 (ga_broker g) (word_of_int (ga_client_tag g)) data w
      else if co_agent c \<noteq> 0 then give_away X g (co_client c) (co_agent c) (word_of_int (ga_client_tag g)) data w
      else give_away X g 0 (ga_watchdog g) PTYPE_TEXT (string_bytes (print_d (co_id c) @ '' data '') @ data) w)"

definition has_destination :: "gate \<Rightarrow> connection \<Rightarrow> bool" where
  "has_destination g c \<longleftrightarrow> ga_broker g \<noteq> 0 \<or> co_agent c \<noteq> 0 \<or> ga_watchdog g \<noteq> 0"

text \<open>\<open>_forward\<close>: without a destination the message is not read.\<close>

definition gate_forward :: "ext \<Rightarrow> gate \<Rightarrow> connection \<Rightarrow> messagepool \<Rightarrow> int \<Rightarrow> world \<Rightarrow>
    (connection \<times> messagepool \<times> world) option" where
  "gate_forward X g c mp len w =
     (if has_destination g c
      then do {
        (data, db, mp) \<leftarrow> databuffer_read (co_buffer c) mp len;
        w \<leftarrow> gate_send X g c data w;
        Some (c\<lparr>co_buffer := db\<rparr>, mp, w) }
      else Some (c, mp, w))"

text \<open>The loop of \<open>dispatch_message\<close>.\<close>

partial_function (option) gate_loop :: "ext \<Rightarrow> sock_ext \<Rightarrow> gate \<Rightarrow> connection \<Rightarrow> int \<Rightarrow> messagepool \<Rightarrow> world \<Rightarrow>
    (connection \<times> messagepool \<times> world) option" where
  "gate_loop X S g c i mp w = do {
     (len, db, mp) \<leftarrow> databuffer_readheader (co_buffer c) mp (ga_header_size g);
     (if len < 0 then Some (c\<lparr>co_buffer := db\<rparr>, mp, w)
      else if len > 0
      then if len \<ge> 0x1000000
           then do {
             let (db, mp) = databuffer_clear db mp;
             w \<leftarrow> so_close S (ga_ctx g) i w;
             w \<leftarrow> skynet_error X w (Some (ga_ctx g)) ''Recv socket message > 16M'';
             Some (c\<lparr>co_buffer := db\<rparr>, mp, w) }
           else do {
             (c, mp, w) \<leftarrow> gate_forward X g (c\<lparr>co_buffer := db\<rparr>) mp len w;
             gate_loop X S g (c\<lparr>co_buffer := databuffer_reset (co_buffer c)\<rparr>) i mp w }
      else gate_loop X S g (c\<lparr>co_buffer := db\<rparr>) i mp w) }"

declare gate_loop.simps [code]

definition gate_dispatch :: "ext \<Rightarrow> sock_ext \<Rightarrow> gate \<Rightarrow> connection \<Rightarrow> int \<Rightarrow> messagepool \<Rightarrow> u8 list \<Rightarrow> int \<Rightarrow> world \<Rightarrow>
    (connection \<times> messagepool \<times> world) option" where
  "gate_dispatch X S g c i mp data sz w = do {
     (db, mp) \<leftarrow> databuffer_push (co_buffer c) mp data sz;
     gate_loop X S g (c\<lparr>co_buffer := db\<rparr>) i mp w }"

subsection \<open>Messages of the socket server\<close>

text \<open>\<open>dispatch_socket_message\<close>; \<open>sz\<close> is the length of what follows the structure.\<close>

definition dispatch_socket_message ::
    "ext \<Rightarrow> sock_ext \<Rightarrow> gate \<Rightarrow> socket_message \<Rightarrow> int \<Rightarrow> world \<Rightarrow> (gate \<times> world) option" where
  "dispatch_socket_message X S g m sz w =
     (if sm_type m = SKYNET_SOCKET_TYPE_DATA
      then do {
        k \<leftarrow> hashid_lookup (ga_hash g) (sm_id m);
        (if k \<ge> 0
         then do {
           c \<leftarrow> arr_get (ga_conn g) (nat k);
           a \<leftarrow> sm_buffer m;
           bs \<leftarrow> mem_bytes X w a;
           c_assert (0 \<le> sm_ud m \<and> sm_ud m \<le> int (length bs));
           w \<leftarrow> skynet_free w (Some a);
           (c, mp, w) \<leftarrow> gate_dispatch X S g c (sm_id m) (ga_mp g) (take (nat (sm_ud m)) bs) (sm_ud m) w;
           Some (g\<lparr>ga_conn := (ga_conn g)[nat k := c], ga_mp := mp\<rparr>, w) }
         else do {
           w \<leftarrow> skynet_error X w (Some (ga_ctx g)) (''Drop unknown connection '' @ print_d (sm_id m) @ '' message'');
           w \<leftarrow> so_close S (ga_ctx g) (sm_id m) w;
           w \<leftarrow> skynet_free w (sm_buffer m);
           Some (g, w) }) }
      else if sm_type m = SKYNET_SOCKET_TYPE_CONNECT
      then if sm_id m = ga_listen_id g then Some (g, w)
           else do {
             k \<leftarrow> hashid_lookup (ga_hash g) (sm_id m);
             (if k < 0
              then do {
                w \<leftarrow> skynet_error X w (Some (ga_ctx g)) (''Close unknown connection '' @ print_d (sm_id m));
                w \<leftarrow> so_close S (ga_ctx g) (sm_id m) w;
                Some (g, w) }
              else Some (g, w)) }
      else if sm_type m = SKYNET_SOCKET_TYPE_CLOSE \<or> sm_type m = SKYNET_SOCKET_TYPE_ERROR
      then do {
        (k, hash) \<leftarrow> hashid_remove (ga_hash g) (sm_id m);
        (if k \<ge> 0
         then do {
           c \<leftarrow> arr_get (ga_conn g) (nat k);
           let (db, mp) = databuffer_clear (co_buffer c) (ga_mp g);
           let g = g\<lparr>ga_hash := hash, ga_conn := (ga_conn g)[nat k := connection_zero\<lparr>co_id := - 1\<rparr>], ga_mp := mp\<rparr>;
           w \<leftarrow> gate_report X g (print_d (sm_id m) @ '' close'') w;
           Some (g, w) }
         else Some (g\<lparr>ga_hash := hash\<rparr>, w)) }
      else if sm_type m = SKYNET_SOCKET_TYPE_ACCEPT
      then do {
        c_assert (ga_listen_id g = sm_id m);
        (if hashid_full (ga_hash g)
         then do { w \<leftarrow> so_close S (ga_ctx g) (sm_ud m) w; Some (g, w) }
         else do {
           (k, hash) \<leftarrow> hashid_insert (ga_hash g) (sm_ud m);
           c \<leftarrow> arr_get (ga_conn g) (nat k);
           let n = (if sz \<ge> REMOTE_NAME_SIZE then REMOTE_NAME_SIZE - 1 else sz);
           c_assert (0 \<le> n \<and> n \<le> int (length (sm_data m)));
           let nm = c_string (map (\<lambda>b. char_of (unat b)) (take (nat n) (sm_data m)));
           let g = g\<lparr>ga_hash := hash, ga_conn := (ga_conn g)[nat k := c\<lparr>co_id := sm_ud m, co_remote_name := nm\<rparr>]\<rparr>;
           w \<leftarrow> gate_report X g (print_d (sm_ud m) @ '' open '' @ print_d (sm_ud m) @ '' '' @ nm @ '':0'') w;
           w \<leftarrow> skynet_error X w (Some (ga_ctx g)) (''socket open: '' @ print_x (word_of_int (sm_ud m)));
           Some (g, w) }) }
      else if sm_type m = SKYNET_SOCKET_TYPE_WARNING
      then do {
        w \<leftarrow> skynet_error X w (Some (ga_ctx g)) (''fd ('' @ print_d (sm_id m) @ '') send buffer ('' @ print_d (sm_ud m) @ '')K'');
        Some (g, w) }
      else Some (g, w))"

text \<open>\<open>_cb\<close>, the callback of the service: whether the message must not be freed.\<close>

definition gate_cb :: "ext \<Rightarrow> sock_ext \<Rightarrow> gate \<Rightarrow> nat \<Rightarrow> int \<Rightarrow> u32 \<Rightarrow> nat option \<Rightarrow> nat \<Rightarrow> world \<Rightarrow>
    (int \<times> gate \<times> world) option" where
  "gate_cb X S g type session source msg sz w =
     (if type = unat PTYPE_TEXT then do { (g, w) \<leftarrow> gate_ctrl X S g msg sz w; Some (0, g, w) }
      else if type = unat PTYPE_CLIENT
      then if sz \<le> 4
           then do {
             w \<leftarrow> skynet_error X w (Some (ga_ctx g)) (''Invalid client message from '' @ print_x source);
             Some (0, g, w) }
           else do {
             a \<leftarrow> msg;
             bs \<leftarrow> mem_bytes X w a;
             c_assert (sz \<le> length bs);
             let idbuf = drop (sz - 4) bs;
             let uid = (ucast (idbuf ! 0) OR push_bit 8 (ucast (idbuf ! 1)) OR push_bit 16 (ucast (idbuf ! 2)) OR
               push_bit 24 (ucast (idbuf ! 3)) :: u32);
             k \<leftarrow> hashid_lookup (ga_hash g) (sint uid);
             (if k \<ge> 0
              then do {
                (r, w) \<leftarrow> so_send S (ga_ctx g) (sint uid) msg (int sz - 4) w;
                Some (1, g, w) }
              else do {
                w \<leftarrow> skynet_error X w (Some (ga_ctx g))
                  (''Invalid client id '' @ print_d (sint uid) @ '' from '' @ print_x source);
                Some (0, g, w) }) }
      else if type = PTYPE_SOCKET
      then do {
        a \<leftarrow> msg;
        b \<leftarrow> w_mem w a;
        m \<leftarrow> (case b of Socket m \<Rightarrow> Some m | _ \<Rightarrow> None);
        (g, w) \<leftarrow> dispatch_socket_message X S g m (int sz - int (unat SIZEOF_SOCKET)) w;
        Some (0, g, w) }
      else Some (0, g, w))"

subsection \<open>Starting\<close>

definition start_listen :: "ext \<Rightarrow> sock_ext \<Rightarrow> gate \<Rightarrow> string \<Rightarrow> world \<Rightarrow> (int \<times> gate \<times> world) option" where
  "start_listen X S g listen_addr w =
     (let host = takeWhile (\<lambda>c. c \<noteq> CHR '':'') listen_addr;
          portstr = dropWhile (\<lambda>c. c \<noteq> CHR '':'') listen_addr;
          port = to_int32 (strtol (if portstr = [] then listen_addr else tl portstr) 10)
      in if port \<le> 0
         then do {
           w \<leftarrow> skynet_error X w (Some (ga_ctx g)) (''Invalid gate address '' @ listen_addr);
           Some (1, g, w) }
         else do {
           (n, w) \<leftarrow> so_listen S (ga_ctx g) (if portstr = [] then [] else host) port BACKLOG w;
           let g = g\<lparr>ga_listen_id := n\<rparr>;
           (if n < 0 then Some (1, g, w)
            else do { w \<leftarrow> so_start S (ga_ctx g) n w; Some (0, g, w) }) })"

text \<open>\<open>sscanf\<close> with \<open>%d\<close>.\<close>

definition scan_int :: "string \<Rightarrow> (int \<times> string) option" where
  "scan_int s =
     (let s = dropWhile c_isspace s;
          r = (case s of c # t \<Rightarrow> if c = CHR ''-'' \<or> c = CHR ''+'' then t else s | [] \<Rightarrow> []);
          ds = takeWhile (is_digit 10) r
      in if ds = [] then None else Some (to_int32 (strtol s 10), dropWhile (is_digit 10) r))"

text \<open>The fields that \<open>sscanf(parm, "%c %s %s %d %d", ...)\<close> finds: \<open>None\<close> for less than four.\<close>

definition scan_parm :: "string \<Rightarrow> (char \<times> string \<times> string \<times> int \<times> int) option" where
  "scan_parm s = (case s of
     [] \<Rightarrow> None
   | header # r \<Rightarrow>
       let (watchdog, r) = scan_word r; (binding, r) = scan_word r in
       if binding = [] then None
       else (case scan_int r of
          None \<Rightarrow> None
        | Some (tag, r) \<Rightarrow> Some (header, watchdog, binding, tag,
            case scan_int r of Some (mx, r) \<Rightarrow> mx | None \<Rightarrow> 0)))"

text \<open>\<open>gate_init\<close>; \<open>ud\<close> and \<open>cb\<close> are the addresses of the gate and of its callback.\<close>

definition gate_init :: "ext \<Rightarrow> sock_ext \<Rightarrow> nat option \<Rightarrow> nat option \<Rightarrow> gate \<Rightarrow> ctx_id \<Rightarrow> string option \<Rightarrow> world \<Rightarrow>
    (int \<times> gate \<times> world) option" where
  "gate_init X S ud cb g ctx parm4 w = (case parm4 of
     None \<Rightarrow> Some (1, g, w)
   | Some parm \<Rightarrow> (case scan_parm parm of
       None \<Rightarrow> do {
         w \<leftarrow> skynet_error X w (Some ctx) (''Invalid gate parm '' @ parm);
         Some (1, g, w) }
     | Some (header, watchdog, binding, tag, mx) \<Rightarrow>
         if mx \<le> 0
         then do { w \<leftarrow> skynet_error X w (Some ctx) ''Need max connection''; Some (1, g, w) }
         else if header \<noteq> CHR ''S'' \<and> header \<noteq> CHR ''L''
         then do { w \<leftarrow> skynet_error X w (Some ctx) ''Invalid data header style''; Some (1, g, w) }
         else do {
           (wd, w) \<leftarrow> (if starts CHR ''!'' watchdog then Some (0, w) else skynet_queryname X w (Some ctx) watchdog);
           let g = g\<lparr>ga_watchdog := wd\<rparr>;
           (if \<not> starts CHR ''!'' watchdog \<and> wd = 0
            then do { w \<leftarrow> skynet_error X w (Some ctx) (''Invalid watchdog '' @ watchdog); Some (1, g, w) }
            else do {
              hash \<leftarrow> hashid_init (nat mx);
              let g = g\<lparr>ga_ctx := ctx, ga_hash := hash,
                ga_conn := replicate (nat mx) (connection_zero\<lparr>co_id := - 1\<rparr>), ga_max_connection := mx,
                ga_client_tag := (if tag = 0 then int (unat PTYPE_CLIENT) else tag),
                ga_header_size := (if header = CHR ''S'' then 2 else 4)\<rparr>;
              w \<leftarrow> skynet_callback w ctx ud cb;
              start_listen X S g binding w }) }))"

end
