(* ===== verification/Gateprops.thy ===== *)
theory Gateprops
  imports Gate
begin

text \<open>
  The gate forwards exactly the messages that the byte stream of a connection holds, however
  the socket server cuts the stream.
\<close>

subsection \<open>The messages of a stream\<close>

text \<open>Complete messages, and the bytes that are left; \<open>hs\<close> is the size of a header.\<close>

function gate_frames :: "nat \<Rightarrow> u8 list \<Rightarrow> u8 list list \<times> u8 list" where
  "gate_frames hs bs =
     (let n = header_value (take hs bs) in
      if hs = 0 \<or> length bs < hs \<or> n < 0 \<or> int (length bs - hs) < n then ([], bs)
      else let (fs, r) = gate_frames hs (drop (hs + nat n) bs) in (take (nat n) (drop hs bs) # fs, r))"
  by pat_completeness auto
termination
  by (relation "measure (\<lambda>(hs, bs). length bs)") auto

declare gate_frames.simps [simp del]

lemma gate_frames_stop:
  assumes "length bs < hs \<or> header_value (take hs bs) < 0 \<or> int (length bs - hs) < header_value (take hs bs)"
  shows "gate_frames hs bs = ([], bs)"
  using assms by (subst gate_frames.simps) (auto simp: Let_def)

lemma gate_frames_step:
  assumes "0 < hs" "hs \<le> length bs" "header_value (take hs bs) = int n" "n \<le> length bs - hs"
  shows "gate_frames hs bs = (take n (drop hs bs) # fst (gate_frames hs (drop (hs + n) bs)),
    snd (gate_frames hs (drop (hs + n) bs)))"
  using assms by (subst gate_frames.simps) (simp add: Let_def case_prod_unfold)

text \<open>Bytes that arrive later only complete the rest.\<close>

lemma gate_frames_append:
  assumes "0 < hs"
  shows "gate_frames hs (a @ b) = (fst (gate_frames hs a) @ fst (gate_frames hs (snd (gate_frames hs a) @ b)),
    snd (gate_frames hs (snd (gate_frames hs a) @ b)))"
proof (induction a rule: length_induct)
  case (1 a)
  show ?case
  proof (cases "length a < hs \<or> header_value (take hs a) < 0 \<or> int (length a - hs) < header_value (take hs a)")
    case True
    then show ?thesis by (simp add: gate_frames_stop)
  next
    case False
    then obtain n where n: "header_value (take hs a) = int n" "n \<le> length a - hs" "hs \<le> length a"
      by (metis linorder_not_less of_nat_le_iff nonneg_int_cases)
    let ?a = "drop (hs + n) a"
    have "length ?a < length a" using n assms by simp
    with 1 have ih: "gate_frames hs (?a @ b) = (fst (gate_frames hs ?a) @ fst (gate_frames hs (snd (gate_frames hs ?a) @ b)),
        snd (gate_frames hs (snd (gate_frames hs ?a) @ b)))" by blast
    have "gate_frames hs (a @ b) = (take n (drop hs (a @ b)) # fst (gate_frames hs (drop (hs + n) (a @ b))),
        snd (gate_frames hs (drop (hs + n) (a @ b))))"
      by (rule gate_frames_step) (use n assms in simp_all)
    moreover have "drop (hs + n) (a @ b) = ?a @ b" "take n (drop hs (a @ b)) = take n (drop hs a)"
      using n by simp_all
    ultimately show ?thesis using gate_frames_step [OF assms n(3,1,2)] ih by simp
  qed
qed

subsection \<open>The state of a connection\<close>

text \<open>The stream that a buffer has not delivered: what is unread, behind the header when this has
  been read.\<close>

definition conn_stream :: "nat \<Rightarrow> databuffer \<Rightarrow> u8 list \<Rightarrow> bool" where
  "conn_stream hs db s \<longleftrightarrow>
     (if db_header db = 0 then s = unread db
      else hs \<le> length s \<and> header_value (take hs s) = db_header db \<and> drop hs s = unread db)"

text \<open>The nodes of all buffers: \<open>other\<close> of them are in the other connections.\<close>

definition pool_ok :: "messagepool \<Rightarrow> databuffer \<Rightarrow> nat \<Rightarrow> bool" where
  "pool_ok mp db other \<longleftrightarrow> mp_freelist mp + length (db_msgs db) + other = MESSAGEPOOL * mp_pool mp"

lemma header_unread [simp]:
  "unread (db\<lparr>db_header := h\<rparr>) = unread db" "db_wf (db\<lparr>db_header := h\<rparr>) = db_wf db"
  by (simp_all add: unread_def db_wf_def)

lemma readheader_spec:
  assumes wf: "db_wf db" and s: "conn_stream hs db s" and hs: "0 < hs" and pool: "pool_ok mp db other"
  shows "if length s < hs then databuffer_readheader db mp (int hs) = Some (- 1, db, mp)
    else \<exists>db' mp'. databuffer_readheader db mp (int hs) =
        Some (if int (length s - hs) < header_value (take hs s) then - 1 else header_value (take hs s), db', mp') \<and>
      db_wf db' \<and> unread db' = drop hs s \<and> db_header db' = header_value (take hs s) \<and> pool_ok mp' db' other"
proof -
  have size: "db_size db = int (length (unread db))" using wf by (simp add: db_wf_def)
  show ?thesis
  proof (cases "db_header db = 0")
    case True
    with s have s: "s = unread db" by (simp add: conn_stream_def)
    show ?thesis
    proof (cases "length s < hs")
      case True
      with s size \<open>db_header db = 0\<close> show ?thesis by (simp add: databuffer_readheader_def)
    next
      case False
      with read_spec [OF wf, of "int hs" mp] s size hs obtain db1 mp1 where
        r: "databuffer_read db mp (int hs) = Some (take hs s, db1, mp1)" "db_wf db1" "unread db1 = drop hs s"
          "db_size db1 = db_size db - int hs" "mp_pool mp1 = mp_pool mp"
          "mp_freelist mp1 + length (db_msgs db1) = mp_freelist mp + length (db_msgs db)" by auto
      let ?db = "db1\<lparr>db_header := header_value (take hs s)\<rparr>"
      have "db_wf ?db" "unread ?db = drop hs s" using r(2,3) by simp_all
      moreover have "pool_ok mp1 ?db other" using r(5,6) pool by (simp add: pool_ok_def)
      moreover have "db_size ?db = int (length s - hs)" using r(4) size s False by simp
      ultimately show ?thesis using False True r(1) size s
        by (auto simp: databuffer_readheader_def)
    qed
  next
    case False
    with s have "hs \<le> length s" "header_value (take hs s) = db_header db" "drop hs s = unread db"
      by (simp_all add: conn_stream_def)
    moreover from this size have "db_size db = int (length s - hs)" by (metis length_drop)
    ultimately show ?thesis using False wf pool by (simp add: databuffer_readheader_def)
  qed
qed

subsection \<open>The loop\<close>

fun deliver :: "ext \<Rightarrow> gate \<Rightarrow> connection \<Rightarrow> u8 list list \<Rightarrow> world \<Rightarrow> world option" where
  "deliver X g c [] w = Some w"
| "deliver X g c (f # fs) w = (if f = [] then deliver X g c fs w
     else do { w \<leftarrow> gate_send X g c f w; deliver X g c fs w })"

lemma send_buffer [simp]: "gate_send X g (c\<lparr>co_buffer := db\<rparr>) = gate_send X g c"
  by (simp add: fun_eq_iff gate_send_def)

lemma deliver_buffer [simp]: "deliver X g (c\<lparr>co_buffer := db\<rparr>) fs w = deliver X g c fs w"
proof (induction fs arbitrary: w)
  case (Cons f fs)
  show ?case by (cases "gate_send X g c f w") (simp_all add: Cons.IH)
qed simp

lemma deliver_append: "deliver X g c (fs @ gs) w = do { w \<leftarrow> deliver X g c fs w; deliver X g c gs w }"
proof (induction fs arbitrary: w)
  case (Cons f fs)
  show ?case by (cases "gate_send X g c f w") (simp_all add: Cons.IH)
qed simp

lemma destination_buffer [simp]: "has_destination g (c\<lparr>co_buffer := db\<rparr>) = has_destination g c"
  by (simp add: has_destination_def)

lemma gate_loop_spec:
  assumes hs: "0 < hs" "ga_header_size g = int hs" and dest: "has_destination g c"
    and wf: "db_wf (co_buffer c)" and s: "conn_stream hs (co_buffer c) s" and pool: "pool_ok mp (co_buffer c) other"
    and small: "\<forall>f \<in> set (fst (gate_frames hs s)). int (length f) < 0x1000000"
  shows "\<exists>db' mp'. (\<forall>w. gate_loop X S g c i mp w =
      do { w \<leftarrow> deliver X g c (fst (gate_frames hs s)) w; Some (c\<lparr>co_buffer := db'\<rparr>, mp', w) }) \<and>
    db_wf db' \<and> conn_stream hs db' (snd (gate_frames hs s)) \<and> pool_ok mp' db' other"
  using dest wf s pool small
proof (induction s arbitrary: c mp rule: length_induct)
  case (1 s c mp)
  let ?n = "header_value (take hs s)"
  note read = readheader_spec [OF 1(3,4) hs(1) 1(5)]
  show ?case
  proof (cases "length s < hs")
    case True
    then have "gate_loop X S g c i mp w = Some (c\<lparr>co_buffer := co_buffer c\<rparr>, mp, w)" for w
      using read hs(2) by (subst gate_loop.simps) simp
    with True 1(3-5) gate_frames_stop [of s hs] show ?thesis
      by (intro exI [of _ "co_buffer c"] exI [of _ mp]) simp
  next
    case False
    with read obtain db1 mp1 where r: "databuffer_readheader (co_buffer c) mp (int hs) =
        Some (if int (length s - hs) < ?n then - 1 else ?n, db1, mp1)"
      "db_wf db1" "unread db1 = drop hs s" "db_header db1 = ?n" "pool_ok mp1 db1 other" by auto
    show ?thesis
    proof (cases "?n < 0 \<or> int (length s - hs) < ?n")
      case True
      then have "gate_loop X S g c i mp w = Some (c\<lparr>co_buffer := db1\<rparr>, mp1, w)" for w
        using r(1) hs(2) by (subst gate_loop.simps) auto
      moreover have "conn_stream hs db1 s" using True r(3,4) False by (auto simp: conn_stream_def)
      ultimately show ?thesis using True r gate_frames_stop [of s hs]
        by (intro exI [of _ db1] exI [of _ mp1]) auto
    next
      case ok: False
      then obtain n where n: "?n = int n" "n \<le> length s - hs" by (metis linorder_not_less of_nat_le_iff nonneg_int_cases)
      let ?s = "drop (hs + n) s" and ?f = "take n (drop hs s)"
      have frames: "gate_frames hs s = (?f # fst (gate_frames hs ?s), snd (gate_frames hs ?s))"
        using False by (intro gate_frames_step) (use hs n in simp_all)
      have len: "length ?f = n" using n by simp
      have shorter: "length ?s < length s" using hs(1) False by simp
      have small: "\<forall>f \<in> set (fst (gate_frames hs ?s)). int (length f) < 0x1000000" "int n < 0x1000000"
        using 1(6) frames len by auto
      have hdr: "databuffer_readheader (co_buffer c) mp (int hs) = Some (int n, db1, mp1)"
        using r(1) ok n(1) by simp
      note ih = 1(1) [rule_format, OF shorter, of "c\<lparr>co_buffer := _\<rparr>"]
      show ?thesis
      proof (cases "n = 0")
        case True
        have "conn_stream hs db1 ?s" using r n True by (simp add: conn_stream_def)
        with ih [of db1 mp1] 1(2) r small obtain db' mp' where
          loop: "\<And>w. gate_loop X S g (c\<lparr>co_buffer := db1\<rparr>) i mp1 w =
              do { w \<leftarrow> deliver X g c (fst (gate_frames hs ?s)) w; Some (c\<lparr>co_buffer := db'\<rparr>, mp', w) }"
            "db_wf db'" "conn_stream hs db' (snd (gate_frames hs ?s))" "pool_ok mp' db' other" by auto
        have "gate_loop X S g c i mp w = gate_loop X S g (c\<lparr>co_buffer := db1\<rparr>) i mp1 w" for w
          using hdr hs(2) True by (subst gate_loop.simps) simp
        with loop frames True show ?thesis by (intro exI [of _ db'] exI [of _ mp']) simp
      next
        case nz: False
        have "int n \<le> db_size db1" using r(2,3) n by (simp add: db_wf_def)
        with read_spec [OF r(2), of "int n" mp1] nz obtain db2 mp2 where
          d: "databuffer_read db1 mp1 (int n) = Some (?f, db2, mp2)" "db_wf db2" "unread db2 = drop n (drop hs s)"
            "mp_pool mp2 = mp_pool mp1" "mp_freelist mp2 + length (db_msgs db2) = mp_freelist mp1 + length (db_msgs db1)"
          by (auto simp: r(3))
        let ?db = "databuffer_reset db2"
        have "db_wf ?db" "unread ?db = ?s" using d(2,3) by (simp_all add: databuffer_reset_def add.commute)
        moreover from this have "conn_stream hs ?db ?s" by (simp add: conn_stream_def databuffer_reset_def)
        moreover have "pool_ok mp2 ?db other" using r(5) d(4,5) by (simp add: pool_ok_def databuffer_reset_def)
        ultimately obtain db' mp' where
          loop: "\<And>w. gate_loop X S g (c\<lparr>co_buffer := ?db\<rparr>) i mp2 w =
              do { w \<leftarrow> deliver X g c (fst (gate_frames hs ?s)) w; Some (c\<lparr>co_buffer := db'\<rparr>, mp', w) }"
            "db_wf db'" "conn_stream hs db' (snd (gate_frames hs ?s))" "pool_ok mp' db' other"
          using ih [of ?db mp2] 1(2) small by auto
        have "gate_loop X S g c i mp w = do { w \<leftarrow> gate_send X g c ?f w; gate_loop X S g (c\<lparr>co_buffer := ?db\<rparr>) i mp2 w }" for w
          using hdr hs(2) nz small(2) 1(2) d(1)
          by (subst gate_loop.simps) (cases "gate_send X g c ?f w"; simp add: gate_forward_def)
        moreover have "?f \<noteq> []" using len nz by auto
        ultimately show ?thesis using loop frames by (intro exI [of _ db'] exI [of _ mp']) simp
      qed
    qed
  qed
qed

subsection \<open>The property\<close>

text \<open>The data of several socket messages, one after the other.\<close>

fun gate_feed :: "ext \<Rightarrow> sock_ext \<Rightarrow> gate \<Rightarrow> int \<Rightarrow> u8 list list \<Rightarrow> connection \<times> messagepool \<times> world \<Rightarrow>
    (connection \<times> messagepool \<times> world) option" where
  "gate_feed X S g i [] (c, mp, w) = Some (c, mp, w)"
| "gate_feed X S g i (d # ds) (c, mp, w) = do {
     r \<leftarrow> gate_dispatch X S g c i mp d (int (length d)) w;
     gate_feed X S g i ds r }"

lemma gate_feed_spec:
  assumes hs: "0 < hs" "ga_header_size g = int hs" and dest: "has_destination g c"
    and "db_wf (co_buffer c)" "conn_stream hs (co_buffer c) s" "pool_ok mp (co_buffer c) other"
    and "\<forall>f \<in> set (fst (gate_frames hs (s @ concat ds))). int (length f) < 0x1000000"
    and "int (length s) + int (length (concat ds)) < 2147483648"
    and "gate_frames hs s = ([], s)"
  shows "\<exists>db' mp'. (\<forall>w. gate_feed X S g i ds (c, mp, w) =
      do { w \<leftarrow> deliver X g c (fst (gate_frames hs (s @ concat ds))) w; Some (c\<lparr>co_buffer := db'\<rparr>, mp', w) }) \<and>
    db_wf db' \<and> conn_stream hs db' (snd (gate_frames hs (s @ concat ds))) \<and> pool_ok mp' db' other"
  using assms(3-)
proof (induction ds arbitrary: c s mp)
  case Nil
  then show ?case by (intro exI [of _ "co_buffer c"] exI [of _ mp]) simp
next
  case (Cons d ds)
  let ?F = "gate_frames hs (s @ d)"
  let ?c = "\<lambda>db. c\<lparr>co_buffer := db\<rparr>"
  have "length (unread (co_buffer c)) \<le> length s" using Cons.prems(3) by (auto simp: conn_stream_def split: if_splits dest!: arg_cong [of _ _ length])
  moreover have "db_size (co_buffer c) = int (length (unread (co_buffer c)))" using Cons.prems(2) by (simp add: db_wf_def)
  ultimately have fits: "db_size (co_buffer c) + int (length d) < 2147483648" using Cons.prems(6) by simp
  from push_spec [OF Cons.prems(2) fits, of mp other] obtain db1 mp1 where
    push: "databuffer_push (co_buffer c) mp d (int (length d)) = Some (db1, mp1)" "db_wf db1"
      "unread db1 = unread (co_buffer c) @ d" "db_header db1 = db_header (co_buffer c)" "pool_ok mp1 db1 other"
    using Cons.prems(4) by (auto simp: pool_ok_def)
  have stream: "conn_stream hs db1 (s @ d)" using Cons.prems(3) push(3,4) by (auto simp: conn_stream_def split: if_splits)
  have all: "gate_frames hs (s @ concat (d # ds)) =
      (fst ?F @ fst (gate_frames hs (snd ?F @ concat ds)), snd (gate_frames hs (snd ?F @ concat ds)))"
    using gate_frames_append [OF hs(1), of "s @ d" "concat ds"] by simp
  from Cons.prems(5) have small: "\<forall>f \<in> set (fst ?F). int (length f) < 0x1000000"
    "\<forall>f \<in> set (fst (gate_frames hs (snd ?F @ concat ds))). int (length f) < 0x1000000" unfolding all by auto
  from gate_loop_spec [OF hs, of "?c db1" "s @ d" mp1 other X S i] Cons.prems(1) push(2,5) stream small(1) obtain db2 mp2 where
    loop: "\<And>w. gate_loop X S g (?c db1) i mp1 w = do { w \<leftarrow> deliver X g c (fst ?F) w; Some (?c db2, mp2, w) }"
      "db_wf db2" "conn_stream hs db2 (snd ?F)" "pool_ok mp2 db2 other" by auto
  have idle: "gate_frames hs (snd ?F) = ([], snd ?F)"
  proof -
    note eq = gate_frames_append [OF hs(1), of "s @ d" "[]", unfolded append_Nil2]
    from arg_cong [OF eq, of fst] have "fst (gate_frames hs (snd ?F)) = []" by simp
    moreover from arg_cong [OF eq, of snd] have "snd (gate_frames hs (snd ?F)) = snd ?F" by simp
    ultimately show ?thesis by (simp add: prod_eq_iff)
  qed
  have short: "length (snd (gate_frames hs b)) \<le> length b" for b
  proof (induction b rule: length_induct)
    case (1 b)
    show ?case
    proof (cases "length b < hs \<or> header_value (take hs b) < 0 \<or> int (length b - hs) < header_value (take hs b)")
      case True
      then show ?thesis by (simp add: gate_frames_stop)
    next
      case False
      then obtain n where n: "header_value (take hs b) = int n" "n \<le> length b - hs" "hs \<le> length b"
        by (metis linorder_not_less of_nat_le_iff nonneg_int_cases)
      have "length (drop (hs + n) b) < length b" using n hs(1) by simp
      with 1 have "length (snd (gate_frames hs (drop (hs + n) b))) \<le> length (drop (hs + n) b)" by blast
      then show ?thesis using gate_frames_step [OF hs(1) n(3,1,2)] by simp
    qed
  qed
  have total: "int (length (snd ?F)) + int (length (concat ds)) < 2147483648"
    using short [of "s @ d"] Cons.prems(6) by simp
  have "has_destination g (?c db2)" "db_wf (co_buffer (?c db2))" "conn_stream hs (co_buffer (?c db2)) (snd ?F)"
    "pool_ok mp2 (co_buffer (?c db2)) other" using Cons.prems(1) loop by simp_all
  from Cons.IH [OF this small(2) total idle] obtain db3 mp3 where
    feed: "\<And>w. gate_feed X S g i ds (?c db2, mp2, w) =
        do { w \<leftarrow> deliver X g c (fst (gate_frames hs (snd ?F @ concat ds))) w; Some (?c db3, mp3, w) }"
      "db_wf db3" "conn_stream hs db3 (snd (gate_frames hs (snd ?F @ concat ds)))" "pool_ok mp3 db3 other" by auto
  have "gate_feed X S g i (d # ds) (c, mp, w) =
      do { w \<leftarrow> deliver X g c (fst (gate_frames hs (s @ concat (d # ds)))) w; Some (?c db3, mp3, w) }" for w
    unfolding all fst_conv deliver_append using push(1) loop(1) feed(1)
    by (cases "deliver X g c (fst ?F) w") (simp_all add: gate_dispatch_def)
  with feed(2-4) show ?case unfolding all by (intro exI [of _ db3] exI [of _ mp3]) simp
qed

text \<open>C13: however the socket server cuts the stream of a connection that has a destination, the gate
  sends exactly the complete messages that the stream holds, each once, in order and whole,
  and keeps the rest; no read leaves a block, and no node of the pool is lost.  (Messages of
  16M and more are refused, and an empty message is nothing.)\<close>

theorem gate_forwards_stream:
  assumes "hs = 2 \<or> hs = 4" "ga_header_size g = int hs" "has_destination g c" "co_buffer c = databuffer_zero"
    and "mp_freelist mp + other = MESSAGEPOOL * mp_pool mp"
    and "gate_frames hs (concat ds) = (messages, rest)"
    and "list_all (\<lambda>f. int (length f) < 0x1000000) messages" "int (length (concat ds)) < 2147483648"
  shows "\<exists>db' mp'. gate_feed X S g i ds (c, mp, w) =
      do { w \<leftarrow> deliver X g c messages w; Some (c\<lparr>co_buffer := db'\<rparr>, mp', w) } \<and>
    conn_stream hs db' rest \<and> mp_freelist mp' + length (db_msgs db') + other = MESSAGEPOOL * mp_pool mp'"
proof -
  have hs: "0 < hs" using assms(1) by auto
  have "db_wf (co_buffer c)" "conn_stream hs (co_buffer c) []" "pool_ok mp (co_buffer c) other"
    using assms(4,5) by (simp_all add: databuffer_zero_def db_wf_def nodes_wf_def unread_def conn_stream_def pool_ok_def)
  moreover have "gate_frames hs [] = ([], [])" using hs by (intro gate_frames_stop) simp
  ultimately obtain db' mp' where "\<forall>w. gate_feed X S g i ds (c, mp, w) =
      do { w \<leftarrow> deliver X g c (fst (gate_frames hs ([] @ concat ds))) w; Some (c\<lparr>co_buffer := db'\<rparr>, mp', w) }"
    "conn_stream hs db' (snd (gate_frames hs ([] @ concat ds)))" "pool_ok mp' db' other"
    using gate_feed_spec [OF hs assms(2,3), of "[]" mp other ds X S i] assms(6-8) by (auto simp: list_all_iff)
  with assms(6) show ?thesis by (auto simp: pool_ok_def)
qed

text \<open>A message of two bytes and the header of the next, cut inside the first header.\<close>

theorem gate_forwards_stream_witness:
  "\<forall>X S w. \<exists>db' mp'. gate_feed X S (gate_create\<lparr>ga_header_size := 2, ga_watchdog := 9\<rparr>) 5 [[0], [2, 7, 8, 0, 3]]
      (connection_zero\<lparr>co_id := 5\<rparr>, \<lparr>mp_pool = 0, mp_freelist = 0\<rparr>, w) =
    do { w \<leftarrow> give_away X (gate_create\<lparr>ga_header_size := 2, ga_watchdog := 9\<rparr>) 0 9 PTYPE_TEXT
           (string_bytes ''5 data '' @ [7, 8]) w;
         Some (connection_zero\<lparr>co_id := 5, co_buffer := db'\<rparr>, mp', w) } \<and> conn_stream 2 db' [0, 3]"
proof (intro allI)
  fix X S w
  let ?g = "gate_create\<lparr>ga_header_size := 2, ga_watchdog := 9\<rparr>" and ?c = "connection_zero\<lparr>co_id := 5\<rparr>"
  have frames: "gate_frames 2 (concat [[0], [2, 7, 8, 0, 3]]) = ([[7, 8]], [0, 3])" by code_simp
  have prefix: "print_d 5 @ '' data '' = ''5 data ''" by code_simp
  have "deliver X ?g ?c [] = Some" by (rule ext) simp
  then have deliver: "deliver X ?g ?c [[7, 8]] w = give_away X ?g 0 9 PTYPE_TEXT (string_bytes ''5 data '' @ [7, 8]) w"
    using prefix by (simp add: gate_send_def gate_create_def connection_zero_def)
  have g: "ga_header_size ?g = int 2" "has_destination ?g ?c" "co_buffer ?c = databuffer_zero"
    "mp_freelist \<lparr>mp_pool = 0, mp_freelist = 0\<rparr> + 0 = MESSAGEPOOL * mp_pool \<lparr>mp_pool = 0, mp_freelist = 0\<rparr>"
    "list_all (\<lambda>f. int (length f) < 0x1000000) [[7, 8] :: u8 list]" "int (length (concat [[0], [2, 7, 8, 0, 3 :: u8]])) < 2147483648"
    by (simp_all add: gate_create_def connection_zero_def has_destination_def)
  from gate_forwards_stream [OF disjI1 [OF refl] g(1-4) frames g(5,6), of X S 5 w] show "\<exists>db' mp'. gate_feed X S ?g 5 [[0], [2, 7, 8, 0, 3]] (?c, \<lparr>mp_pool = 0, mp_freelist = 0\<rparr>, w) =
    do { w \<leftarrow> give_away X ?g 0 9 PTYPE_TEXT (string_bytes ''5 data '' @ [7, 8]) w; Some (connection_zero\<lparr>co_id := 5, co_buffer := db'\<rparr>, mp', w) } \<and>
    conn_stream 2 db' [0, 3]"
    unfolding deliver by (elim exE conjE) (intro exI conjI)
qed

end
