(* ===== verification/Spec2Isabelle.thy ===== *)
theory Spec2Isabelle
  imports Mq Timer Handle Astar Flowgraph Netpack Sha1 Seri Cluster Nodeprops Gateprops
begin

text \<open>
  A model of the C code of a game server, and the theorems that make it correct.  The server
  is the actor engine skynet (\<open>src/3rd/skynet\<close>) with the C libraries that its Lua services
  call and a path finding library of the game (\<open>src/game/lualib-src\<close>).

  \<^bold>\<open>How the program works.\<close>  A node is a process that runs services.  A service is a context with
  a handle of 32 bits, a message queue and an instance of a module, whose callback handles one
  message at a time.  Sending puts a message into the queue of the receiver; a queue with messages
  is linked into one global list, from which worker threads take queues and dispatch them.  A timer
  thread sends the answers of timeouts, a monitor thread watches for callbacks that do not
  return.  Clients connect to a gate or to Lua code, which cut byte streams into messages; messages
  between Lua services are serialised Lua values.

  \<^bold>\<open>The engine.\<close>  The state of a node is the record \<open>world\<close> of \<open>Node\<close>, which extends the store of
  queues of \<open>Mq\<close>.
  \<^item> \<open>Mq\<close>: \<open>skynet_mq.c\<close>, the queues and the global list.  A queue is a growing FIFO ring; whatever
    the threads do in whatever order, no queue that holds a message is lost to the scheduler, and no
    operation fails.
  \<^item> \<open>Timer\<close>: \<open>skynet_timer.c\<close>, the timing wheel.  A timeout fires once, at its tick.
  \<^item> \<open>Handle\<close>: \<open>skynet_handle.c\<close>, handles and names.  The table and the sorted array refine two
    maps; lookups are exact.
  \<^item> \<open>Node\<close>: the state, with \<open>skynet_module.c\<close>, \<open>skynet_env.c\<close>, \<open>skynet_monitor.c\<close>.  \<open>Server\<close>:
    \<open>skynet_server.c\<close> with \<open>skynet_error.c\<close>, \<open>skynet_log.c\<close>, \<open>skynet_harbor.c\<close>.  \<open>Command\<close>: the text
    commands of \<open>skynet_server.c\<close>.  \<open>Start\<close>: \<open>skynet_start.c\<close> and \<open>skynet_main.c\<close>.  \<open>Cstring\<close>: the
    conversions of \<open>printf\<close> and \<open>strtol\<close> that they use.
  \<^item> \<open>Nodeinv\<close>, \<open>Nodesafe\<close>, \<open>Nodesteps\<close>: the invariant of a node (references are counted, a registered
    handle leads to a live context, which owns a live queue, contexts are counted) through every
    operation, and the reachable states.  \<open>Nodeprops\<close>: the invariant as a property, what sending does,
    handles as text, session numbers, the detection of endless loops.
  \<^item> \<open>Databuffer\<close>, \<open>Hashid\<close>, \<open>Gate\<close>: the gate service, \<open>service_gate.c\<close> with \<open>databuffer.h\<close> and
    \<open>hashid.h\<close>.  The table of connections refines a partial map; \<open>Gateprops\<close>: the gate forwards
    exactly the messages of a stream.

  \<^bold>\<open>The libraries of the Lua services.\<close>
  \<^item> \<open>Netpack\<close>: \<open>lua-netpack.c\<close>, packages of a two byte size and their data out of byte streams.
  \<^item> \<open>Cluster\<close>: \<open>lua-cluster.c\<close>, requests and responses between nodes.
  \<^item> \<open>Seri\<close>: \<open>lua-seri.c\<close>, the serialisation of Lua values.
  \<^item> \<open>Des\<close>, \<open>Crypt\<close>: \<open>lua-crypt.c\<close>; \<open>Sha1\<close>: \<open>lsha1.c\<close>.  Round trips of the codecs, the agreement of
    the key exchange, and SHA-1 and HMAC as the standards define them.
  \<^item> \<open>Pathfinding\<close>, \<open>Astar\<close>, \<open>Flowgraph\<close>: \<open>pathfinding.c\<close>, maps, the A* search and flow graphs,
    with the optimality of both.  On the map sizes, budgets and body sizes that the properties name, no
    sum of the search overflows; the error of \<open>luaL_checkstack\<close> for a walk that does not fit on the Lua
    stack (\<open>room\<close> slots) is an outcome of \<open>lpath\<close>.  A flow graph terminates, and either is right or
    ends in the one fault of the code, the membership test that reads past a queue that has wrapped
    around (\<open>turns\<close>, \<open>overrun\<close>).

  \<^bold>\<open>Conventions.\<close>  \<open>Prelude\<close> holds what the components share: the machine types, accesses to arrays,
  the result \<open>None\<close> for undefined behaviour, a failing \<open>assert\<close> or an endless loop, and two
  interfaces.  The locale \<open>fifo\<close> is the contract of a bounded or growing queue: any interleaving of
  pushes and pops behaves as on a list (\<open>run_queue\<close>, \<open>queue_spec\<close>; interpreted for the message queue, the queue of complete packages and the wavefront of the flow graph); the locale
  \<open>data_refinement\<close> is the contract of a data structure that refines an abstract one (interpreted
  for the handle registry and the table of connections).  A record has the fields of the C
  structure with a prefix, a definition the name of the C function where HOL allows it.  Machine
  integers are words where the code lets them wrap around.  An \<open>int\<close> of C is an integer, tested for its
  range (\<open>c_int\<close>, \<open>c_sint\<close>, or a \<open>c_assert\<close>) where its computation can overflow; no test is made where
  the operands exclude it, as for the sum of three bytes in \<open>hash_fd\<close>, for the coordinates of a
  neighbour of a cell of a map, or for an index that would be outside its array anyway.  Loops that may
  not end are \<open>partial_function\<close>s, so that \<open>None\<close> covers not returning.  No property assumes that a
  loop returns: the properties conclude it, or describe the inputs on which the code fails.

  \<^bold>\<open>Fuel.\<close>  Unpacking (\<open>Seri\<close>) runs with \<open>2 * length + 3\<close> units for a message: every value takes at
  least one byte and at most two units for a byte are used, so that running out is not an outcome
  (\<open>seri_unpack_total\<close>).  The scan for the padding (\<open>Des\<close>) takes at most ten turns, and the
  padding of SHA-1 at most 65.  \<open>script_ext\<close> (\<open>Nodesteps\<close>), an example of service modules, nests
  calls up to a given depth.

  \<^bold>\<open>Assumptions.\<close>  A call of a function of the engine is one step: the locks make the operations on
  the queues, the timer and the registry atomic, but what other threads do between two of these
  within one call is not interleaved, except in \<open>Mq\<close>, whose steps are single operations.
  \<open>skynet_malloc\<close> succeeds and returns an address that was not used before, and the C stack has room for
  local arrays and for the recursion of the serialisation; the Lua stack too, except in \<open>lpath\<close>.  Reference counts are
  unbounded.  The functions of service modules keep the invariant of the node (\<open>services_ok\<close>), as
  every module does that changes it by calls of the engine only (\<open>script_services_ok\<close>).  The
  steps of a node exclude that a handle is given out again while the queue of its former owner is
  still on the global list (\<open>handles_current\<close>): there the code stops with a failing assertion.
  Where a property needs room for one more message, this is a hypothesis (\<open>mq_room\<close>); the
  dynamic linker, the file system, the Lua virtual machine and the socket server are arguments.

  \<^bold>\<open>Not modelled.\<close>  The socket server (\<open>socket_server.c\<close>, \<open>socket_poll.h\<close>, \<open>skynet_socket.c\<close>): its core
  is the order of system calls; \<open>skynet_daemon.c\<close> and the logger services: input and output only;
  \<open>malloc_hook.c\<close>: counters around the allocator; \<open>service_harbor.c\<close> and \<open>service_snlua.c\<close>, which
  drive sockets and a Lua state; the creation of threads, their mutex and condition variable; the
  other bindings of \<open>lualib-src\<close> (sockets, shared data, debugging, sproto, BSON, MySQL), which
  move values between the Lua stack and the engine or external systems; the vendored libraries
  (Lua, jemalloc, lpeg, md5, cjson) and the Lua scripts of the game.
\<close>

end
